(* ===== verification/Rust_Prelude.thy ===== *)
theory Rust_Prelude
  imports Main "HOL-Library.Word"
begin

text \<open>
  The shared base of the development: the parts of the Rust standard library that the mail
  server uses, as executable HOL functions, and the lemmas on them that the component
  theories share.

  A Rust \<^verbatim>\<open>&str\<close> or \<^verbatim>\<open>String\<close> is its list of UTF-8 octets and a \<^verbatim>\<open>Vec<u8>\<close> is a list of
  octets; both are \<^typ>\<open>char list\<close>, since \<^typ>\<open>char\<close> is the type of octets. Operations that
  work on Rust characters (\<^verbatim>\<open>chars\<close>, \<^verbatim>\<open>trim\<close>) go through \<open>chars\<close>, which cuts a byte string into
  encoded characters. A Rust \<^verbatim>\<open>Result<T, E>\<close> is \<open>'e + 'a\<close> with \<open>Inl\<close> for \<^verbatim>\<open>Err\<close>, an
  \<^verbatim>\<open>Option<T>\<close> is \<open>'a option\<close>, and a \<^verbatim>\<open>HashMap\<close> is an association list whose order stands for
  the map's unspecified iteration order.
\<close>

named_theorems ascii_simps \<open>unfolds the ASCII character classes\<close>

type_synonym bytes = "char list"
type_synonym str = string

section \<open>Octets and ASCII classes\<close>

abbreviation code :: "char \<Rightarrow> nat" where
  "code c \<equiv> of_char c"

abbreviation CR :: char where "CR \<equiv> CHR 0x0D"
abbreviation LF :: char where "LF \<equiv> CHR 0x0A"
abbreviation NUL :: char where "NUL \<equiv> CHR 0x00"

definition crlf :: bytes where
  "crlf = [CR, LF]"

definition is_ascii_char :: "char \<Rightarrow> bool" where
  [ascii_simps]: "is_ascii_char c \<longleftrightarrow> code c < 128"

definition is_ascii_digit :: "char \<Rightarrow> bool" where
  [ascii_simps]: "is_ascii_digit c \<longleftrightarrow> 48 \<le> code c \<and> code c \<le> 57"

definition is_ascii_uppercase :: "char \<Rightarrow> bool" where
  [ascii_simps]: "is_ascii_uppercase c \<longleftrightarrow> 65 \<le> code c \<and> code c \<le> 90"

definition is_ascii_lowercase :: "char \<Rightarrow> bool" where
  [ascii_simps]: "is_ascii_lowercase c \<longleftrightarrow> 97 \<le> code c \<and> code c \<le> 122"

definition is_ascii_alphanumeric :: "char \<Rightarrow> bool" where
  [ascii_simps]: "is_ascii_alphanumeric c \<longleftrightarrow>
     is_ascii_digit c \<or> is_ascii_uppercase c \<or> is_ascii_lowercase c"

text \<open>\<^verbatim>\<open>u8::is_ascii_whitespace\<close>: space, tab, line feed, form feed, carriage return.\<close>

definition is_ascii_whitespace :: "char \<Rightarrow> bool" where
  [ascii_simps]: "is_ascii_whitespace c \<longleftrightarrow> code c \<in> {9, 10, 12, 13, 32}"

definition ascii_lower_char :: "char \<Rightarrow> char" where
  "ascii_lower_char c = (if is_ascii_uppercase c then char_of (code c + 32) else c)"

definition ascii_upper_char :: "char \<Rightarrow> char" where
  "ascii_upper_char c = (if is_ascii_lowercase c then char_of (code c - 32) else c)"

definition to_ascii_lowercase :: "str \<Rightarrow> str" where
  "to_ascii_lowercase = map ascii_lower_char"

definition to_ascii_uppercase :: "str \<Rightarrow> str" where
  "to_ascii_uppercase = map ascii_upper_char"

definition eq_ignore_ascii_case :: "str \<Rightarrow> str \<Rightarrow> bool" where
  "eq_ignore_ascii_case a b \<longleftrightarrow> to_ascii_lowercase a = to_ascii_lowercase b"

definition is_ascii :: "str \<Rightarrow> bool" where
  "is_ascii = list_all is_ascii_char"

section \<open>UTF-8\<close>

text \<open>
  \<open>utf8_head\<close> reads one character off a non-empty byte string, as \<^verbatim>\<open>core::str\<close> does: whether the
  bytes form a well-formed sequence and how many bytes it takes. On an ill-formed start it gives
  the length of the maximal prefix that \<^verbatim>\<open>from_utf8_lossy\<close> replaces by one U+FFFD.
\<close>

definition is_continuation :: "char \<Rightarrow> bool" where
  "is_continuation c \<longleftrightarrow> 128 \<le> code c \<and> code c < 192"

definition byte_at :: "bytes \<Rightarrow> nat \<Rightarrow> char" where
  "byte_at bs i = (if i < length bs then bs ! i else NUL)"

definition utf8_char_width :: "char \<Rightarrow> nat" where
  "utf8_char_width c =
     (let n = code c in
      if n < 0x80 then 1 else if n < 0xC2 then 0 else if n < 0xE0 then 2
      else if n < 0xF0 then 3 else if n < 0xF5 then 4 else 0)"

text \<open>The second byte allowed after the lead byte of a three or four byte sequence.\<close>

definition second_byte_ok :: "char \<Rightarrow> char \<Rightarrow> bool" where
  "second_byte_ok lead c =
     (let l = code lead; n = code c in
      if l = 0xE0 then 0xA0 \<le> n \<and> n \<le> 0xBF
      else if l = 0xED then 0x80 \<le> n \<and> n \<le> 0x9F
      else if l = 0xF0 then 0x90 \<le> n \<and> n \<le> 0xBF
      else if l = 0xF4 then 0x80 \<le> n \<and> n \<le> 0x8F
      else is_continuation c)"

definition utf8_head :: "bytes \<Rightarrow> bool \<times> nat" where
  "utf8_head bs =
     (let lead = byte_at bs 0; w = utf8_char_width lead in
      if w = 1 then (True, 1)
      else if w = 2 then (if is_continuation (byte_at bs 1) then (True, 2) else (False, 1))
      else if w = 3 then
        (if \<not> second_byte_ok lead (byte_at bs 1) then (False, 1)
         else if is_continuation (byte_at bs 2) then (True, 3) else (False, 2))
      else if w = 4 then
        (if \<not> second_byte_ok lead (byte_at bs 1) then (False, 1)
         else if \<not> is_continuation (byte_at bs 2) then (False, 2)
         else if is_continuation (byte_at bs 3) then (True, 4) else (False, 3))
      else (False, 1))"

lemma utf8_head_pos [simp]: "0 < snd (utf8_head bs)"
  by (simp add: utf8_head_def Let_def)

function utf8_chunks :: "bytes \<Rightarrow> (bool \<times> bytes) list" where
  "utf8_chunks [] = []"
| "utf8_chunks (b # bs) =
     (let (ok, n) = utf8_head (b # bs)
      in (ok, take n (b # bs)) # utf8_chunks (drop n (b # bs)))"
  by pat_completeness auto
termination
proof (relation "measure length")
  fix b :: char and bs ok n p
  assume "p = utf8_head (b # bs)" and "(ok, n) = p"
  then have "0 < n"
    using utf8_head_pos [of "b # bs"] by (metis snd_conv)
  then show "(drop n (b # bs), b # bs) \<in> measure length"
    by simp
qed simp

declare utf8_chunks.simps(2) [simp del]

definition chars :: "str \<Rightarrow> str list" where
  "chars s = map snd (utf8_chunks s)"

definition from_utf8 :: "bytes \<Rightarrow> str option" where
  "from_utf8 bs = (if list_all fst (utf8_chunks bs) then Some bs else None)"

definition replacement_char :: str where
  "replacement_char = [CHR 0xEF, CHR 0xBF, CHR 0xBD]"

definition from_utf8_lossy :: "bytes \<Rightarrow> str" where
  "from_utf8_lossy bs =
     concat (map (\<lambda>(ok, c). if ok then c else replacement_char) (utf8_chunks bs))"

definition is_char_boundary :: "str \<Rightarrow> nat \<Rightarrow> bool" where
  "is_char_boundary s i \<longleftrightarrow>
     i = 0 \<or> i = length s \<or> (i < length s \<and> \<not> is_continuation (s ! i))"

text \<open>\<^verbatim>\<open>char::is_control\<close> (general category Cc) and \<^verbatim>\<open>char::is_whitespace\<close> on an encoded
  character.\<close>

fun is_control :: "str \<Rightarrow> bool" where
  "is_control [c] \<longleftrightarrow> code c < 32 \<or> code c = 127"
| "is_control [c, d] \<longleftrightarrow> code c = 0xC2 \<and> 0x80 \<le> code d \<and> code d < 0xA0"
| "is_control _ \<longleftrightarrow> False"

fun is_whitespace :: "str \<Rightarrow> bool" where
  "is_whitespace [c] \<longleftrightarrow> code c = 32 \<or> (9 \<le> code c \<and> code c \<le> 13)"
| "is_whitespace [c, d] \<longleftrightarrow> code c = 0xC2 \<and> (code d = 0x85 \<or> code d = 0xA0)"
| "is_whitespace [c, d, e] \<longleftrightarrow>
     (code c = 0xE1 \<and> code d = 0x9A \<and> code e = 0x80)
   \<or> (code c = 0xE2 \<and> code d = 0x80 \<and>
       (code e \<le> 0x8A \<or> code e = 0xA8 \<or> code e = 0xA9 \<or> code e = 0xAF))
   \<or> (code c = 0xE2 \<and> code d = 0x81 \<and> code e = 0x9F)
   \<or> (code c = 0xE3 \<and> code d = 0x80 \<and> code e = 0x80)"
| "is_whitespace _ \<longleftrightarrow> False"

definition trim_start :: "str \<Rightarrow> str" where
  "trim_start s = concat (dropWhile is_whitespace (chars s))"

definition trim_end :: "str \<Rightarrow> str" where
  "trim_end s = concat (rev (dropWhile is_whitespace (rev (chars s))))"

definition trim :: "str \<Rightarrow> str" where
  "trim s = concat (rev (dropWhile is_whitespace (rev (dropWhile is_whitespace (chars s)))))"

text \<open>Printable ASCII, with and without the space.\<close>

definition printable :: "char \<Rightarrow> bool" where
  "printable c \<longleftrightarrow> 32 \<le> code c \<and> code c \<le> 126"

definition graphic :: "char \<Rightarrow> bool" where
  "graphic c \<longleftrightarrow> 33 \<le> code c \<and> code c \<le> 126"

section \<open>Splitting\<close>

definition split_once :: "char \<Rightarrow> str \<Rightarrow> (str \<times> str) option" where
  "split_once c s =
     (case dropWhile (\<lambda>x. x \<noteq> c) s of
        [] \<Rightarrow> None
      | _ # rest \<Rightarrow> Some (takeWhile (\<lambda>x. x \<noteq> c) s, rest))"

definition rsplit_once :: "char \<Rightarrow> str \<Rightarrow> (str \<times> str) option" where
  "rsplit_once c s = map_option (\<lambda>(r, h). (rev h, rev r)) (split_once c (rev s))"

fun split_on :: "char \<Rightarrow> str \<Rightarrow> str list" where
  "split_on c [] = [[]]"
| "split_on c (x # xs) =
     (if x = c then [] # split_on c xs
      else (case split_on c xs of [] \<Rightarrow> [[x]] | w # ws \<Rightarrow> (x # w) # ws))"

fun strip_prefix :: "'a list \<Rightarrow> 'a list \<Rightarrow> 'a list option" where
  "strip_prefix [] s = Some s"
| "strip_prefix (p # ps) [] = None"
| "strip_prefix (p # ps) (x # xs) = (if p = x then strip_prefix ps xs else None)"

definition starts_with :: "str \<Rightarrow> str \<Rightarrow> bool" where
  "starts_with p s \<longleftrightarrow> strip_prefix p s \<noteq> None"

definition ends_with :: "bytes \<Rightarrow> bytes \<Rightarrow> bool" where
  "ends_with p s \<longleftrightarrow> starts_with (rev p) (rev s)"

definition strip_suffix :: "bytes \<Rightarrow> bytes \<Rightarrow> bytes option" where
  "strip_suffix p s = map_option rev (strip_prefix (rev p) (rev s))"

fun find_map :: "('a \<Rightarrow> 'b option) \<Rightarrow> 'a list \<Rightarrow> 'b option" where
  "find_map f [] = None"
| "find_map f (x # xs) = (case f x of Some y \<Rightarrow> Some y | None \<Rightarrow> find_map f xs)"

fun join :: "str \<Rightarrow> str list \<Rightarrow> str" where
  "join sep [] = []"
| "join sep [x] = x"
| "join sep (x # y # xs) = x @ sep @ join sep (y # xs)"

text \<open>\<^verbatim>\<open>str::find\<close>: the byte index of the first occurrence of a (non-empty) pattern.\<close>

fun find_str :: "str \<Rightarrow> str \<Rightarrow> nat option" where
  "find_str p [] = (if p = [] then Some 0 else None)"
| "find_str p (x # xs) =
     (if starts_with p (x # xs) then Some 0 else map_option Suc (find_str p xs))"

text \<open>\<^verbatim>\<open>split_once\<close> and \<^verbatim>\<open>rsplit_once\<close> with a string pattern.\<close>

definition split_once_str :: "str \<Rightarrow> str \<Rightarrow> (str \<times> str) option" where
  "split_once_str p s = map_option (\<lambda>i. (take i s, drop (i + length p) s)) (find_str p s)"

definition rsplit_once_str :: "str \<Rightarrow> str \<Rightarrow> (str \<times> str) option" where
  "rsplit_once_str p s =
     map_option (\<lambda>(r, h). (rev h, rev r)) (split_once_str (rev p) (rev s))"

text \<open>The second and following pieces of \<^verbatim>\<open>split(p)\<close> start after an occurrence of \<^verbatim>\<open>p\<close>: the
  piece \<^verbatim>\<open>nth(1)\<close>.\<close>

definition split_str_nth1 :: "str \<Rightarrow> str \<Rightarrow> str option" where
  "split_str_nth1 p s =
     (case split_once_str p s of
        None \<Rightarrow> None
      | Some (_, rest) \<Rightarrow>
          Some (case split_once_str p rest of None \<Rightarrow> rest | Some (piece, _) \<Rightarrow> piece))"

fun split_ws_aux :: "str \<Rightarrow> str \<Rightarrow> str list" where
  "split_ws_aux acc [] = (if acc = [] then [] else [rev acc])"
| "split_ws_aux acc (x # xs) =
     (if is_ascii_whitespace x
      then (if acc = [] then split_ws_aux [] xs else rev acc # split_ws_aux [] xs)
      else split_ws_aux (x # acc) xs)"

definition split_ascii_whitespace :: "str \<Rightarrow> str list" where
  "split_ascii_whitespace s = split_ws_aux [] s"

section \<open>Numbers\<close>

definition digit_value :: "char \<Rightarrow> nat" where
  "digit_value c = code c - 48"

definition digits_value :: "str \<Rightarrow> nat" where
  "digits_value = foldl (\<lambda>acc c. 10 * acc + digit_value c) 0"

text \<open>\<^verbatim>\<open>str::parse\<close> at an unsigned integer type of \<open>w\<close> bits: an optional \<^verbatim>\<open>+\<close>, then one or more
  ASCII digits; an empty string, a lone sign, another character or a value past the type's
  maximum is an error.\<close>

definition parse_unsigned :: "nat \<Rightarrow> str \<Rightarrow> nat option" where
  "parse_unsigned w s =
     (let ds = (case strip_prefix ''+'' s of Some rest \<Rightarrow> rest | None \<Rightarrow> s) in
      if ds \<noteq> [] \<and> list_all is_ascii_digit ds \<and> digits_value ds < 2 ^ w
      then Some (digits_value ds) else None)"

fun show_nat :: "nat \<Rightarrow> str" where
  "show_nat n = (if n < 10 then [char_of (48 + n)] else show_nat (n div 10) @ [char_of (48 + n mod 10)])"

declare show_nat.simps [simp del]

text \<open>The format \<^verbatim>\<open>{:0width$}\<close>.\<close>

definition pad0 :: "nat \<Rightarrow> str \<Rightarrow> str" where
  "pad0 w s = replicate (w - length s) (CHR ''0'') @ s"

section \<open>Results\<close>

text \<open>The \<^verbatim>\<open>?\<close> operator: the error ends the computation, a value goes on.\<close>

definition and_then :: "'e + 'a \<Rightarrow> ('a \<Rightarrow> 'e + 'b) \<Rightarrow> 'e + 'b" where
  "and_then r f = (case r of Inl e \<Rightarrow> Inl e | Inr a \<Rightarrow> f a)"

definition ok_or :: "'e \<Rightarrow> 'a option \<Rightarrow> 'e + 'a" where
  "ok_or e x = (case x of None \<Rightarrow> Inl e | Some a \<Rightarrow> Inr a)"

section \<open>Hash maps\<close>

type_synonym ('k, 'v) hashmap = "('k \<times> 'v) list"

abbreviation get :: "('k, 'v) hashmap \<Rightarrow> 'k \<Rightarrow> 'v option" where
  "get m k \<equiv> map_of m k"

definition hm_insert :: "'k \<Rightarrow> 'v \<Rightarrow> ('k, 'v) hashmap \<Rightarrow> ('k, 'v) hashmap" where
  "hm_insert k v m = (k, v) # filter (\<lambda>(k', _). k' \<noteq> k) m"

text \<open>\<^verbatim>\<open>collect()\<close> into a map: the last writer of a key wins.\<close>

definition hm_collect :: "('k \<times> 'v) list \<Rightarrow> ('k, 'v) hashmap" where
  "hm_collect xs = fold (\<lambda>(k, v) m. hm_insert k v m) xs []"

section \<open>Shared lemmas\<close>

subsection \<open>Results\<close>

lemma and_then_simps [simp]:
  "and_then (Inl e) f = Inl e"
  "and_then (Inr a) f = f a"
  by (simp_all add: and_then_def)

lemma ok_or_simps [simp]:
  "ok_or e None = Inl e"
  "ok_or e (Some a) = Inr a"
  by (simp_all add: ok_or_def)

lemma and_then_Inr_iff: "and_then r f = Inr b \<longleftrightarrow> (\<exists>a. r = Inr a \<and> f a = Inr b)"
  by (cases r) simp_all

lemma and_then_Inl_iff: "and_then r f = Inl e \<longleftrightarrow> r = Inl e \<or> (\<exists>a. r = Inr a \<and> f a = Inl e)"
  by (cases r) simp_all

lemma ok_or_Inr_iff: "ok_or e x = Inr a \<longleftrightarrow> x = Some a"
  by (cases x) simp_all

subsection \<open>ASCII case\<close>

lemma code_ascii_lower_char:
  "code (ascii_lower_char c) = (if is_ascii_uppercase c then code c + 32 else code c)"
  by (auto simp: ascii_lower_char_def is_ascii_uppercase_def of_char_of)

lemma code_ascii_upper_char:
  "code (ascii_upper_char c) = (if is_ascii_lowercase c then code c - 32 else code c)"
  by (auto simp: ascii_upper_char_def is_ascii_lowercase_def of_char_of)

lemma char_eq_code_iff: "c = d \<longleftrightarrow> code c = code d"
  by simp

lemma ascii_lower_char_not_upper [simp]: "\<not> is_ascii_uppercase (ascii_lower_char c)"
  by (auto simp: is_ascii_uppercase_def code_ascii_lower_char split: if_splits)

lemma ascii_lower_char_idem [simp]: "ascii_lower_char (ascii_lower_char c) = ascii_lower_char c"
  by (subst ascii_lower_char_def) simp

lemma ascii_lower_char_id: "\<not> is_ascii_uppercase c \<Longrightarrow> ascii_lower_char c = c"
  by (simp add: ascii_lower_char_def)

lemma to_ascii_lowercase_idem [simp]:
  "to_ascii_lowercase (to_ascii_lowercase s) = to_ascii_lowercase s"
  by (simp add: to_ascii_lowercase_def o_def)

lemma length_to_ascii_lowercase [simp]: "length (to_ascii_lowercase s) = length s"
  by (simp add: to_ascii_lowercase_def)

lemma to_ascii_lowercase_append [simp]:
  "to_ascii_lowercase (a @ b) = to_ascii_lowercase a @ to_ascii_lowercase b"
  by (simp add: to_ascii_lowercase_def)

lemma to_ascii_lowercase_Nil [simp]: "to_ascii_lowercase [] = []"
  by (simp add: to_ascii_lowercase_def)

lemma to_ascii_lowercase_Cons [simp]:
  "to_ascii_lowercase (c # s) = ascii_lower_char c # to_ascii_lowercase s"
  by (simp add: to_ascii_lowercase_def)

lemma to_ascii_lowercase_id:
  "list_all (\<lambda>c. \<not> is_ascii_uppercase c) s \<Longrightarrow> to_ascii_lowercase s = s"
  by (induction s) (auto simp: ascii_lower_char_id)

lemma to_ascii_uppercase_Nil [simp]: "to_ascii_uppercase [] = []"
  by (simp add: to_ascii_uppercase_def)

lemma to_ascii_uppercase_Cons:
  "to_ascii_uppercase (c # s) = ascii_upper_char c # to_ascii_uppercase s"
  by (simp add: to_ascii_uppercase_def)

lemma ascii_lower_char_eq_iff:
  assumes "\<not> is_ascii_lowercase d" and "\<not> is_ascii_uppercase d"
  shows "ascii_lower_char c = d \<longleftrightarrow> c = d"
  using assms
  by (auto simp: char_eq_code_iff code_ascii_lower_char ascii_simps simp del: of_char_eq_iff
      split: if_splits)

subsection \<open>UTF-8\<close>

lemma concat_snd_utf8_chunks [simp]: "concat (map snd (utf8_chunks bs)) = bs"
proof (induction bs rule: utf8_chunks.induct)
  case (2 b bs)
  obtain ok n where hd: "utf8_head (b # bs) = (ok, n)"
    by (cases "utf8_head (b # bs)")
  with 2 [OF hd [symmetric] refl] show ?case
    by (simp add: utf8_chunks.simps(2) hd)
qed simp

lemma concat_chars [simp]: "concat (chars s) = s"
  by (simp add: chars_def)

lemma utf8_head_ascii: "is_ascii_char c \<Longrightarrow> utf8_head (c # s) = (True, 1)"
  by (simp add: utf8_head_def byte_at_def utf8_char_width_def is_ascii_char_def)

lemma utf8_chunks_ascii: "is_ascii s \<Longrightarrow> utf8_chunks s = map (\<lambda>c. (True, [c])) s"
  by (induction s) (simp_all add: utf8_chunks.simps(2) utf8_head_ascii is_ascii_def)

lemma chars_ascii: "is_ascii s \<Longrightarrow> chars s = map (\<lambda>c. [c]) s"
  by (simp add: chars_def utf8_chunks_ascii o_def)

lemma chars_Nil [simp]: "chars [] = []"
  by (simp add: chars_def)

lemma from_utf8_ascii: "is_ascii s \<Longrightarrow> from_utf8 s = Some s"
  by (simp add: from_utf8_def utf8_chunks_ascii list_all_iff)

lemma from_utf8_SomeD: "from_utf8 bs = Some s \<Longrightarrow> s = bs"
  by (simp add: from_utf8_def split: if_splits)

lemma chars_Cons_ascii: "is_ascii_char c \<Longrightarrow> chars (c # s) = [c] # chars s"
  by (simp add: chars_def utf8_chunks.simps(2) utf8_head_ascii)

text \<open>An ASCII octet always stands for itself: it is a character of its own wherever it
  occurs, so a property of the characters of a string is a property of its ASCII octets.\<close>

lemma second_byte_not_ascii: "second_byte_ok l c \<Longrightarrow> \<not> is_ascii_char c"
  by (auto simp: second_byte_ok_def is_continuation_def is_ascii_char_def Let_def split: if_splits)

lemma continuation_not_ascii: "is_continuation c \<Longrightarrow> \<not> is_ascii_char c"
  by (simp add: is_continuation_def is_ascii_char_def)

lemma utf8_head_take_no_ascii:
  assumes h: "utf8_head bs = (ok, n)" and i: "i < n" "0 < i" "i < length bs"
  shows "\<not> is_ascii_char (bs ! i)"
proof -
  from i have at: "byte_at bs i = bs ! i"
    by (simp add: byte_at_def)
  from h i have "i = 1 \<or> i = 2 \<or> i = 3"
    by (auto simp: utf8_head_def Let_def split: if_splits)
  with h i have "second_byte_ok (byte_at bs 0) (byte_at bs i) \<or> is_continuation (byte_at bs i)"
    by (elim disjE) (auto simp: utf8_head_def Let_def split: if_splits)
  then show ?thesis
    using second_byte_not_ascii continuation_not_ascii at by metis
qed

lemma ascii_mem_chars:
  "c \<in> set s \<Longrightarrow> is_ascii_char c \<Longrightarrow> [c] \<in> set (chars s)"
proof (induction s rule: utf8_chunks.induct)
  case (2 b bs)
  obtain ok n where hd: "utf8_head (b # bs) = (ok, n)"
    by (cases "utf8_head (b # bs)")
  have cs: "chars (b # bs) = take n (b # bs) # chars (drop n (b # bs))"
    by (simp add: chars_def utf8_chunks.simps(2) hd)
  from "2.prems"(1) consider "c \<in> set (take n (b # bs))" | "c \<in> set (drop n (b # bs))"
    by (metis Un_iff append_take_drop_id set_append)
  then show ?case
  proof cases
    case 1
    then obtain i where i: "i < n" "i < length (b # bs)" "(b # bs) ! i = c"
      by (auto simp: in_set_conv_nth)
    have "i = 0"
      using utf8_head_take_no_ascii [OF hd i(1) _ i(2)] i(3) "2.prems"(2) by fastforce
    with i have "b = c" by simp
    with hd "2.prems"(2) have "n = 1" by (simp add: utf8_head_ascii)
    with \<open>b = c\<close> cs show ?thesis by (simp only: take_Suc_Cons One_nat_def take0 list.set_intros)
  next
    case 2
    with "2.IH" [OF hd [symmetric] refl] "2.prems"(2) show ?thesis
      by (simp add: cs)
  qed
qed simp

lemma utf8_head_le_length: "bs \<noteq> [] \<Longrightarrow> snd (utf8_head bs) \<le> length bs"
proof -
  assume "bs \<noteq> []"
  have nul: "\<not> is_continuation NUL" "\<not> second_byte_ok l NUL" for l
    by (simp_all add: is_continuation_def second_byte_ok_def Let_def)
  then have "is_continuation (byte_at bs i) \<Longrightarrow> i < length bs"
    "second_byte_ok l (byte_at bs i) \<Longrightarrow> i < length bs" for i l
    by (metis byte_at_def)+
  then have "is_continuation (byte_at bs (Suc 0)) \<Longrightarrow> 2 \<le> length bs"
    "is_continuation (byte_at bs 2) \<Longrightarrow> 3 \<le> length bs"
    "is_continuation (byte_at bs 3) \<Longrightarrow> 4 \<le> length bs"
    "second_byte_ok l (byte_at bs (Suc 0)) \<Longrightarrow> 2 \<le> length bs" for l
    by fastforce+
  moreover from \<open>bs \<noteq> []\<close> have "Suc 0 \<le> length bs" by (simp add: Suc_le_eq)
  ultimately show ?thesis
    by (simp add: utf8_head_def Let_def)
qed

lemma utf8_head_append_ascii:
  assumes "s \<noteq> []" and c: "is_ascii_char c"
  shows "utf8_head (s @ c # t) = utf8_head s"
proof -
  have nul: "\<not> is_continuation NUL" "\<not> second_byte_ok l NUL" for l
    by (simp_all add: is_continuation_def second_byte_ok_def Let_def)
  have asc: "\<not> is_continuation c" "\<not> second_byte_ok l c" for l
    using c continuation_not_ascii second_byte_not_ascii by blast+
  have lt: "byte_at (s @ c # t) i = byte_at s i" if "i < length s" for i
    using that by (simp add: byte_at_def nth_append)
  have eq: "byte_at (s @ c # t) (length s) = c" "byte_at s (length s) = NUL"
    by (simp_all add: byte_at_def)
  from assms(1) have z: "byte_at (s @ c # t) 0 = byte_at s 0" by (simp add: lt)
  consider "length s = 1" | "length s = 2" | "length s = 3" | "length s > 3"
    using assms(1) by (cases "length s") (auto, linarith)
  then show ?thesis
    by cases (use nul asc eq lt z in \<open>auto simp: utf8_head_def Let_def\<close>)
qed

lemma chars_append_ascii:
  assumes c: "is_ascii_char c"
  shows "chars (s @ c # t) = chars s @ [c] # chars t"
proof (induction s rule: utf8_chunks.induct)
  case 1
  show ?case using c by (simp add: chars_Cons_ascii)
next
  case (2 b bs)
  obtain ok n where hd: "utf8_head (b # bs) = (ok, n)"
    by (cases "utf8_head (b # bs)")
  have hd2: "utf8_head (b # (bs @ c # t)) = (ok, n)"
    using utf8_head_append_ascii [of "b # bs" c t] c hd by simp
  have n: "n \<le> length (b # bs)"
    using utf8_head_le_length [of "b # bs"] hd by simp
  then have "take n (b # (bs @ c # t)) = take n (b # bs)"
    and "drop n (b # (bs @ c # t)) = drop n (b # bs) @ c # t"
    using take_append [of n "b # bs" "c # t"] drop_append [of n "b # bs" "c # t"] by simp_all
  with 2 [OF hd [symmetric] refl] show ?case
    by (simp add: chars_def utf8_chunks.simps(2) hd hd2 del: take_Suc_Cons drop_Suc_Cons)
qed

lemma chars_snoc_ascii: "is_ascii_char c \<Longrightarrow> chars (s @ [c]) = chars s @ [[c]]"
  using chars_append_ascii [of c s "[]"] by simp

lemma chars_ascii_append: "is_ascii a \<Longrightarrow> chars (a @ s) = map (\<lambda>c. [c]) a @ chars s"
  by (induction a) (auto simp: is_ascii_def chars_Cons_ascii)

lemma no_control_no_low_octet:
  assumes "\<not> list_ex is_control (chars s)" and "c \<in> set s"
  shows "32 \<le> code c \<and> code c \<noteq> 127"
proof (cases "is_ascii_char c")
  case True
  with assms(2) have "[c] \<in> set (chars s)" by (rule ascii_mem_chars)
  with assms(1) have "\<not> is_control [c]" by (auto simp: list_ex_iff)
  then show ?thesis by simp
next
  case False
  then show ?thesis by (simp add: is_ascii_char_def)
qed

subsection \<open>Trimming\<close>

lemma trim_infix: "\<exists>a b. s = a @ trim s @ b"
proof -
  let ?d = "dropWhile is_whitespace (chars s)"
  have "chars s = takeWhile is_whitespace (chars s) @ ?d" by simp
  then have 1: "s = concat (takeWhile is_whitespace (chars s)) @ concat ?d"
    by (metis concat_append concat_chars)
  have "rev ?d = takeWhile is_whitespace (rev ?d) @ dropWhile is_whitespace (rev ?d)" by simp
  then have "?d = rev (dropWhile is_whitespace (rev ?d)) @ rev (takeWhile is_whitespace (rev ?d))"
    by (metis rev_append rev_rev_ident)
  then have "concat ?d = trim s @ concat (rev (takeWhile is_whitespace (rev ?d)))"
    by (metis concat_append trim_def)
  with 1 show ?thesis by metis
qed

lemma set_trim: "set (trim s) \<subseteq> set s"
  using trim_infix [of s] by (metis Un_upper1 Un_upper2 order_trans set_append)

lemma trim_start_suffix: "\<exists>a. s = a @ trim_start s"
proof -
  have "chars s = takeWhile is_whitespace (chars s) @ dropWhile is_whitespace (chars s)" by simp
  then show ?thesis by (metis concat_append concat_chars trim_start_def)
qed

lemma set_trim_start: "set (trim_start s) \<subseteq> set s"
  using trim_start_suffix [of s] by (metis Un_upper2 set_append)

lemma length_trim_le: "length (trim s) \<le> length s"
  using trim_infix [of s] by (metis le_add1 le_add2 length_append order_trans)

lemma takeWhile_dropWhile_append:
  assumes "list_all P xs" and "ys = [] \<or> \<not> P (hd ys)"
  shows "takeWhile P (xs @ ys) = xs" and "dropWhile P (xs @ ys) = ys"
  using assms by (induction xs) (cases ys; auto)+

lemma dropWhile_hd_id: "(s \<noteq> [] \<Longrightarrow> \<not> P (hd s)) \<Longrightarrow> dropWhile P s = s"
  by (cases s) auto

lemma trim_ascii_id:
  assumes "is_ascii s" and "s \<noteq> [] \<Longrightarrow> \<not> is_whitespace [hd s]"
    and "s \<noteq> [] \<Longrightarrow> \<not> is_whitespace [last s]"
  shows "trim s = s"
proof -
  have "dropWhile is_whitespace (chars s) = chars s"
    using assms by (cases s) (auto simp: chars_ascii)
  moreover have "dropWhile is_whitespace (rev (chars s)) = rev (chars s)"
    using assms by (cases s rule: rev_cases) (auto simp: chars_ascii)
  ultimately show ?thesis by (simp add: trim_def)
qed

lemma trim_Nil [simp]: "trim [] = []"
  by (simp add: trim_def)

lemma trim_start_Nil [simp]: "trim_start [] = []"
  by (simp add: trim_start_def)

lemma trim_start_ascii_hd:
  "is_ascii_char c \<Longrightarrow> \<not> is_whitespace [c] \<Longrightarrow> trim_start (c # s) = c # s"
  by (simp add: trim_start_def chars_Cons_ascii del: is_whitespace.simps)

lemma trim_space: "trim (CHR '' '' # s) = trim s"
  by (simp add: trim_def chars_Cons_ascii is_ascii_char_def)

lemma trim_ascii_ends:
  assumes "is_ascii_char c" "\<not> is_whitespace [c]" "is_ascii_char d" "\<not> is_whitespace [d]"
  shows "trim (c # m @ [d]) = c # m @ [d]"
  using assms by (simp add: trim_def chars_Cons_ascii chars_snoc_ascii del: is_whitespace.simps)

subsection \<open>Printable ASCII\<close>

lemma printable_ascii: "list_all printable s \<Longrightarrow> is_ascii s"
  by (auto simp: is_ascii_def list_all_iff printable_def is_ascii_char_def)

lemma printable_not_control: "printable c \<Longrightarrow> \<not> is_control [c]"
  by (simp add: printable_def)

lemma control_printable_append:
  "list_all printable a \<Longrightarrow> list_ex is_control (chars (a @ s)) = list_ex is_control (chars s)"
  by (induction a)
     (simp_all add: chars_Cons_ascii printable_not_control printable_def is_ascii_char_def)

lemma control_append_printable:
  assumes "list_all printable (c # t)"
  shows "list_ex is_control (chars (s @ c # t)) = list_ex is_control (chars s)"
  using assms control_printable_append [of t "[]"]
  by (simp add: chars_append_ascii printable_def is_ascii_char_def)

lemma control_printable: "list_all printable s \<Longrightarrow> \<not> list_ex is_control (chars s)"
  using control_printable_append [of s "[]"] by simp

lemma graphic_printable: "graphic c \<Longrightarrow> printable c"
  by (simp add: graphic_def printable_def)

lemma graphic_not_whitespace:
  "graphic c \<Longrightarrow> is_ascii_char c \<and> \<not> is_whitespace [c] \<and> \<not> is_ascii_whitespace c"
  by (auto simp: graphic_def is_ascii_char_def is_ascii_whitespace_def)

lemma trim_graphic: "list_all graphic s \<Longrightarrow> trim s = s"
  by (rule trim_ascii_id)
     (auto simp: is_ascii_def list_all_iff graphic_not_whitespace simp del: is_whitespace.simps)

subsection \<open>Splitting\<close>

lemma split_once_SomeI: "c \<notin> set a \<Longrightarrow> split_once c (a @ c # b) = Some (a, b)"
  by (simp add: split_once_def dropWhile_append takeWhile_append)

lemma split_once_SomeD: "split_once c s = Some (a, b) \<Longrightarrow> s = a @ c # b \<and> c \<notin> set a"
proof -
  assume "split_once c s = Some (a, b)"
  then obtain x where d: "dropWhile (\<lambda>x. x \<noteq> c) s = x # b" and a: "a = takeWhile (\<lambda>x. x \<noteq> c) s"
    by (auto simp: split_once_def split: list.splits)
  from d have "x = c" by (simp add: dropWhile_eq_Cons_conv)
  with d a show ?thesis by (metis (mono_tags, lifting) set_takeWhileD takeWhile_dropWhile_id)
qed

lemma split_once_Some_iff: "split_once c s = Some (a, b) \<longleftrightarrow> s = a @ c # b \<and> c \<notin> set a"
  using split_once_SomeI split_once_SomeD by metis

lemma split_once_None_iff: "split_once c s = None \<longleftrightarrow> c \<notin> set s"
  using split_once_SomeI [of c] split_once_SomeD [of c s]
  by (metis in_set_conv_decomp_first not_None_eq surj_pair)

lemma rsplit_once_Some_iff: "rsplit_once c s = Some (a, b) \<longleftrightarrow> s = a @ c # b \<and> c \<notin> set b"
proof -
  have "rsplit_once c s = Some (a, b) \<longleftrightarrow> split_once c (rev s) = Some (rev b, rev a)"
    by (auto simp: rsplit_once_def)
  also have "\<dots> \<longleftrightarrow> rev s = rev b @ c # rev a \<and> c \<notin> set (rev b)"
    by (rule split_once_Some_iff)
  also have "\<dots> \<longleftrightarrow> s = a @ c # b \<and> c \<notin> set b"
    by (metis append.assoc append_Cons append_Nil rev.simps(2) rev_append rev_rev_ident set_rev)
  finally show ?thesis .
qed

lemma rsplit_once_None_iff: "rsplit_once c s = None \<longleftrightarrow> c \<notin> set s"
  by (simp add: rsplit_once_def split_once_None_iff)

lemma split_on_not_Nil [simp]: "split_on c s \<noteq> []"
  by (induction s) (auto split: list.splits)

lemma split_on_no_sep: "w \<in> set (split_on c s) \<Longrightarrow> c \<notin> set w"
  by (induction s arbitrary: w) (auto split: list.splits if_splits)

lemma split_on_absent: "c \<notin> set s \<Longrightarrow> split_on c s = [s]"
  by (induction s) auto

lemma split_on_append_sep:
  "c \<notin> set a \<Longrightarrow> split_on c (a @ c # b) = a # split_on c b"
  by (induction a) auto

lemma set_split_on: "w \<in> set (split_on c s) \<Longrightarrow> set w \<subseteq> set s"
  by (induction s arbitrary: w) (fastforce split: list.splits if_splits)+

lemma mem_split_on_cover: "x \<in> set s \<Longrightarrow> x \<noteq> c \<Longrightarrow> \<exists>w \<in> set (split_on c s). x \<in> set w"
  by (induction s) (auto split: list.splits)

lemma strip_prefix_Some_iff: "strip_prefix p s = Some r \<longleftrightarrow> s = p @ r"
  by (induction p s rule: strip_prefix.induct) auto

lemma starts_with_iff: "starts_with p s \<longleftrightarrow> (\<exists>r. s = p @ r)"
  by (auto simp: starts_with_def strip_prefix_Some_iff)

lemma ends_with_iff: "ends_with p s \<longleftrightarrow> (\<exists>r. s = r @ p)"
  unfolding ends_with_def starts_with_iff by (metis rev_append rev_rev_ident)

lemma strip_suffix_Some_iff: "strip_suffix p s = Some r \<longleftrightarrow> s = r @ p"
proof -
  have "strip_suffix p s = Some r \<longleftrightarrow> strip_prefix (rev p) (rev s) = Some (rev r)"
    by (cases "strip_prefix (rev p) (rev s)") (auto simp: strip_suffix_def)
  then show ?thesis
    by (metis rev_append rev_rev_ident strip_prefix_Some_iff)
qed

lemma split_on_join:
  assumes "ws \<noteq> []" "\<And>w. w \<in> set ws \<Longrightarrow> c \<notin> set w"
  shows "split_on c (join [c] ws) = ws"
  using assms
proof (induction ws rule: induct_list012)
  case (3 w v ws)
  then show ?case
    using split_on_append_sep [of c w "join [c] (v # ws)"] by simp
qed (auto simp: split_on_absent)

lemma append_sep_eq: "(c :: char) \<notin> set a \<Longrightarrow> c \<notin> set b \<Longrightarrow> a @ c # u = b @ c # v \<longleftrightarrow> a = b \<and> u = v"
proof
  assume a: "c \<notin> set a" and b: "c \<notin> set b" and eq: "a @ c # u = b @ c # v"
  show "a = b \<and> u = v"
    using split_once_SomeI [OF a, of u] split_once_SomeI [OF b, of v] unfolding eq by simp
qed simp

lemma set_split_ws_aux: "w \<in> set (split_ws_aux acc s) \<Longrightarrow> set w \<subseteq> set acc \<union> set s"
  by (induction acc s rule: split_ws_aux.induct) (fastforce split: if_splits)+

lemma set_split_ascii_whitespace: "w \<in> set (split_ascii_whitespace s) \<Longrightarrow> set w \<subseteq> set s"
  using set_split_ws_aux [of w "[]" s] by (simp add: split_ascii_whitespace_def)

lemma split_ws_aux_clean:
  assumes "list_all (\<lambda>c. \<not> is_ascii_whitespace c) acc" and "w \<in> set (split_ws_aux acc s)"
  shows "w \<noteq> [] \<and> list_all (\<lambda>c. \<not> is_ascii_whitespace c) w"
  using assms
proof (induction s arbitrary: acc)
  case Nil
  then show ?case by (cases "acc = []") simp_all
next
  case (Cons x xs)
  show ?case
  proof (cases "is_ascii_whitespace x")
    case True
    have "w = rev acc \<and> acc \<noteq> [] \<or> w \<in> set (split_ws_aux [] xs)"
      using Cons.prems(2) True by (cases "acc = []") simp_all
    then show ?thesis
      using Cons.IH [of "[]"] Cons.prems(1) by (elim disjE) simp_all
  next
    case False
    then show ?thesis using Cons.IH [of "x # acc"] Cons.prems by simp
  qed
qed

lemma split_ascii_whitespace_clean:
  "w \<in> set (split_ascii_whitespace s) \<Longrightarrow> w \<noteq> [] \<and> list_all (\<lambda>c. \<not> is_ascii_whitespace c) w"
  by (rule split_ws_aux_clean [of "[]"]) (simp_all add: split_ascii_whitespace_def)

lemma split_ws_aux_word:
  "\<forall>c \<in> set w. \<not> is_ascii_whitespace c \<Longrightarrow> split_ws_aux acc (w @ s) = split_ws_aux (rev w @ acc) s"
  by (induction w arbitrary: acc) auto

lemma split_ascii_whitespace_word:
  assumes "\<forall>c \<in> set w. \<not> is_ascii_whitespace c" and "w \<noteq> []"
  shows "split_ascii_whitespace w = [w]"
    and "is_ascii_whitespace c \<Longrightarrow>
      split_ascii_whitespace (w @ c # s) = w # split_ascii_whitespace s"
  using assms split_ws_aux_word [of w "[]" "[]"] split_ws_aux_word [of w "[]" "c # s"]
  by (auto simp: split_ascii_whitespace_def)

subsection \<open>Numbers\<close>

lemma digits_value_Nil [simp]: "digits_value [] = 0"
  by (simp add: digits_value_def)

lemma digits_value_snoc [simp]: "digits_value (ds @ [d]) = 10 * digits_value ds + digit_value d"
  by (simp add: digits_value_def)

lemma show_nat_digits:
  "show_nat n \<noteq> [] \<and> list_all is_ascii_digit (show_nat n) \<and> digits_value (show_nat n) = n"
proof (induction n rule: show_nat.induct)
  case (1 n)
  show ?case
  proof (cases "n < 10")
    case True
    then show ?thesis
      by (simp add: show_nat.simps [of n] is_ascii_digit_def digits_value_def digit_value_def of_char_of)
  next
    case False
    with 1 show ?thesis
      by (simp add: show_nat.simps [of n] is_ascii_digit_def digit_value_def of_char_of)
  qed
qed

lemma show_nat_graphic: "list_all graphic (show_nat n)"
  using show_nat_digits [of n] by (auto simp: list_all_iff is_ascii_digit_def graphic_def)

lemma show_nat_hd_not_plus: "show_nat n = c # s \<Longrightarrow> c \<noteq> CHR ''+''"
  using show_nat_digits [of n] by (auto simp: is_ascii_digit_def)

lemma parse_unsigned_show_nat: "n < 2 ^ w \<Longrightarrow> parse_unsigned w (show_nat n) = Some n"
  using show_nat_digits [of n] show_nat_hd_not_plus [of n]
  by (cases "show_nat n") (auto simp: parse_unsigned_def Let_def)

lemma parse_unsigned_bound: "parse_unsigned w s = Some n \<Longrightarrow> n < 2 ^ w"
  by (auto simp: parse_unsigned_def Let_def split: if_splits)

subsection \<open>Hash maps\<close>

lemma get_hm_insert [simp]: "get (hm_insert k v m) = (get m)(k \<mapsto> v)"
proof
  fix x
  have "map_of (filter (\<lambda>(k', _). k' \<noteq> k) m) x = (if x = k then None else map_of m x)"
    by (induction m) auto
  then show "get (hm_insert k v m) x = ((get m)(k \<mapsto> v)) x"
    by (simp add: hm_insert_def)
qed

lemma get_fold_insert: "get (fold (\<lambda>(k, v) m. hm_insert k v m) xs m) = get m ++ get (rev xs)"
  by (induction xs arbitrary: m) (auto simp: map_add_def fun_eq_iff split: option.splits)

lemma get_hm_collect: "get (hm_collect xs) k = get (rev xs) k"
  by (simp add: hm_collect_def get_fold_insert)

lemma hm_collect_SomeD: "get (hm_collect xs) k = Some v \<Longrightarrow> (k, v) \<in> set xs"
  by (metis get_hm_collect map_of_SomeD set_rev)

end
