(* ===== verification/Crates.thy ===== *)
theory Crates
  imports Rust_Prelude
begin

text \<open>
  The third-party crates the mail server calls, as parameters of the model: one field per
  function the sources use. Nothing is assumed of them here; a theorem that relies on the
  documented behaviour of one of them states it as a hypothesis.

  \<^item> \<open>domain_to_ascii_strict\<close>, \<open>punycode_decode\<close>: the \<^verbatim>\<open>idna\<close> crate;
  \<^item> \<open>is_single_script\<close>, \<open>skeleton\<close>: the \<^verbatim>\<open>unicode-security\<close> crate;
  \<^item> \<open>b64_encode\<close>, \<open>b64_decode\<close>: the standard engine of the \<^verbatim>\<open>base64\<close> crate;
  \<^item> \<open>phc_parses\<close>, \<open>argon2_verify\<close>: \<^verbatim>\<open>PasswordHash::new(..).is_ok()\<close> and
    \<^verbatim>\<open>Argon2::verify_password(..).is_ok()\<close> of the \<^verbatim>\<open>argon2\<close> crate;
  \<^item> \<open>hmac_sha1\<close>, \<open>hmac_sha256\<close>, \<open>sha256\<close>, \<open>pbkdf2_hmac_sha256\<close>: the \<^verbatim>\<open>ring\<close> crate.
\<close>

record crates =
  domain_to_ascii_strict :: "str \<Rightarrow> str option"
  punycode_decode :: "str \<Rightarrow> str option"
  is_single_script :: "str \<Rightarrow> bool"
  skeleton :: "str \<Rightarrow> str"
  b64_encode :: "bytes \<Rightarrow> str"
  b64_decode :: "str \<Rightarrow> bytes option"
  phc_parses :: "str \<Rightarrow> bool"
  argon2_verify :: "bytes \<Rightarrow> str \<Rightarrow> bool"
  hmac_sha1 :: "bytes \<Rightarrow> bytes \<Rightarrow> bytes"
  hmac_sha256 :: "bytes \<Rightarrow> bytes \<Rightarrow> bytes"
  sha256 :: "bytes \<Rightarrow> bytes"
  pbkdf2_hmac_sha256 :: "nat \<Rightarrow> bytes \<Rightarrow> bytes \<Rightarrow> bytes"

text \<open>
  A concrete instance, used by witnesses to evaluate the model: lowercasing for IDNA, two letters
  per octet for base64, equality for password verification, and fixed-length digests.
\<close>

definition nibble_char :: "nat \<Rightarrow> char" where
  "nibble_char n = char_of (97 + n)"

definition sample_encode :: "bytes \<Rightarrow> str" where
  "sample_encode bs = concat (map (\<lambda>b. [nibble_char (code b div 16), nibble_char (code b mod 16)]) bs)"

fun sample_decode :: "str \<Rightarrow> bytes option" where
  "sample_decode [] = Some []"
| "sample_decode [x] = None"
| "sample_decode (x # y # s) =
     (if 97 \<le> code x \<and> code x < 113 \<and> 97 \<le> code y \<and> code y < 113
      then map_option (\<lambda>bs. char_of ((code x - 97) * 16 + (code y - 97)) # bs) (sample_decode s)
      else None)"

definition sample_crates :: crates where
  "sample_crates = \<lparr>
     domain_to_ascii_strict = (\<lambda>d. Some (to_ascii_lowercase d)),
     punycode_decode = (\<lambda>b. Some b),
     is_single_script = (\<lambda>_. True),
     skeleton = (\<lambda>s. s),
     b64_encode = sample_encode,
     b64_decode = sample_decode,
     phc_parses = (\<lambda>_. True),
     argon2_verify = (\<lambda>password hash. password = hash),
     hmac_sha1 = (\<lambda>k m. replicate 20 (CHR 0x00)),
     hmac_sha256 = (\<lambda>k m. take 32 (k @ replicate 32 (CHR 0x61))),
     sha256 = (\<lambda>m. take 32 (m @ replicate 32 (CHR 0x62))),
     pbkdf2_hmac_sha256 = (\<lambda>n salt p. take 32 (p @ salt @ replicate 32 (CHR 0x63)))\<rparr>"


text \<open>The documented behaviour of the base64 engine that theorems rely on: decoding inverts
  encoding, and the encoding uses only letters, digits and \<^verbatim>\<open>+\<close>, \<^verbatim>\<open>/\<close>, \<^verbatim>\<open>=\<close>.\<close>

definition b64_char :: "char \<Rightarrow> bool" where
  "b64_char c \<longleftrightarrow> is_ascii_alphanumeric c \<or> c = CHR ''+'' \<or> c = CHR ''/'' \<or> c = CHR ''=''"

definition b64_roundtrip :: "crates \<Rightarrow> bool" where
  "b64_roundtrip K \<longleftrightarrow> (\<forall>b. b64_decode K (b64_encode K b) = Some b)"

definition b64_alphabet :: "crates \<Rightarrow> bool" where
  "b64_alphabet K \<longleftrightarrow> (\<forall>b. list_all b64_char (b64_encode K b))"

text \<open>The output lengths of SHA-256 and its HMAC.\<close>

definition sha256_lengths :: "crates \<Rightarrow> bool" where
  "sha256_lengths K \<longleftrightarrow> (\<forall>m. length (sha256 K m) = 32) \<and> (\<forall>k m. length (hmac_sha256 K k m) = 32)"

lemma code_nibble_char: "n < 16 \<Longrightarrow> code (nibble_char n) = 97 + n"
  by (simp add: nibble_char_def)

lemma sample_decode_encode: "sample_decode (sample_encode bs) = Some bs"
proof (induction bs)
  case (Cons b bs)
  have "code b div 16 < 16"
    by (intro less_mult_imp_div_less) simp
  moreover have "char_of (code b div 16 * 16 + code b mod 16) = b"
    by simp
  ultimately show ?case
    using Cons code_nibble_char [of "code b div 16"] code_nibble_char [of "code b mod 16"]
    by (simp add: sample_encode_def)
qed (simp add: sample_encode_def)

lemma nibble_char_b64: "n < 16 \<Longrightarrow> b64_char (nibble_char n)"
  using code_nibble_char [of n]
  by (simp add: b64_char_def is_ascii_alphanumeric_def is_ascii_lowercase_def)

lemma sample_b64: "b64_roundtrip sample_crates" "b64_alphabet sample_crates"
proof -
  show "b64_roundtrip sample_crates"
    by (simp add: b64_roundtrip_def sample_crates_def sample_decode_encode)
  have "list_all b64_char (sample_encode bs)" for bs
  proof (induction bs)
    case (Cons b bs)
    have "code b div 16 < 16"
      by (intro less_mult_imp_div_less) simp
    then show ?case
      using Cons by (simp add: sample_encode_def nibble_char_b64)
  qed (simp add: sample_encode_def)
  then show "b64_alphabet sample_crates"
    by (simp add: b64_alphabet_def sample_crates_def)
qed

lemma sample_lengths: "sha256_lengths sample_crates"
  by (auto simp: sha256_lengths_def sample_crates_def min_def)

end
