(* ===== verification/Totp.thy ===== *)
theory Totp
  imports Crates "HOL-Library.Word"
begin

text \<open>
  Time-based one-time passwords (\<^verbatim>\<open>src/src/totp/mod.rs\<close>): HOTP with dynamic truncation, the
  verification window, and the base32 form of a secret. The 32 bit registers of the base32 loops
  are words, so the octets shifted out at the top are lost as in the source.
\<close>

unbundle bit_operations_syntax

section \<open>Codes\<close>

definition STEP_SECONDS :: nat where "STEP_SECONDS = 30"

definition DIGITS :: nat where "DIGITS = 6"

definition SKEW_WINDOW :: nat where "SKEW_WINDOW = 1"

text \<open>\<^verbatim>\<open>u64::to_be_bytes\<close>.\<close>

definition u64_be_bytes :: "nat \<Rightarrow> bytes" where
  "u64_be_bytes n = map (\<lambda>i. char_of (n div 256 ^ (7 - i) mod 256)) [0..<8]"

definition byte_word :: "char \<Rightarrow> 32 word" where
  "byte_word c = of_nat (code c)"

text \<open>\<^verbatim>\<open>hotp\<close>. The digest of HMAC-SHA1 has 20 octets and the offset is at most 15, so every index
  is in range.\<close>

definition hotp :: "crates \<Rightarrow> bytes \<Rightarrow> nat \<Rightarrow> nat \<Rightarrow> nat" where
  "hotp K secret counter digits =
     (let digest = hmac_sha1 K secret (u64_be_bytes counter);
          offset = unat (byte_word (byte_at digest (length digest - 1)) AND 0x0f);
          binary = push_bit 24 (byte_word (byte_at digest offset) AND 0x7f)
                   OR push_bit 16 (byte_word (byte_at digest (offset + 1)))
                   OR push_bit 8 (byte_word (byte_at digest (offset + 2)))
                   OR byte_word (byte_at digest (offset + 3))
      in unat binary mod 10 ^ digits)"

definition totp :: "crates \<Rightarrow> bytes \<Rightarrow> nat \<Rightarrow> nat" where
  "totp K secret now_secs = hotp K secret (now_secs div STEP_SECONDS) DIGITS"

definition constant_time_eq :: "bytes \<Rightarrow> bytes \<Rightarrow> bool" where
  "constant_time_eq a b =
     (if length a \<noteq> length b then False
      else fold (\<lambda>(x, y) acc. acc OR (of_nat (code x) XOR of_nat (code y))) (zip a b) (0 :: 8 word) = 0)"

definition verify_totp :: "crates \<Rightarrow> bytes \<Rightarrow> nat \<Rightarrow> nat \<Rightarrow> bool" where
  "verify_totp K secret otp now_secs =
     (let counter = now_secs div STEP_SECONDS;
          expected = pad0 DIGITS (show_nat otp);
          low = counter - SKEW_WINDOW
      in list_ex (\<lambda>step.
           constant_time_eq (pad0 DIGITS (show_nat (hotp K secret step DIGITS))) expected)
         [low..<counter + SKEW_WINDOW + 1])"

section \<open>Base32\<close>

definition BASE32 :: str where
  "BASE32 = ''ABCDEFGHIJKLMNOPQRSTUVWXYZ234567''"

fun position :: "'a \<Rightarrow> 'a list \<Rightarrow> nat option" where
  "position x [] = None"
| "position x (y # ys) = (if y = x then Some 0 else map_option Suc (position x ys))"

definition enc_char :: "32 word \<Rightarrow> char" where
  "enc_char w = BASE32 ! unat (w AND 0x1f)"

text \<open>The inner loop of \<^verbatim>\<open>encode_base32\<close>: the characters pushed and the bits left.\<close>

function emit5 :: "32 word \<Rightarrow> nat \<Rightarrow> str \<times> nat" where
  "emit5 bits nbits =
     (if 5 \<le> nbits
      then let (out, n) = emit5 bits (nbits - 5) in (enc_char (drop_bit (nbits - 5) bits) # out, n)
      else ([], nbits))"
  by pat_completeness auto
termination by (relation "measure snd") auto

declare emit5.simps [simp del]

fun encode_loop :: "32 word \<Rightarrow> nat \<Rightarrow> bytes \<Rightarrow> str" where
  "encode_loop bits nbits [] =
     (if 0 < nbits then [enc_char (push_bit (5 - nbits) bits)] else [])"
| "encode_loop bits nbits (b # bs) =
     (let bits' = push_bit 8 bits OR byte_word b;
          (out, n) = emit5 bits' (nbits + 8)
      in out @ encode_loop bits' n bs)"

definition encode_base32 :: "bytes \<Rightarrow> str" where
  "encode_base32 bs = encode_loop 0 0 bs"

text \<open>\<^verbatim>\<open>(bits >> n) as u8\<close>.\<close>

definition low_byte :: "32 word \<Rightarrow> char" where
  "low_byte w = char_of (unat (w AND 0xff))"

fun decode_loop :: "32 word \<Rightarrow> nat \<Rightarrow> str \<Rightarrow> bytes option" where
  "decode_loop bits nbits [] = Some []"
| "decode_loop bits nbits (ch # s) =
     (if ch = CHR ''='' \<or> ch = CHR '' '' then decode_loop bits nbits s
      else
        (case position (ascii_upper_char ch) BASE32 of
           None \<Rightarrow> None
         | Some v \<Rightarrow>
             let bits' = push_bit 5 bits OR of_nat v; nbits' = nbits + 5 in
             if 8 \<le> nbits'
             then map_option (\<lambda>out. low_byte (drop_bit (nbits' - 8) bits') # out)
                    (decode_loop bits' (nbits' - 8) s)
             else decode_loop bits' nbits' s))"

definition decode_base32_secret :: "str \<Rightarrow> bytes option" where
  "decode_base32_secret s = decode_loop 0 0 s"

section \<open>Bit streams\<close>

text \<open>The \<open>n\<close> low bits of a register, the most significant first.\<close>

definition low_bits :: "nat \<Rightarrow> 32 word \<Rightarrow> bool list" where
  "low_bits n w = map (bit w) (rev [0..<n])"

definition byte_bits :: "bytes \<Rightarrow> bool list" where
  "byte_bits bs = concat (map (\<lambda>b. low_bits 8 (byte_word b)) bs)"

text \<open>The bits a base32 character stands for.\<close>

definition char_bits :: "char \<Rightarrow> bool list" where
  "char_bits c = (case position c BASE32 of None \<Rightarrow> [] | Some v \<Rightarrow> low_bits 5 (of_nat v))"

lemma length_low_bits [simp]: "length (low_bits n w) = n"
  by (simp add: low_bits_def)

lemma low_bits_append:
  assumes "m + n \<le> 32"
    and "\<And>i. i < n \<Longrightarrow> bit w i = bit v i" and "\<And>i. i < m \<Longrightarrow> bit w (i + n) = bit u i"
  shows "low_bits (m + n) w = low_bits m u @ low_bits n v"
proof -
  have "rev [0..<m + n] = map (\<lambda>i. i + n) (rev [0..<m]) @ rev [0..<n]"
    using upt_add_eq_append [of 0 n m] map_add_upt [of n m]
    by (simp add: add.commute [of m n] rev_map [symmetric])
  then show ?thesis
    using assms by (simp add: low_bits_def o_def)
qed

lemma bit_push_or:
  fixes w v :: "32 word"
  assumes "\<And>i. bit v i \<Longrightarrow> i < n"
  shows "i < n \<Longrightarrow> bit (push_bit n w OR v) i = bit v i"
    and "i + n < 32 \<Longrightarrow> bit (push_bit n w OR v) (i + n) = bit w i"
  using assms by (auto simp: bit_simps)

lemma bit_nat_less: "bit (n :: nat) i \<Longrightarrow> n < 2 ^ k \<Longrightarrow> i < k"
proof (rule ccontr)
  assume b: "bit n i" and n: "n < 2 ^ k" and "\<not> i < k"
  then have "(2 :: nat) ^ k \<le> 2 ^ i" by simp
  with n have "n < 2 ^ i" by (rule less_le_trans)
  then have "n div 2 ^ i = 0" by simp
  then show False using b by (simp add: bit_iff_odd)
qed

lemma bit_byte_word: "bit (byte_word b) i \<Longrightarrow> i < 8"
  using bit_nat_less [of "code b" i 8] by (simp add: byte_word_def bit_simps)

lemma low_bits_push_byte:
  "n + 8 \<le> 32 \<Longrightarrow> low_bits (n + 8) (push_bit 8 w OR byte_word b) = low_bits n w @ low_bits 8 (byte_word b)"
  by (rule low_bits_append) (use bit_push_or [OF bit_byte_word] in auto)

lemma bit_of_nat32: "v < 32 \<Longrightarrow> bit (of_nat v :: 32 word) i \<Longrightarrow> i < 5"
  using bit_nat_less [of v i 5] by (simp add: bit_simps)

lemma low_bits_push_five:
  "n + 5 \<le> 32 \<Longrightarrow> v < 32 \<Longrightarrow>
     low_bits (n + 5) (push_bit 5 w OR of_nat v) = low_bits n w @ low_bits 5 (of_nat v)"
  by (rule low_bits_append) (use bit_push_or [OF bit_of_nat32] in auto)

lemma low_bits_split: "n + k \<le> 32 \<Longrightarrow> low_bits (n + k) w = low_bits n (drop_bit k w) @ low_bits k w"
  by (rule low_bits_append) (auto simp: bit_simps add.commute)

lemma low_bits_eqI: "(\<And>i. i < n \<Longrightarrow> bit w i = bit v i) \<Longrightarrow> low_bits n w = low_bits n v"
  by (simp add: low_bits_def)

text \<open>A character of the encoder stands for the five low bits it was picked by.\<close>

lemma BASE32_nth: "v < 32 \<Longrightarrow> position (BASE32 ! v) BASE32 = Some v \<and> ascii_upper_char (BASE32 ! v) = BASE32 ! v
    \<and> BASE32 ! v \<noteq> CHR ''='' \<and> BASE32 ! v \<noteq> CHR '' ''"
proof -
  have "list_all (\<lambda>v. position (BASE32 ! v) BASE32 = Some v \<and> ascii_upper_char (BASE32 ! v) = BASE32 ! v
    \<and> BASE32 ! v \<noteq> CHR ''='' \<and> BASE32 ! v \<noteq> CHR '' '') [0..<32]"
    by code_simp
  then show "v < 32 \<Longrightarrow> ?thesis" by (simp add: list_all_iff)
qed

lemma position_less: "position x xs = Some v \<Longrightarrow> v < length xs"
  by (induction xs arbitrary: v) (auto split: if_splits)

lemma unat_mask5: "unat ((w :: 32 word) AND 0x1f) < 32"
proof -
  have "w AND 0x1f = take_bit 5 w"
    by (simp add: take_bit_eq_mask mask_eq_exp_minus_1)
  then show ?thesis
    using take_bit_nat_less_exp [of 5 "unat w"] by (simp add: unsigned_take_bit_eq)
qed

lemma char_bits_enc_char: "char_bits (enc_char w) = low_bits 5 w"
proof -
  have "w AND 0x1f = take_bit 5 w"
    by (simp add: take_bit_eq_mask mask_eq_exp_minus_1)
  then have "low_bits 5 (w AND 0x1f) = low_bits 5 w"
    by (intro low_bits_eqI) (simp add: bit_simps)
  then show ?thesis
    using BASE32_nth [OF unat_mask5 [of w]] by (simp add: char_bits_def enc_char_def)
qed


definition b32_char :: "char \<Rightarrow> bool" where
  "b32_char c \<longleftrightarrow> (\<exists>v < 32. c = BASE32 ! v)"

lemma b32_enc_char: "b32_char (enc_char w)"
  using unat_mask5 [of w] by (auto simp: b32_char_def enc_char_def)

lemma emit5_bits:
  "nb \<le> 32 \<Longrightarrow> emit5 bits nb = (out, n) \<Longrightarrow>
     n < 5 \<and> list_all b32_char out \<and> concat (map char_bits out) @ low_bits n bits = low_bits nb bits"
proof (induction bits nb arbitrary: out rule: emit5.induct)
  case (1 bits nb)
  show ?case
  proof (cases "5 \<le> nb")
    case True
    obtain out' where e: "emit5 bits (nb - 5) = (out', n)" and o: "out = enc_char (drop_bit (nb - 5) bits) # out'"
      using 1(3) True by (subst (asm) emit5.simps) (auto split: prod.splits)
    have ih: "n < 5 \<and> list_all b32_char out' \<and> concat (map char_bits out') @ low_bits n bits = low_bits (nb - 5) bits"
      using 1(1) [OF True _ e] 1(2) by simp
    have "low_bits (5 + (nb - 5)) bits = low_bits 5 (drop_bit (nb - 5) bits) @ low_bits (nb - 5) bits"
      using 1(2) True by (intro low_bits_split) simp
    then show ?thesis
      using ih o True by (simp add: char_bits_enc_char b32_enc_char)
  next
    case False
    then have "out = [] \<and> n = nb"
      using 1(3) by (subst (asm) emit5.simps) simp
    then show ?thesis using False by simp
  qed
qed

lemma low_bits_zero: "low_bits n 0 = replicate n False"
  by (simp add: low_bits_def list_eq_iff_nth_eq rev_nth)

lemma low_bits_pad:
  assumes "nb \<le> 5"
  shows "low_bits 5 (push_bit (5 - nb) bits) = low_bits nb bits @ replicate (5 - nb) False"
proof -
  have "low_bits (nb + (5 - nb)) (push_bit (5 - nb) bits) = low_bits nb bits @ low_bits (5 - nb) 0"
    using assms by (intro low_bits_append) (auto simp: bit_simps)
  then show ?thesis using assms by (simp add: low_bits_zero)
qed

lemma encode_loop_bits:
  "nb < 5 \<Longrightarrow> list_all b32_char (encode_loop bits nb bs)
    \<and> (\<exists>k < 5. concat (map char_bits (encode_loop bits nb bs)) = low_bits nb bits @ byte_bits bs @ replicate k False)"
proof (induction bs arbitrary: bits nb)
  case Nil
  show ?case
  proof (cases "0 < nb")
    case True
    then show ?thesis
      using Nil low_bits_pad [of nb bits]
      by (auto simp: b32_enc_char char_bits_enc_char byte_bits_def intro!: exI [of _ "5 - nb"])
  next
    case False
    then show ?thesis
      by (auto simp: byte_bits_def low_bits_def intro!: exI [of _ 0])
  qed
next
  case (Cons b bs)
  let ?bits = "push_bit 8 bits OR byte_word b"
  obtain out n where e: "emit5 ?bits (nb + 8) = (out, n)" by fastforce
  have em: "n < 5 \<and> list_all b32_char out \<and> concat (map char_bits out) @ low_bits n ?bits = low_bits (nb + 8) ?bits"
    using Cons.prems by (intro emit5_bits [OF _ e]) simp
  obtain k where k: "k < 5" "concat (map char_bits (encode_loop ?bits n bs)) = low_bits n ?bits @ byte_bits bs @ replicate k False"
    and b: "list_all b32_char (encode_loop ?bits n bs)"
    using Cons.IH [of n ?bits] em by auto
  have "concat (map char_bits (encode_loop bits nb (b # bs)))
      = (concat (map char_bits out) @ low_bits n ?bits) @ byte_bits bs @ replicate k False"
    using e k(2) by simp
  also have "\<dots> = low_bits nb bits @ byte_bits (b # bs) @ replicate k False"
    using em low_bits_push_byte [of nb bits b] Cons.prems by (simp add: byte_bits_def)
  finally show ?case
    using em e b k(1) by auto
qed


lemma code_low_byte: "code (low_byte w) = unat (w AND 0xff)"
proof -
  have "w AND 0xff = take_bit 8 w"
    by (simp add: take_bit_eq_mask mask_eq_exp_minus_1)
  then have "unat (w AND 0xff) < 256"
    using take_bit_nat_less_exp [of 8 "unat w"] by (simp add: unsigned_take_bit_eq)
  then show ?thesis by (simp add: low_byte_def)
qed

lemma low_bits_low_byte: "low_bits 8 (byte_word (low_byte w)) = low_bits 8 w"
proof -
  have "w AND 0xff = take_bit 8 w"
    by (simp add: take_bit_eq_mask mask_eq_exp_minus_1)
  then have "byte_word (low_byte w) = take_bit 8 w"
    by (simp add: byte_word_def code_low_byte)
  then show ?thesis
    by (intro low_bits_eqI) (simp add: bit_simps)
qed

lemma length_char_bits: "b32_char c \<Longrightarrow> length (char_bits c) = 5"
  using BASE32_nth by (auto simp: b32_char_def char_bits_def)

lemma decode_loop_bits:
  "nb < 8 \<Longrightarrow> list_all b32_char s \<Longrightarrow>
     \<exists>out. decode_loop bits nb s = Some out
       \<and> byte_bits out = take (8 * ((nb + 5 * length s) div 8)) (low_bits nb bits @ concat (map char_bits s))"
proof (induction s arbitrary: bits nb)
  case Nil
  then show ?case by (simp add: byte_bits_def)
next
  case (Cons c s)
  then obtain v where v: "v < 32" "c = BASE32 ! v" by (auto simp: b32_char_def)
  let ?bits = "push_bit 5 bits OR (of_nat v :: 32 word)"
  have p: "position (ascii_upper_char c) BASE32 = Some v" "c \<noteq> CHR ''=''" "c \<noteq> CHR '' ''"
    and cb: "char_bits c = low_bits 5 (of_nat v)"
    using BASE32_nth [OF v(1)] v(2) by (auto simp: char_bits_def)
  have app: "low_bits (nb + 5) ?bits = low_bits nb bits @ char_bits c"
    using low_bits_push_five [of nb v bits] Cons.prems(1) v(1) cb by simp
  have lt: "nb + 5 - 8 < 8" and cs: "list_all b32_char s"
    using Cons.prems by simp_all
  show ?case
  proof (cases "8 \<le> nb + 5")
    case True
    from Cons.IH [OF lt cs, of ?bits] obtain out where out: "decode_loop ?bits (nb + 5 - 8) s = Some out"
      "byte_bits out = take (8 * ((nb + 5 - 8 + 5 * length s) div 8)) (low_bits (nb + 5 - 8) ?bits @ concat (map char_bits s))"
      by blast
    have "low_bits (8 + (nb + 5 - 8)) ?bits = low_bits 8 (drop_bit (nb + 5 - 8) ?bits) @ low_bits (nb + 5 - 8) ?bits"
      using Cons.prems by (intro low_bits_split) simp
    moreover have "8 + (nb + 5 - 8) = nb + 5" using True by simp
    ultimately have sp: "low_bits nb bits @ char_bits c = low_bits 8 (drop_bit (nb + 5 - 8) ?bits) @ low_bits (nb + 5 - 8) ?bits"
      by (simp only: app)
    have n: "8 * ((nb + 5 * length (c # s)) div 8) = 8 + 8 * ((nb + 5 - 8 + 5 * length s) div 8)"
    proof -
      have "nb + 5 * length (c # s) = 8 + (nb + 5 - 8 + 5 * length s)" using True by simp
      then show ?thesis by (simp only: div_add_self1) simp
    qed
    have "byte_bits (low_byte (drop_bit (nb + 5 - 8) ?bits) # out)
        = take (8 * ((nb + 5 * length (c # s)) div 8)) (low_bits nb bits @ concat (map char_bits (c # s)))"
      unfolding n using out(2) sp
      by (simp add: byte_bits_def low_bits_low_byte flip: append_assoc)
    then show ?thesis
      using p out(1) True by (auto simp: Let_def)
  next
    case False
    then obtain out where out: "decode_loop ?bits (nb + 5) s = Some out"
      "byte_bits out = take (8 * ((nb + 5 + 5 * length s) div 8)) (low_bits (nb + 5) ?bits @ concat (map char_bits s))"
      using Cons.IH [of "nb + 5" ?bits] Cons.prems by auto
    then show ?thesis
      using p False app by (auto simp: Let_def add.assoc)
  qed
qed

lemma byte_word_inj: "low_bits 8 (byte_word a) = low_bits 8 (byte_word b) \<Longrightarrow> a = b"
proof -
  assume "low_bits 8 (byte_word a) = low_bits 8 (byte_word b)"
  then have "\<forall>i < 8. bit (byte_word a) i = bit (byte_word b) i"
    by (auto simp: low_bits_def)
  then have "byte_word a = byte_word b"
    using bit_byte_word by (intro bit_word_eqI) blast
  then have "unat (byte_word a) = unat (byte_word b)" by simp
  then show "a = b"
    using nat_of_char_less_256 [of a] nat_of_char_less_256 [of b]
    by (simp add: byte_word_def unat_of_nat char_eq_code_iff del: of_char_eq_iff)
qed

lemma length_byte_bits: "length (byte_bits bs) = 8 * length bs"
  by (induction bs) (simp_all add: byte_bits_def)

lemma byte_bits_inj: "byte_bits a = byte_bits b \<Longrightarrow> a = b"
proof (induction a arbitrary: b)
  case Nil
  then have "length (byte_bits b) = 0" by (simp add: byte_bits_def)
  then show ?case by (simp add: length_byte_bits)
next
  case (Cons x xs)
  then obtain y ys where b: "b = y # ys"
    using length_byte_bits [of "x # xs"] length_byte_bits [of b] by (cases b) auto
  with Cons have "low_bits 8 (byte_word x) @ byte_bits xs = low_bits 8 (byte_word y) @ byte_bits ys"
    by (simp add: byte_bits_def)
  then have "low_bits 8 (byte_word x) = low_bits 8 (byte_word y) \<and> byte_bits xs = byte_bits ys"
    by (intro append_eq_append_conv [THEN iffD1]) simp_all
  then show ?case
    using Cons.IH byte_word_inj b by auto
qed

lemma length_concat_char_bits: "list_all b32_char s \<Longrightarrow> length (concat (map char_bits s)) = 5 * length s"
  by (induction s) (simp_all add: length_char_bits)

text \<open>A TOTP secret survives its text form: decoding the base32 encoding of any octets gives
  back exactly those octets.\<close>

lemma base32_roundtrip: "decode_base32_secret (encode_base32 bs) = Some bs"
proof -
  let ?s = "encode_loop 0 0 bs"
  obtain k where b: "list_all b32_char ?s" and k: "k < 5"
    "concat (map char_bits ?s) = byte_bits bs @ replicate k False"
    using encode_loop_bits [of 0 0 bs] by (auto simp: low_bits_def)
  have len: "5 * length ?s = 8 * length bs + k"
    using length_concat_char_bits [OF b] k(2) by (simp add: length_byte_bits)
  obtain out where out: "decode_loop 0 0 ?s = Some out"
    "byte_bits out = take (8 * ((5 * length ?s) div 8)) (concat (map char_bits ?s))"
    using decode_loop_bits [of 0 ?s 0] b by (auto simp: low_bits_def)
  have "(5 * length ?s) div 8 = length bs"
    unfolding len using k(1) by simp
  then have "byte_bits out = byte_bits bs"
    using out(2) k(2) by (simp add: length_byte_bits)
  then show ?thesis
    using out(1) byte_bits_inj by (simp add: decode_base32_secret_def encode_base32_def)
qed


section \<open>Verification\<close>

lemma byte8_eq_iff: "(of_nat (code x) :: 8 word) = of_nat (code y) \<longleftrightarrow> x = y"
proof
  assume "(of_nat (code x) :: 8 word) = of_nat (code y)"
  then have "unat (of_nat (code x) :: 8 word) = unat (of_nat (code y) :: 8 word)" by simp
  then show "x = y"
    using nat_of_char_less_256 [of x] nat_of_char_less_256 [of y]
    by (simp add: unat_of_nat char_eq_code_iff del: of_char_eq_iff)
qed simp

lemma word_or_zero_iff: "(a :: 8 word) OR b = 0 \<longleftrightarrow> a = 0 \<and> b = 0"
  by (auto simp: bit_eq_iff bit_simps)

lemma word_xor_zero_iff: "(a :: 8 word) XOR b = 0 \<longleftrightarrow> a = b"
  by (auto simp: bit_eq_iff bit_simps)

lemma fold_or_zero:
  "fold (\<lambda>(x, y) acc. acc OR (of_nat (code x) XOR of_nat (code y))) ps (acc :: 8 word) = 0
   \<longleftrightarrow> acc = 0 \<and> (\<forall>(x, y) \<in> set ps. x = y)"
  by (induction ps arbitrary: acc)
     (auto simp: word_or_zero_iff word_xor_zero_iff byte8_eq_iff)

lemma constant_time_eq_iff [simp]: "constant_time_eq a b \<longleftrightarrow> a = b"
proof (cases "length a = length b")
  case True
  then have "(\<forall>(x, y) \<in> set (zip a b). x = y) \<longleftrightarrow> a = b"
    by (induction a b rule: list_induct2) auto
  then show ?thesis
    using True by (simp add: constant_time_eq_def fold_or_zero)
qed (auto simp: constant_time_eq_def)

lemma digits_value_pad0: "digits_value (pad0 w s) = digits_value s"
proof -
  have "foldl (\<lambda>acc c. 10 * acc + digit_value c) 0 (replicate k (CHR ''0'')) = 0" for k
    by (induction k) (simp_all add: digit_value_def)
  then show ?thesis by (simp add: digits_value_def pad0_def)
qed

lemma pad0_show_nat_inj: "pad0 w (show_nat a) = pad0 w (show_nat b) \<Longrightarrow> a = b"
  using digits_value_pad0 [of w "show_nat a"] digits_value_pad0 [of w "show_nat b"]
    show_nat_digits [of a] show_nat_digits [of b] by metis

text \<open>With a digest of 20 octets no index of \<^verbatim>\<open>hotp\<close> is out of range.\<close>

lemma hotp_index_in_range:
  "length digest = 20 \<Longrightarrow> unat (byte_word b AND 0x0f) + 3 < length digest"
proof -
  have "byte_word b AND 0x0f = take_bit 4 (byte_word b)"
    by (simp add: take_bit_eq_mask mask_eq_exp_minus_1)
  then have "unat (byte_word b AND 0x0f) < 16"
    using take_bit_nat_less_exp [of 4 "unat (byte_word b)"] by (simp add: unsigned_take_bit_eq)
  then show "length digest = 20 \<Longrightarrow> ?thesis" by simp
qed

lemma verify_totp_iff:
  "verify_totp K secret otp now \<longleftrightarrow>
     (\<exists>step. now div 30 - 1 \<le> step \<and> step \<le> now div 30 + 1 \<and> otp = hotp K secret step DIGITS)"
proof -
  have eq: "constant_time_eq (pad0 DIGITS (show_nat a)) (pad0 DIGITS (show_nat b)) \<longleftrightarrow> b = a" for a b
    using pad0_show_nat_inj by auto
  have steps: "step \<in> set [c - 1..<c + 1 + 1] \<longleftrightarrow> c - 1 \<le> step \<and> step \<le> c + 1" for step c
    by auto
  show ?thesis
    unfolding verify_totp_def Let_def list_ex_iff STEP_SECONDS_def SKEW_WINDOW_def eq steps Bex_def
    by blast
qed

text \<open>A TOTP code is accepted exactly when it is the code of the current 30 second step or of
  one of its two neighbours (the step before the first is the first): the constant-time comparison
  of zero-padded digits accepts nothing else.\<close>

lemma verify_totp_window:
  "verify_totp K secret otp now \<longleftrightarrow>
     (\<exists>step. now div 30 - 1 \<le> step \<and> step \<le> now div 30 + 1 \<and> otp = hotp K secret step DIGITS)"
  by (rule verify_totp_iff)

end
