(* ===== verification/Clock.thy ===== *)
theory Clock
  imports Totp
begin

text \<open>
  Date-time formatting (\<^verbatim>\<open>src/src/clock/mod.rs\<close>): the civil calendar from a day number, the RFC 5322
  and RFC 3339 forms, and the startup drift check. The calendar is compared with the rule that gives
  the day after a date in the Gregorian calendar.
\<close>

definition DAYS :: "str list" where
  "DAYS = [''Sun'', ''Mon'', ''Tue'', ''Wed'', ''Thu'', ''Fri'', ''Sat'']"

definition MONTHS :: "str list" where
  "MONTHS = [''Jan'', ''Feb'', ''Mar'', ''Apr'', ''May'', ''Jun'', ''Jul'', ''Aug'', ''Sep'', ''Oct'', ''Nov'', ''Dec'']"

text \<open>On the ranges that occur, \<^verbatim>\<open>div_euclid\<close> and \<^verbatim>\<open>rem_euclid\<close> by a positive divisor are \<^const>\<open>divide\<close>
  and \<^const>\<open>modulo\<close> of integers, and so is \<^verbatim>\<open>/\<close> of non-negative values.\<close>

definition civil_from_days :: "int \<Rightarrow> int \<times> int \<times> int" where
  "civil_from_days days =
     (let z = days + 719468;
          era = z div 146097;
          doe = z mod 146097;
          yoe = (doe - doe div 1460 + doe div 36524 - doe div 146096) div 365;
          year = yoe + era * 400;
          doy = doe - (365 * yoe + yoe div 4 - yoe div 100);
          mp = (5 * doy + 2) div 153;
          day = doy - (153 * mp + 2) div 5 + 1;
          month = (if mp < 10 then mp + 3 else mp - 9)
      in (if month \<le> 2 then year + 1 else year, month, day))"

definition show_int :: "int \<Rightarrow> str" where
  "show_int i = (if i < 0 then CHR ''-'' # show_nat (nat (- i)) else show_nat (nat i))"

definition two :: "int \<Rightarrow> str" where
  "two i = pad0 2 (show_nat (nat i))"

text \<open>The time is in whole seconds since the epoch; \<^verbatim>\<open>duration_since\<close> fails before it.\<close>

definition rfc5322 :: "int \<Rightarrow> str" where
  "rfc5322 time =
     (let secs = (if time < 0 then 0 else time);
          days_since_epoch = secs div 86400;
          seconds_of_day = secs mod 86400;
          (year, month, day) = civil_from_days days_since_epoch;
          weekday = (days_since_epoch + 4) mod 7
      in DAYS ! nat weekday @ '', '' @ two day @ '' '' @ MONTHS ! nat (month - 1) @ '' '' @ show_int year @ '' ''
         @ two (seconds_of_day div 3600) @ '':'' @ two (seconds_of_day mod 3600 div 60) @ '':''
         @ two (seconds_of_day mod 60) @ '' +0000'')"

definition rfc3339 :: "int \<Rightarrow> str" where
  "rfc3339 secs =
     (let days_since_epoch = secs div 86400;
          seconds_of_day = secs mod 86400;
          (year, month, day) = civil_from_days days_since_epoch
      in pad0 4 (show_int year) @ ''-'' @ two month @ ''-'' @ two day @ ''T''
         @ two (seconds_of_day div 3600) @ '':'' @ two (seconds_of_day mod 3600 div 60) @ '':''
         @ two (seconds_of_day mod 60) @ ''Z'')"

definition DRIFT_THRESHOLD_SECONDS :: nat where
  "DRIFT_THRESHOLD_SECONDS = SKEW_WINDOW * STEP_SECONDS"

record DriftReport =
  drift_seconds :: nat
  threshold_seconds :: nat

text \<open>The report and whether the drift counter is bumped.\<close>

definition check_drift_with_probe :: "DriftReport \<Rightarrow> DriftReport \<times> bool" where
  "check_drift_with_probe report = (report, drift_seconds report > threshold_seconds report)"

section \<open>The Gregorian calendar\<close>

definition leap_year :: "int \<Rightarrow> bool" where
  "leap_year y \<longleftrightarrow> 4 dvd y \<and> (\<not> 100 dvd y \<or> 400 dvd y)"

definition days_in_month :: "int \<Rightarrow> int \<Rightarrow> int" where
  "days_in_month y m =
     (if m = 2 then (if leap_year y then 29 else 28)
      else if m \<in> {4, 6, 9, 11} then 30 else 31)"

definition next_day :: "int \<times> int \<times> int \<Rightarrow> int \<times> int \<times> int" where
  "next_day date =
     (case date of (y, m, d) \<Rightarrow>
        if d < days_in_month y m then (y, m, d + 1)
        else if m = 12 then (y + 1, 1, 1)
        else (y, m + 1, 1))"

section \<open>Correctness of the conversion\<close>

text \<open>Years counted from March within a 400 year era: the first day of year \<open>y\<close> and the first day
  after it.\<close>

definition year_start :: "int \<Rightarrow> int" where
  "year_start y = 365 * y + y div 4 - y div 100"

definition year_end :: "int \<Rightarrow> int" where
  "year_end y = (if y = 399 then 146097 else year_start (y + 1))"

definition year_of :: "int \<Rightarrow> int" where
  "year_of doe = (doe - doe div 1460 + doe div 36524 - doe div 146096) div 365"

lemma year_of_mono:
  assumes "0 \<le> a" "a \<le> b" "b < 146097"
  shows "year_of a \<le> year_of b"
proof -
  have step: "doe - doe div 1460 + doe div 36524 - doe div 146096
      \<le> (doe + 1) - (doe + 1) div 1460 + (doe + 1) div 36524 - (doe + 1) div 146096"
    if "0 \<le> doe" "doe < 146096" for doe :: int
  proof -
    have le: "doe div 36524 \<le> (doe + 1) div 36524" by (rule zdiv_mono1) simp_all
    show ?thesis
    proof (cases "doe = 146095")
      case True
      then show ?thesis by simp
    next
      case False
      have "(doe + 1) div 1460 \<le> (doe + 1460) div 1460" by (rule zdiv_mono1) simp_all
      also have "\<dots> = doe div 1460 + 1" by simp
      finally have "(doe + 1) div 1460 \<le> doe div 1460 + 1" .
      moreover have "doe div 146096 = 0" "(doe + 1) div 146096 = 0"
        using that False by (simp_all add: div_pos_pos_trivial)
      ultimately show ?thesis using le by linarith
    qed
  qed
  have "0 \<le> b - a" using assms by simp
  then obtain k where k: "b = a + int k" using nonneg_int_cases [of "b - a"] by (metis add.commute diff_add_cancel)
  have "year_of a \<le> year_of (a + int k)" if "a + int k < 146097"
    using that
  proof (induction k)
    case (Suc k)
    have "year_of (a + int k) \<le> year_of (a + int k + 1)"
      unfolding year_of_def using step [of "a + int k"] Suc.prems assms(1) by (intro zdiv_mono1) simp_all
    then show ?case using Suc by (simp add: algebra_simps)
  qed simp
  then show ?thesis using k assms by simp
qed

text \<open>A year of the era by century, leap cycle and year in the cycle.\<close>

lemma year_split:
  assumes "0 \<le> y" "y < (400::int)"
  obtains c d b where "y = 100 * c + 4 * d + b" "0 \<le> c" "c \<le> 3" "0 \<le> d" "d \<le> 24" "0 \<le> b" "b \<le> 3"
    "year_start y = 36524 * c + 1461 * d + 365 * b"
proof -
  define c d b where "c = y div 100" "d = y mod 100 div 4" "b = y mod 4"
  have "y mod 100 mod 4 = y mod 4" by (simp add: mod_mod_cancel)
  then have y: "y = 100 * c + 4 * d + b"
    using div_mult_mod_eq [of y 100] div_mult_mod_eq [of "y mod 100" 4]
    unfolding c_d_b_def by linarith
  moreover have r: "0 \<le> c" "c \<le> 3" "0 \<le> d" "d \<le> 24" "0 \<le> b" "b \<le> 3"
    using assms unfolding c_d_b_def by auto
  moreover have "y div 4 = 25 * c + d"
    by (rule int_div_pos_eq [where r = b]) (use y r in auto)
  ultimately show thesis
    using that unfolding year_start_def c_d_b_def(1) [symmetric] by force
qed

lemma div_step:
  assumes "0 < (n::int)"
  shows "(y + 1) div n = y div n + (if n dvd y + 1 then 1 else 0)"
proof (cases "y mod n + 1 = n")
  case True
  then have "y + 1 = n * (y div n) + n"
    using mult_div_mod_eq [of n y] by linarith
  then have e: "y + 1 = n * (y div n + 1)" by (simp add: distrib_left)
  then have "n dvd y + 1" by (metis dvd_triv_left)
  moreover have "(y + 1) div n = y div n + 1" using e assms by simp
  ultimately show ?thesis by simp
next
  case False
  have b: "0 \<le> y mod n" "y mod n + 1 < n" using False assms pos_mod_bound [of n y] pos_mod_sign [of n y] by linarith+
  have "(y + 1) mod n = y mod n + 1"
    using b by (metis mod_add_left_eq mod_pos_pos_trivial add_nonneg_nonneg zero_le_one)
  then have "\<not> n dvd y + 1" using b by (simp add: dvd_eq_mod_eq_0)
  moreover have "(y + 1) div n = y div n"
    by (rule int_div_pos_eq [where r = "y mod n + 1"]) (use b in \<open>simp_all\<close>)
  ultimately show ?thesis by simp
qed

lemma year_length:
  assumes "0 \<le> y" "y < (400::int)"
  shows "year_end y - year_start y = (if leap_year (y + 1) then 366 else 365)"
proof (cases "y = 399")
  case True
  then show ?thesis by (simp add: year_end_def year_start_def leap_year_def)
next
  case False
  have "\<not> 400 dvd y + 1" using assms False by (auto dest!: zdvd_imp_le)
  moreover have "4 dvd y + 1" if "100 dvd y + 1" using that by (rule dvd_trans [rotated]) simp
  ultimately show ?thesis
    using False div_step [of 4 y] div_step [of 100 y]
    by (auto simp: year_end_def year_start_def leap_year_def)
qed

lemma year_of_bounds:
  assumes "0 \<le> y" "y < 400"
  shows "year_of (year_start y) = y" "year_of (year_end y - 1) = y"
proof -
  obtain c d b where y: "y = 100 * c + 4 * d + b" and r: "0 \<le> c" "c \<le> 3" "0 \<le> d" "d \<le> 24" "0 \<le> b" "b \<le> 3"
    and s: "year_start y = 36524 * c + 1461 * d + 365 * b"
    using year_split [OF assms] by blast
  have "year_start y div 1460 = 25 * c + d"
    by (rule int_div_pos_eq [where r = "24 * c + d + 365 * b"]) (use s r in auto)
  moreover have "year_start y div 36524 = c"
    by (rule int_div_pos_eq [where r = "1461 * d + 365 * b"]) (use s r in auto)
  moreover have "year_start y div 146096 = 0"
    by (rule div_pos_pos_trivial) (use s r in auto)
  ultimately show "year_of (year_start y) = y"
    unfolding year_of_def using y s by (intro int_div_pos_eq [where r = 0]) auto
  define e where "e = year_end y - 1"
  have len: "e = year_start y + (if leap_year (y + 1) then 365 else 364)"
  proof (cases "leap_year (y + 1)")
    case True
    then show ?thesis using year_length [OF assms] by (simp add: e_def)
  next
    case False
    then show ?thesis using year_length [OF assms] by (simp add: e_def)
  qed
  show "year_of (year_end y - 1) = y"
  proof (cases "b = 3")
    case False
    have nl: "\<not> leap_year (y + 1)"
    proof -
      have "y + 1 = (b + 1) + 4 * (25 * c + d)" using y by simp
      then have "(y + 1) mod 4 = (b + 1) mod 4" by (simp only: mod_mult_self2)
      also have "\<dots> = b + 1" using r False by (intro mod_pos_pos_trivial) auto
      finally have "(y + 1) mod 4 = b + 1" .
      then show ?thesis using r by (auto simp: leap_year_def dvd_eq_mod_eq_0)
    qed
    have "e div 1460 = 25 * c + d"
      by (rule int_div_pos_eq [where r = "24 * c + d + 365 * b + 364"]) (use s r len nl False in auto)
    moreover have "e div 36524 = c"
      by (rule int_div_pos_eq [where r = "1461 * d + 365 * b + 364"]) (use s r len nl False in auto)
    moreover have "e div 146096 = 0"
      by (rule div_pos_pos_trivial) (use s r len nl False in auto)
    ultimately show ?thesis
      unfolding year_of_def e_def [symmetric] using y s len nl
      by (intro int_div_pos_eq [where r = 364]) auto
  next
    case True
    show ?thesis
    proof (cases "leap_year (y + 1)")
      case False
      have dv: "y + 1 = 4 * (25 * c + d + 1)" using y True by simp
      then have "4 dvd y + 1" by simp
      with False have "100 dvd y + 1" "\<not> 400 dvd y + 1" by (auto simp: leap_year_def)
      moreover have "y + 1 = 100 * c + 4 * (d + 1)" using y True by simp
      ultimately have "100 dvd 4 * (d + 1)" by (simp add: dvd_add_right_iff)
      then have "100 \<le> 4 * (d + 1)" using r by (intro zdvd_imp_le) auto
      then have "24 \<le> d" by simp
      then have "d = 24" using r by simp
      moreover have "c \<noteq> 3" using \<open>\<not> 400 dvd y + 1\<close> y True \<open>d = 24\<close> by auto
      ultimately have "d = 24" "c \<noteq> 3" by simp_all
      then have e: "e = 36524 * c + 36523" using s len False True by simp
      have "e div 1460 = 25 * c + 25"
        by (rule int_div_pos_eq [where r = "24 * c + 23"]) (use e r in auto)
      moreover have "e div 36524 = c"
        by (rule int_div_pos_eq [where r = 36523]) (use e r in auto)
      moreover have "e div 146096 = 0"
        by (rule div_pos_pos_trivial) (use e \<open>c \<noteq> 3\<close> r in auto)
      ultimately show ?thesis
        unfolding year_of_def e_def [symmetric] using y True \<open>d = 24\<close> e
        by (intro int_div_pos_eq [where r = 363]) auto
    next
      case leap: True
      have e: "e = 36524 * c + 1461 * d + 1460" using s len leap True by simp
      show ?thesis
      proof (cases "d = 24")
        case d: True
        have "c = 3"
        proof (rule ccontr)
          assume "c \<noteq> 3"
          have "y + 1 = 100 * (c + 1)" using y True d by simp
          then have "100 dvd y + 1" "\<not> 400 dvd y + 1"
            using r \<open>c \<noteq> 3\<close> by (auto dest!: zdvd_imp_le)
          then show False using leap by (simp add: leap_year_def)
        qed
        then show ?thesis
          unfolding year_of_def e_def [symmetric] using e y d True by simp
      next
        case False
        have "e div 1460 = 25 * c + d + 1"
          by (rule int_div_pos_eq [where r = "24 * c + d"]) (use e r in auto)
        moreover have "e div 36524 = c"
          by (rule int_div_pos_eq [where r = "1461 * d + 1460"]) (use e r False in auto)
        moreover have "e div 146096 = 0"
          by (rule div_pos_pos_trivial) (use e r False in auto)
        ultimately show ?thesis
          unfolding year_of_def e_def [symmetric] using y True e by (intro int_div_pos_eq [where r = 364]) auto
      qed
    qed
  qed
qed

lemma year_bracket:
  assumes "0 \<le> doe" "doe < year_end (int n)" "n < 400"
  shows "\<exists>y. 0 \<le> y \<and> y < 400 \<and> year_start y \<le> doe \<and> doe < year_end y"
  using assms(2,3)
proof (induction n)
  case 0
  then show ?case using assms(1) by (intro exI [of _ 0]) (simp add: year_start_def)
next
  case (Suc n)
  show ?case
  proof (cases "doe < year_end (int n)")
    case True
    then show ?thesis using Suc by simp
  next
    case False
    moreover have "year_end (int n) = year_start (int (Suc n))"
      using Suc.prems by (auto simp: year_end_def add.commute)
    ultimately show ?thesis using Suc.prems by (intro exI [of _ "int (Suc n)"]) auto
  qed
qed

lemma year_end_le:
  assumes "0 \<le> y" "y < 400"
  shows "year_end y \<le> 146097"
proof (cases "y = 399")
  case False
  then have "0 \<le> y + 1" "y + 1 < 400" using assms by simp_all
  then have "year_start (y + 1) \<le> 146097" by (rule year_split) simp
  then show ?thesis using False by (simp add: year_end_def)
qed (simp add: year_end_def)

lemma year_of_unique:
  assumes "0 \<le> y" "y < 400" "year_start y \<le> doe" "doe < year_end y"
  shows "year_of doe = y"
proof -
  have "0 \<le> year_start y"
    by (rule year_split [OF assms(1,2)]) simp
  moreover have "year_end y \<le> 146097" by (rule year_end_le [OF assms(1,2)])
  ultimately have "year_of (year_start y) \<le> year_of doe" "year_of doe \<le> year_of (year_end y - 1)"
    using assms by (auto intro!: year_of_mono)
  then show ?thesis using year_of_bounds [OF assms(1,2)] by simp
qed

lemma year_of_in:
  assumes "0 \<le> doe" "doe < 146097"
  shows "0 \<le> year_of doe" "year_of doe < 400" "year_start (year_of doe) \<le> doe" "doe < year_end (year_of doe)"
proof -
  obtain y where y: "0 \<le> y" "y < 400" "year_start y \<le> doe" "doe < year_end y"
    using year_bracket [of doe 399] assms by (auto simp: year_end_def)
  then have "year_of doe = y" by (rule year_of_unique)
  with y show "0 \<le> year_of doe" "year_of doe < 400" "year_start (year_of doe) \<le> doe"
    "doe < year_end (year_of doe)" by simp_all
qed

text \<open>Month and day from the day of the year counted from March.\<close>

definition month_day :: "int \<Rightarrow> int \<times> int" where
  "month_day doy =
     (let mp = (5 * doy + 2) div 153
      in (if mp < 10 then mp + 3 else mp - 9, doy - (153 * mp + 2) div 5 + 1))"

definition next_month_day :: "int \<times> int \<Rightarrow> int \<times> int" where
  "next_month_day md =
     (case md of (m, d) \<Rightarrow>
        if d < (if m = 2 then 29 else if m \<in> {4, 6, 9, 11} then 30 else 31) then (m, d + 1)
        else (if m = 12 then 1 else m + 1, 1))"

lemma month_day_table:
  "list_all (\<lambda>doy. month_day (doy + 1) = next_month_day (month_day doy)
     \<and> (doy = 364 \<or> fst (month_day doy) \<noteq> 2 \<or> snd (month_day doy) < 28)) [0..364]"
  by code_simp

lemma month_day_ends: "month_day 0 = (3, 1)" "month_day 364 = (2, 28)" "month_day 365 = (2, 29)"
  by code_simp+

lemma month_day_step:
  "0 \<le> doy \<Longrightarrow> doy < 365 \<Longrightarrow> month_day (doy + 1) = next_month_day (month_day doy)"
  "0 \<le> doy \<Longrightarrow> doy < 364 \<Longrightarrow> fst (month_day doy) \<noteq> 2 \<or> snd (month_day doy) < 28"
  using month_day_table by (auto simp: list_all_iff)

section \<open>The calendar property\<close>

lemma civil_parts:
  assumes "days + 719468 = 146097 * era + doe" "0 \<le> doe" "doe < 146097"
  shows "civil_from_days days =
    (let y = year_of doe; (m, d) = month_day (doe - year_start y)
     in (y + 400 * era + (if m \<le> 2 then 1 else 0), m, d))"
proof -
  have dm: "(days + 719468) div 146097 = era" "(days + 719468) mod 146097 = doe"
    unfolding assms(1) using assms(2,3) by simp_all
  have "civil_from_days days =
    (case month_day (doe - year_start (year_of doe)) of (m, d) \<Rightarrow>
       (if m \<le> 2 then year_of doe + era * 400 + 1 else year_of doe + era * 400, m, d))"
    unfolding civil_from_days_def Let_def dm year_of_def [symmetric] year_start_def [symmetric]
      month_day_def prod.case ..
  then show ?thesis
    by (simp add: case_prod_beta Let_def mult.commute)
qed

lemma leap_era: "leap_year (y + 400 * era) = leap_year y"
proof -
  have "n dvd y + 400 * era \<longleftrightarrow> n dvd y" if "n dvd 400" for n :: int
    using that by (simp add: dvd_add_left_iff dvd_mult2)
  then show ?thesis by (simp add: leap_year_def)
qed

lemma next_day_month_day:
  assumes "0 \<le> doy" "doy < 365" "doy = 364 \<Longrightarrow> leap_year (y + 1)" "month_day doy = (m, d)"
  shows "next_day (y + (if m \<le> 2 then 1 else 0), m, d) =
    (case month_day (doy + 1) of (m', d') \<Rightarrow> (y + (if m' \<le> 2 then 1 else 0), m', d'))"
proof -
  have "month_day (doy + 1) = next_month_day (m, d)"
    using month_day_step(1) [OF assms(1,2)] assms(4) by simp
  moreover have "m = 2 \<Longrightarrow> d < 28 \<or> d = 28 \<and> leap_year (y + 1)"
    using month_day_step(2) [OF assms(1)] assms(2,3,4) month_day_ends(2) by (cases "doy = 364") auto
  ultimately show ?thesis
    by (auto simp: next_day_def next_month_day_def days_in_month_def)
qed

lemma year_end_year:
  assumes "0 \<le> doe" "doe < 146097" "doe + 1 = year_end (year_of doe)"
  shows "next_day (civil_from_days (146097 * era + doe - 719468)) = (year_of doe + 400 * era + 1, 3, 1)"
proof -
  let ?y = "year_of doe"
  note y = year_of_in [OF assms(1,2)]
  have "doe - year_start ?y = (if leap_year (?y + 1) then 365 else 364)"
    using year_length [OF y(1,2)] assms(3) by (cases "leap_year (?y + 1)") simp_all
  then have md: "month_day (doe - year_start ?y) = (2, if leap_year (?y + 1) then 29 else 28)"
    using month_day_ends by simp
  have "civil_from_days (146097 * era + doe - 719468)
      = (?y + 400 * era + 1, 2, if leap_year (?y + 1) then 29 else 28)"
    using civil_parts [of "146097 * era + doe - 719468" era doe] assms(1,2) md by (simp add: Let_def)
  moreover have "leap_year (?y + 400 * era + 1) = leap_year (?y + 1)"
    using leap_era [of "?y + 1" era] by (simp add: algebra_simps)
  ultimately show ?thesis by (simp add: next_day_def days_in_month_def)
qed

lemma year_first_day:
  assumes "0 \<le> y" "y < 400"
  shows "civil_from_days (146097 * era + year_start y - 719468) = (y + 400 * era, 3, 1)"
proof -
  have r: "year_start y \<le> year_start y" "year_start y < year_end y"
    using year_length [OF assms] by (auto split: if_splits)
  have "0 \<le> year_start y" "year_start y < 146097"
    by (rule year_split [OF assms], simp)+
  then show ?thesis
    using civil_parts [of "146097 * era + year_start y - 719468" era "year_start y"]
      year_of_unique [OF assms r] month_day_ends(1) by (simp add: Let_def)
qed

lemma civil_next:
  assumes "0 \<le> doe" "doe < 146097"
  shows "civil_from_days (146097 * era + doe - 719468 + 1) = next_day (civil_from_days (146097 * era + doe - 719468))"
proof -
  let ?y = "year_of doe" and ?z = "146097 * era + doe - 719468"
  note y = year_of_in [OF assms]
  consider (inside) "doe + 1 < year_end ?y" | (boundary) "doe + 1 = year_end ?y" "?y \<noteq> 399"
    | (last) "doe + 1 = year_end ?y" "?y = 399"
    using y(4) by linarith
  then show ?thesis
  proof cases
    case inside
    then have u: "year_of (doe + 1) = ?y" using y by (intro year_of_unique) simp_all
    obtain m d where md: "month_day (doe - year_start ?y) = (m, d)" by fastforce
    have len: "year_end ?y - year_start ?y = (if leap_year (?y + 1) then 366 else 365)"
      by (rule year_length [OF y(1,2)])
    have doy: "0 \<le> doe - year_start ?y" "doe - year_start ?y < 365"
      using y(3) inside len by (cases "leap_year (?y + 1)"; simp)+
    have leap: "leap_year (?y + 400 * era + 1)" if "doe - year_start ?y = 364"
      using that inside len leap_era [of "?y + 1" era]
      by (cases "leap_year (?y + 1)") (simp_all add: algebra_simps)
    have "doe + 1 < 146097" using inside year_end_le [OF y(1,2)] by simp
    then show ?thesis
      using civil_parts [of ?z era doe] civil_parts [of "?z + 1" era "doe + 1"] assms u md
        next_day_month_day [OF doy leap md]
      by (simp add: Let_def case_prod_beta algebra_simps)
  next
    case boundary
    then have n: "0 \<le> ?y + 1" "?y + 1 < 400" using y by auto
    have "year_start (?y + 1) = doe + 1" using boundary by (simp add: year_end_def)
    then show ?thesis
      using year_first_day [OF n, of era] year_end_year [OF assms boundary(1), of era]
      by (simp add: algebra_simps)
  next
    case last
    then have "doe + 1 = 146097" by (simp add: year_end_def)
    then have "?z + 1 = 146097 * (era + 1) + year_start 0 - 719468" by (simp add: year_start_def)
    then show ?thesis
      using year_first_day [of 0 "era + 1"] year_end_year [OF assms last(1), of era] last(2) by simp
  qed
qed

text \<open>The calendar of the date headers is the Gregorian one: day 0 is 1 January 1970 and the date
  of each day number is the Gregorian successor of the date of the day before.\<close>

lemma civil_from_days_gregorian:
  "civil_from_days 0 = (1970, 1, 1) \<and> civil_from_days (d + 1) = next_day (civil_from_days d)"
proof
  show "civil_from_days 0 = (1970, 1, 1)" by code_simp
  have "146097 * ((d + 719468) div 146097) + (d + 719468) mod 146097 - 719468 = d" by simp
  then show "civil_from_days (d + 1) = next_day (civil_from_days d)"
    using civil_next [of "(d + 719468) mod 146097" "(d + 719468) div 146097"] by simp
qed

end
