(* ===== verification/Line_Framing.thy ===== *)
theory Line_Framing
  imports Rust_Prelude
begin

text \<open>
  Strict CRLF line framing of the SMTP stream (\<^verbatim>\<open>src/src/smtp/line.rs\<close>): the incremental
  \<^verbatim>\<open>LineDecoder\<close>, the loop of \<^verbatim>\<open>next_line\<close> as a recursion on the index it advances, and the
  read loop of the connection that feeds the decoder one socket read at a time. The lemmas show
  that the decoder implements a direct description of framing (\<open>frame\<close>), that the lines it
  yields do not depend on how the stream was cut into reads, and that they contain no CR, LF or
  NUL octet.
\<close>

section \<open>The decoder\<close>

definition MAX_LINE_LENGTH :: nat where
  "MAX_LINE_LENGTH = 998"

datatype LineError = BareControlCharacter | TooLong | NulByte

record LineDecoder =
  buffer :: bytes

definition new_decoder :: LineDecoder where
  "new_decoder = \<lparr>buffer = []\<rparr>"

definition feed :: "LineDecoder \<Rightarrow> bytes \<Rightarrow> LineDecoder" where
  "feed d bs = d\<lparr>buffer := buffer d @ bs\<rparr>"

definition take_buffered :: "LineDecoder \<Rightarrow> nat \<Rightarrow> bytes \<times> LineDecoder" where
  "take_buffered d m =
     (let n = min (length (buffer d)) m
      in (take n (buffer d), d\<lparr>buffer := drop n (buffer d)\<rparr>))"

text \<open>The loop of \<^verbatim>\<open>next_line\<close>, from index \<open>i\<close>: the result and the buffer it leaves.\<close>

function next_line_loop :: "bytes \<Rightarrow> nat \<Rightarrow> (LineError + bytes option) \<times> bytes" where
  "next_line_loop buf i =
     (if i < length buf then
        (if buf ! i = NUL then (Inl NulByte, buf)
         else if buf ! i = LF then (Inl BareControlCharacter, buf)
         else if buf ! i = CR then
           (if i + 1 < length buf then
              (if buf ! (i + 1) = LF then
                 (if i > MAX_LINE_LENGTH then (Inl TooLong, buf)
                  else (Inr (Some (take i buf)), drop (i + 2) buf))
               else (Inl BareControlCharacter, buf))
            else (Inr None, buf))
         else next_line_loop buf (i + 1))
      else if length buf > MAX_LINE_LENGTH + 1 then (Inl TooLong, buf)
      else (Inr None, buf))"
  by pat_completeness auto
termination
  by (relation "measure (\<lambda>(buf, i). length buf - i)") auto

declare next_line_loop.simps [simp del]

definition next_line :: "LineDecoder \<Rightarrow> (LineError + bytes option) \<times> LineDecoder" where
  "next_line d = (let (r, buf) = next_line_loop (buffer d) 0 in (r, d\<lparr>buffer := buf\<rparr>))"

section \<open>A direct description of framing\<close>

definition plain :: "char \<Rightarrow> bool" where
  "plain c \<longleftrightarrow> c \<noteq> NUL \<and> c \<noteq> LF \<and> c \<noteq> CR"

definition clean_line :: "bytes \<Rightarrow> bool" where
  "clean_line l \<longleftrightarrow> list_all plain l \<and> length l \<le> MAX_LINE_LENGTH"

definition frame :: "bytes \<Rightarrow> (LineError + bytes option) \<times> bytes" where
  "frame buf =
     (let w = takeWhile plain buf in
      case dropWhile plain buf of
        [] \<Rightarrow> (if length buf > MAX_LINE_LENGTH + 1 then (Inl TooLong, buf) else (Inr None, buf))
      | c # rest \<Rightarrow>
          if c = NUL then (Inl NulByte, buf)
          else if c = LF then (Inl BareControlCharacter, buf)
          else (case rest of
                  [] \<Rightarrow> (Inr None, buf)
                | d # rest' \<Rightarrow>
                    if d = LF then (if length w > MAX_LINE_LENGTH then (Inl TooLong, buf)
                                    else (Inr (Some w), rest'))
                    else (Inl BareControlCharacter, buf)))"

lemma next_line_loop_frame_aux:
  assumes "list_all plain (take i buf)" and "i \<le> length buf"
  shows "next_line_loop buf i = frame buf"
  using assms
proof (induction buf i rule: next_line_loop.induct)
  case (1 buf i)
  show ?case
  proof (cases "i < length buf \<and> plain (buf ! i)")
    case True
    then have "list_all plain (take (i + 1) buf)"
      using "1.prems" by (simp add: take_Suc_conv_app_nth)
    moreover have "buf ! i \<noteq> NUL" "buf ! i \<noteq> LF" "buf ! i \<noteq> CR"
      using True by (simp_all add: plain_def)
    ultimately show ?thesis
      using "1.IH" True by (simp add: next_line_loop.simps [of buf i])
  next
    case False
    have "drop i buf = [] \<or> \<not> plain (hd (drop i buf))"
      using False by (auto simp: hd_drop_conv_nth not_less)
    then have tw: "takeWhile plain buf = take i buf" "dropWhile plain buf = drop i buf"
      using takeWhile_dropWhile_append [OF "1.prems"(1), of "drop i buf"] by simp_all
    show ?thesis
    proof (cases "i < length buf")
      case True
      then have d: "drop i buf = buf ! i # drop (Suc i) buf"
        by (simp add: Cons_nth_drop_Suc)
      from True False have np: "buf ! i = NUL \<or> buf ! i = LF \<or> buf ! i = CR"
        by (simp add: plain_def)
      show ?thesis
      proof (cases "i + 1 < length buf")
        case True
        then have d2: "drop (Suc i) buf = buf ! (i + 1) # drop (i + 2) buf"
          by (simp add: Cons_nth_drop_Suc)
        with \<open>i < length buf\<close> True np show ?thesis
          unfolding next_line_loop.simps [of buf i] frame_def Let_def tw d d2 by auto
      next
        case False
        then have d2: "drop (Suc i) buf = []" by simp
        with \<open>i < length buf\<close> False np show ?thesis
          unfolding next_line_loop.simps [of buf i] frame_def Let_def tw d d2 by auto
      qed
    next
      case False
      then have d: "drop i buf = []" by simp
      from False show ?thesis
        unfolding next_line_loop.simps [of buf i] frame_def Let_def tw d by simp
    qed
  qed
qed

lemma next_line_frame: "next_line d = (let (r, buf) = frame (buffer d) in (r, d\<lparr>buffer := buf\<rparr>))"
  by (simp add: next_line_def next_line_loop_frame_aux)

lemma frame_Some_iff:
  "frame buf = (Inr (Some l), rest) \<longleftrightarrow> buf = l @ CR # LF # rest \<and> clean_line l"
proof
  assume "frame buf = (Inr (Some l), rest)"
  then have l: "l = takeWhile plain buf" and len: "length l \<le> MAX_LINE_LENGTH"
    and d: "dropWhile plain buf = CR # LF # rest"
    by (auto simp: frame_def Let_def plain_def dropWhile_eq_Cons_conv
        split: list.splits if_splits)
  have "buf = l @ CR # LF # rest"
    using l d by (metis takeWhile_dropWhile_id)
  moreover have "list_all plain l"
    using l by (metis (mono_tags, lifting) Ball_set set_takeWhileD)
  ultimately show "buf = l @ CR # LF # rest \<and> clean_line l"
    using len by (simp add: clean_line_def)
next
  assume "buf = l @ CR # LF # rest \<and> clean_line l"
  then show "frame buf = (Inr (Some l), rest)"
    by (auto simp: frame_def clean_line_def list_all_iff plain_def dropWhile_append takeWhile_append)
qed

text \<open>After an error on a buffer no extension of it yields a line.\<close>

lemma frame_error_no_line:
  assumes "frame buf = (Inl e, b)"
  shows "frame (buf @ xs) \<noteq> (Inr (Some l), rest)"
proof
  assume "frame (buf @ xs) = (Inr (Some l), rest)"
  then have eq: "buf @ xs = l @ CR # LF # rest" and cl: "clean_line l"
    by (simp_all add: frame_Some_iff)
  from eq consider us where "buf @ us = l" | us where "buf = l @ us" "us @ xs = CR # LF # rest"
    by (auto simp: append_eq_append_conv2)
  then show False
  proof cases
    case 1
    then have "list_all plain buf" and len: "length buf \<le> MAX_LINE_LENGTH"
      using cl by (auto simp: clean_line_def)
    then have dw: "dropWhile plain buf = []"
      by (simp add: list_all_iff)
    show False
      using assms len unfolding frame_def Let_def dw by simp
  next
    case 2
    then consider "us = []" | "us = [CR]" | r where "us = CR # LF # r"
      by (cases us; cases "tl us") auto
    then show False
    proof cases
      case 1
      then have dw: "dropWhile plain buf = []" and len: "length buf \<le> MAX_LINE_LENGTH"
        using 2 cl by (simp_all add: list_all_iff clean_line_def)
      show False
        using assms len unfolding frame_def Let_def dw by simp
    next
      case 2
      have dw: "dropWhile plain buf = [CR]"
        using takeWhile_dropWhile_append(2) [of plain l "[CR]"] cl 2 \<open>buf = l @ us\<close>
        by (simp add: clean_line_def plain_def)
      show False
        using assms unfolding frame_def Let_def dw by simp
    next
      case 3
      then have "frame buf = (Inr (Some l), r)"
        using \<open>buf = l @ us\<close> cl by (simp add: frame_Some_iff)
      with assms show False by simp
    qed
  qed
qed

lemma frame_keeps_buffer: "frame buf = (r, b) \<Longrightarrow> (\<And>l. r \<noteq> Inr (Some l)) \<Longrightarrow> b = buf"
  by (auto simp: frame_def Let_def split: list.splits if_splits)

lemma next_line_shrinks:
  "next_line d = (Inr (Some l), d') \<Longrightarrow> length (buffer d') < length (buffer d)"
  by (auto simp: next_line_frame frame_Some_iff split: prod.splits)

section \<open>The read loop\<close>

text \<open>
  The framing part of the connection loop (\<^verbatim>\<open>server/run.rs\<close>): lines are taken from the decoder
  until it wants more input, then one read is fed to it; an error ends the loop.
\<close>

function drain :: "LineDecoder \<Rightarrow> bytes list \<times> (LineError + LineDecoder)" where
  "drain d =
     (case next_line d of
        (Inr (Some l), d') \<Rightarrow> (let (ls, r) = drain d' in (l # ls, r))
      | (Inr None, d') \<Rightarrow> ([], Inr d')
      | (Inl e, _) \<Rightarrow> ([], Inl e))"
  by pat_completeness auto
termination
  by (relation "measure (\<lambda>d. length (buffer d))") (auto dest: next_line_shrinks [OF sym])

declare drain.simps [simp del]

fun decode_reads :: "LineDecoder \<Rightarrow> bytes list \<Rightarrow> bytes list \<times> (LineError + LineDecoder)" where
  "decode_reads d [] = drain d"
| "decode_reads d (c # cs) =
     (case drain d of
        (ls, Inl e) \<Rightarrow> (ls, Inl e)
      | (ls, Inr d') \<Rightarrow> (let (ls', r) = decode_reads (feed d' c) cs in (ls @ ls', r)))"


lemma drain_Some: "next_line d = (Inr (Some l), d') \<Longrightarrow> drain d = (l # fst (drain d'), snd (drain d'))"
  by (simp add: drain.simps [of d] split: prod.splits)

lemma drain_None: "next_line d = (Inr None, d') \<Longrightarrow> drain d = ([], Inr d')"
  by (simp add: drain.simps [of d])

lemma drain_Err: "next_line d = (Inl e, d') \<Longrightarrow> drain d = ([], Inl e)"
  by (simp add: drain.simps [of d])

lemma next_line_cases:
  obtains (line) l d' where "next_line d = (Inr (Some l), d')"
      "buffer d = l @ CR # LF # buffer d'" "clean_line l"
  | (wait) "next_line d = (Inr None, d)" "frame (buffer d) = (Inr None, buffer d)"
  | (err) e where "next_line d = (Inl e, d)" "frame (buffer d) = (Inl e, buffer d)"
proof -
  obtain r b where f: "frame (buffer d) = (r, b)" by (cases "frame (buffer d)")
  then have n: "next_line d = (r, d\<lparr>buffer := b\<rparr>)" by (simp add: next_line_frame)
  show ?thesis
  proof (cases r)
    case (Inl e)
    with f have "b = buffer d" using frame_keeps_buffer [of "buffer d" r b] by simp
    with Inl n f err show ?thesis by simp
  next
    case (Inr o')
    show ?thesis
    proof (cases o')
      case None
      with f Inr have "b = buffer d" using frame_keeps_buffer [of "buffer d" r b] by simp
      with Inr None n f wait show ?thesis by simp
    next
      case (Some l)
      with f Inr have "buffer d = l @ CR # LF # b \<and> clean_line l"
        by (simp add: frame_Some_iff)
      with Inr Some n line [of l "d\<lparr>buffer := b\<rparr>"] show ?thesis by simp
    qed
  qed
qed

lemma next_line_feed_line:
  assumes "next_line d = (Inr (Some l), d')"
  shows "next_line (feed d c) = (Inr (Some l), feed d' c)"
proof -
  have b: "buffer d = l @ CR # LF # buffer d'" and cl: "clean_line l"
    and d': "d' = d\<lparr>buffer := buffer d'\<rparr>"
    using assms by (auto simp: next_line_frame frame_Some_iff split: prod.splits)
  from b cl have "frame (buffer (feed d c)) = (Inr (Some l), buffer d' @ c)"
    by (simp add: frame_Some_iff feed_def)
  with d' show ?thesis
    by (simp add: next_line_frame feed_def)
qed

lemma drain_feed_Inr:
  "drain d = (ls, Inr d') \<Longrightarrow>
   drain (feed d c) = (ls @ fst (drain (feed d' c)), snd (drain (feed d' c)))"
proof (induction d arbitrary: ls rule: drain.induct)
  case (1 d)
  show ?case
  proof (cases rule: next_line_cases [of d])
    case (line l d1)
    with "1.prems" obtain ls1 where ls: "ls = l # ls1" and d1: "drain d1 = (ls1, Inr d')"
      by (cases "drain d1") (auto simp: drain_Some)
    from "1.IH" [OF line(1) [symmetric] refl refl d1]
    show ?thesis
      using drain_Some [OF next_line_feed_line [OF line(1), of c]] ls by simp
  next
    case wait
    with "1.prems" have "ls = [] \<and> d' = d" by (simp add: drain_None)
    then show ?thesis by simp
  next
    case (err e)
    with "1.prems" show ?thesis by (simp add: drain_Err)
  qed
qed

lemma drain_feed_Inl: "drain d = (ls, Inl e) \<Longrightarrow> fst (drain (feed d c)) = ls"
proof (induction d arbitrary: ls rule: drain.induct)
  case (1 d)
  show ?case
  proof (cases rule: next_line_cases [of d])
    case (line l d1)
    with "1.prems" obtain ls1 where ls: "ls = l # ls1" and d1: "drain d1 = (ls1, Inl e)"
      by (cases "drain d1") (auto simp: drain_Some)
    from "1.IH" [OF line(1) [symmetric] refl refl d1]
    show ?thesis
      using drain_Some [OF next_line_feed_line [OF line(1), of c]] ls by simp
  next
    case wait
    with "1.prems" show ?thesis by (simp add: drain_None)
  next
    case (err e')
    with "1.prems" have "ls = []" by (simp add: drain_Err)
    moreover have "fst (drain (feed d c)) = []"
    proof (cases rule: next_line_cases [of "feed d c"])
      case (line l d1)
      then have "frame (buffer d @ c) = (Inr (Some l), buffer d1)"
        by (simp add: frame_Some_iff feed_def)
      with frame_error_no_line [OF err(2)] show ?thesis by blast
    qed (simp_all add: drain_None drain_Err)
    ultimately show ?thesis by simp
  qed
qed

lemma feed_feed [simp]: "feed (feed d a) b = feed d (a @ b)"
  by (simp add: feed_def)

lemma decode_reads_lines: "fst (decode_reads d cs) = fst (drain (feed d (concat cs)))"
proof (induction cs arbitrary: d)
  case Nil
  show ?case by (simp add: feed_def)
next
  case (Cons c cs)
  obtain ls r where dr: "drain d = (ls, r)" by (cases "drain d")
  show ?case
  proof (cases r)
    case (Inl e)
    with dr show ?thesis by (simp add: drain_feed_Inl)
  next
    case (Inr d')
    with dr have "drain (feed d (c @ concat cs)) =
        (ls @ fst (drain (feed d' (c @ concat cs))), snd (drain (feed d' (c @ concat cs))))"
      by (simp add: drain_feed_Inr)
    with dr Inr Cons.IH [of "feed d' c"] show ?thesis
      by (cases "decode_reads (feed d' c) cs") simp
  qed
qed

lemma decode_reads_ok:
  "snd (decode_reads d cs) = Inr d2 \<Longrightarrow> snd (drain (feed d (concat cs))) = Inr d2"
proof (induction cs arbitrary: d)
  case Nil
  then show ?case by (simp add: feed_def)
next
  case (Cons c cs)
  obtain ls r where dr: "drain d = (ls, r)" by (cases "drain d")
  show ?case
  proof (cases r)
    case (Inl e)
    with dr Cons.prems show ?thesis by simp
  next
    case (Inr d')
    with dr have "drain (feed d (c @ concat cs)) =
        (ls @ fst (drain (feed d' (c @ concat cs))), snd (drain (feed d' (c @ concat cs))))"
      by (simp add: drain_feed_Inr)
    with dr Inr Cons.IH [of "feed d' c"] Cons.prems show ?thesis
      by (cases "decode_reads (feed d' c) cs") simp
  qed
qed

lemma drain_sound:
  "drain d = (ls, Inr d') \<Longrightarrow>
     buffer d = concat (map (\<lambda>l. l @ crlf) ls) @ buffer d' \<and> list_all clean_line ls"
proof (induction d arbitrary: ls rule: drain.induct)
  case (1 d)
  show ?case
  proof (cases rule: next_line_cases [of d])
    case (line l d1)
    with "1.prems" obtain ls1 where ls: "ls = l # ls1" and d1: "drain d1 = (ls1, Inr d')"
      by (cases "drain d1") (auto simp: drain_Some)
    from "1.IH" [OF line(1) [symmetric] refl refl d1] line ls show ?thesis
      by (simp add: crlf_def)
  next
    case wait
    with "1.prems" show ?thesis by (simp add: drain_None)
  next
    case (err e)
    with "1.prems" show ?thesis by (simp add: drain_Err)
  qed
qed

lemma drain_complete:
  "list_all clean_line ls \<Longrightarrow> frame (buffer d') = (Inr None, buffer d') \<Longrightarrow>
   buffer d = concat (map (\<lambda>l. l @ crlf) ls) @ buffer d' \<Longrightarrow> drain d = (ls, Inr d')"
proof (induction ls arbitrary: d)
  case Nil
  then have "buffer d = buffer d'" by simp
  then have "d = d'" by simp
  with Nil(2) show ?case by (intro drain_None) (simp add: next_line_frame)
next
  case (Cons l ls)
  let ?d1 = "d\<lparr>buffer := concat (map (\<lambda>l. l @ crlf) ls) @ buffer d'\<rparr>"
  from Cons.prems have "frame (buffer d) = (Inr (Some l), buffer ?d1)"
    by (simp add: frame_Some_iff crlf_def)
  then have "next_line d = (Inr (Some l), ?d1)" by (simp add: next_line_frame)
  moreover from Cons have "drain ?d1 = (ls, Inr d')" by simp
  ultimately show ?case by (simp add: drain_Some)
qed

lemma drain_new [simp]: "drain new_decoder = ([], Inr new_decoder)"
  by (rule drain_complete) (simp_all add: new_decoder_def frame_def MAX_LINE_LENGTH_def)

lemma decode_reads_single: "decode_reads new_decoder [c] = drain (feed new_decoder c)"
  by simp

lemma error_no_clean_stream:
  assumes "drain d = (ls', Inl e)" and "list_all clean_line ls"
  shows "buffer d @ xs \<noteq> concat (map (\<lambda>l. l @ crlf) ls)"
proof
  assume eq: "buffer d @ xs = concat (map (\<lambda>l. l @ crlf) ls)"
  let ?d = "feed d xs"
  have dr: "drain ?d = (ls, Inr new_decoder)"
    using assms(2) eq
    by (intro drain_complete) (simp_all add: feed_def new_decoder_def frame_def MAX_LINE_LENGTH_def)
  show False
    using assms eq
  proof (induction d arbitrary: ls ls' rule: drain.induct)
    case (1 d)
    show ?case
    proof (cases rule: next_line_cases [of d])
      case (line l d1)
      then obtain ls1 where d1: "drain d1 = (ls1, Inl e)"
        using "1.prems"(1) by (cases "drain d1") (auto simp: drain_Some)
      from line "1.prems" obtain l2 ls2 where ls: "ls = l2 # ls2" by (cases ls) auto
      have "frame (buffer d @ xs) = (Inr (Some l), buffer d1 @ xs)"
        using line by (simp add: frame_Some_iff)
      moreover have "frame (buffer d @ xs) = (Inr (Some l2), concat (map (\<lambda>l. l @ crlf) ls2))"
        using "1.prems" ls by (simp add: frame_Some_iff crlf_def)
      ultimately have "buffer d1 @ xs = concat (map (\<lambda>l. l @ crlf) ls2)" by simp
      with "1.IH" [OF line(1) [symmetric] refl refl d1, of ls2] "1.prems"(2) ls show ?thesis by simp
    next
      case wait
      with "1.prems" show ?thesis by (simp add: drain_None)
    next
      case (err e')
      show ?thesis
      proof (cases ls)
        case Nil
        with "1.prems" err show ?thesis
          by (simp add: frame_def MAX_LINE_LENGTH_def)
      next
        case (Cons l2 ls2)
        with "1.prems" have "frame (buffer d @ xs) = (Inr (Some l2), concat (map (\<lambda>l. l @ crlf) ls2))"
          by (simp add: frame_Some_iff crlf_def)
        with frame_error_no_line [OF err(2)] show ?thesis by blast
      qed
    qed
  qed
qed

lemma decode_reads_no_error:
  assumes "list_all clean_line ls" and "buffer d @ concat cs = concat (map (\<lambda>l. l @ crlf) ls)"
  shows "\<exists>d'. snd (decode_reads d cs) = Inr d'"
  using assms
proof (induction cs arbitrary: d ls)
  case Nil
  then show ?case
    using error_no_clean_stream [of d _ _ ls "[]"]
    by (cases "drain d"; cases "snd (drain d)") auto
next
  case (Cons c cs)
  obtain ls1 r where dr: "drain d = (ls1, r)" by (cases "drain d")
  show ?case
  proof (cases r)
    case (Inl e)
    with dr Cons.prems error_no_clean_stream [of d ls1 e ls "concat (c # cs)"] show ?thesis by simp
  next
    case (Inr d1)
    with dr have d: "buffer d = concat (map (\<lambda>l. l @ crlf) ls1) @ buffer d1" "list_all clean_line ls1"
      by (simp_all add: drain_sound)
    have "drain (feed d (concat (c # cs))) = (ls, Inr new_decoder)"
      using Cons.prems
      by (intro drain_complete) (simp_all add: feed_def new_decoder_def frame_def MAX_LINE_LENGTH_def)
    moreover have "drain (feed d (concat (c # cs))) =
        (ls1 @ fst (drain (feed d1 (concat (c # cs)))), snd (drain (feed d1 (concat (c # cs)))))"
      using dr Inr by (simp only: drain_feed_Inr)
    ultimately obtain ls2 where "drain (feed d1 (concat (c # cs))) = (ls2, Inr new_decoder)"
      by (metis prod.collapse prod.inject)
    then have "buffer d1 @ concat (c # cs) = concat (map (\<lambda>l. l @ crlf) ls2)" "list_all clean_line ls2"
      using drain_sound by (fastforce simp: feed_def new_decoder_def)+
    then obtain d2 where "snd (decode_reads (feed d1 c) cs) = Inr d2"
      using Cons.IH [of ls2 "feed d1 c"] by (auto simp: feed_def)
    with dr Inr show ?thesis
      by (cases "decode_reads (feed d1 c) cs") simp
  qed
qed

section \<open>Properties\<close>

text \<open>
  \<^verbatim>\<open>next_line\<close> returns a line exactly when the buffer starts with that line
  followed by CRLF and the line has no CR, LF or NUL octet and at most 998 octets; the decoder
  then keeps exactly what follows.
\<close>

lemma next_line_spec:
  "next_line d = (Inr (Some l), d') \<longleftrightarrow>
     buffer d = l @ crlf @ buffer d' \<and> list_all plain l \<and> length l \<le> 998"
proof
  assume "next_line d = (Inr (Some l), d')"
  then show "buffer d = l @ crlf @ buffer d' \<and> list_all plain l \<and> length l \<le> 998"
    by (cases rule: next_line_cases [of d])
       (simp_all add: crlf_def clean_line_def MAX_LINE_LENGTH_def)
next
  assume "buffer d = l @ crlf @ buffer d' \<and> list_all plain l \<and> length l \<le> 998"
  then have "frame (buffer d) = (Inr (Some l), buffer d')"
    by (simp add: frame_Some_iff crlf_def clean_line_def MAX_LINE_LENGTH_def)
  then show "next_line d = (Inr (Some l), d')"
    by (simp add: next_line_frame)
qed

text \<open>
  C20 (no framing ambiguity). The lines the read loop hands out do not depend on how the peer's
  octets were cut into reads; and when the reads caused no error, one read with all the octets
  causes none either and leaves the same octets in the decoder.
\<close>

theorem decode_reads_chunking:
  "fst (decode_reads new_decoder chunks) = fst (decode_reads new_decoder [concat chunks]) \<and>
   (\<forall>d. snd (decode_reads new_decoder chunks) = Inr d \<longrightarrow>
        snd (decode_reads new_decoder [concat chunks]) = Inr d)"
  by (simp add: decode_reads_lines [of new_decoder chunks] decode_reads_ok)

theorem decode_reads_chunking_witness:
  "snd (decode_reads new_decoder [''NOOP'' @ [CR], [LF] @ ''QU'']) = Inr \<lparr>buffer = ''QU''\<rparr> \<and>
   snd (decode_reads new_decoder [''NOOP'' @ [CR] @ [LF] @ ''QU'']) = Inr \<lparr>buffer = ''QU''\<rparr>"
proof -
  have h: "snd (decode_reads new_decoder [''NOOP'' @ [CR], [LF] @ ''QU'']) = Inr \<lparr>buffer = ''QU''\<rparr>"
    by code_simp
  with decode_reads_chunking [of "[''NOOP'' @ [CR], [LF] @ ''QU'']"] show ?thesis by simp
qed

text \<open>
  A stream made of lines free of CR, LF and NUL and at most 998 octets long,
  each ended by CRLF, is decoded to exactly those lines, with nothing left over, whatever the
  sizes of the reads it arrives in.
\<close>

lemma decode_reads_roundtrip:
  assumes "\<forall>l \<in> set ls. list_all plain l \<and> length l \<le> 998"
    and "concat chunks = concat (map (\<lambda>l. l @ crlf) ls)"
  shows "decode_reads new_decoder chunks = (ls, Inr new_decoder)"
proof -
  have cl: "list_all clean_line ls"
    using assms(1) by (simp add: list_all_iff clean_line_def MAX_LINE_LENGTH_def)
  have one: "drain (feed new_decoder (concat chunks)) = (ls, Inr new_decoder)"
    using cl assms(2)
    by (intro drain_complete) (simp_all add: feed_def new_decoder_def frame_def MAX_LINE_LENGTH_def)
  have "\<exists>d. snd (decode_reads new_decoder chunks) = Inr d"
    using decode_reads_no_error [OF cl, of new_decoder chunks] assms(2)
    by (simp add: new_decoder_def)
  with one decode_reads_lines [of new_decoder chunks] decode_reads_ok [of new_decoder chunks]
  show ?thesis by (metis prod.collapse fst_conv snd_conv)
qed

end
