(* ===== verification/Smtp_Reply.thy ===== *)
theory Smtp_Reply
  imports Line_Framing
begin

text \<open>
  SMTP replies (\<^verbatim>\<open>src/src/smtp/reply.rs\<close>): the reply value, its constructors with their
  assertions, and the wire rendering. The lemmas relate the rendering to CRLF framing.
\<close>

record Reply =
  reply_code :: nat
  reply_lines :: "str list"

text \<open>\<^verbatim>\<open>Reply::new\<close>; \<open>None\<close> is the panic of its two assertions.\<close>

definition new_reply :: "nat \<Rightarrow> str list \<Rightarrow> Reply option" where
  "new_reply c ls =
     (if \<not> (200 \<le> c \<and> c \<le> 599) then None
      else if ls = [] then None
      else Some \<lparr>reply_code = c, reply_lines = ls\<rparr>)"

text \<open>A reply that \<^verbatim>\<open>Reply::new\<close> builds without a panic.\<close>

definition reply_ok :: "Reply \<Rightarrow> bool" where
  "reply_ok r \<longleftrightarrow> new_reply (reply_code r) (reply_lines r) = Some r"

text \<open>
  \<^verbatim>\<open>Reply::single\<close> and the multi-line replies are written as the value they build; that none of
  the replies of the program trips an assertion is a theorem about the code that builds them.
\<close>

definition multi :: "nat \<Rightarrow> str list \<Rightarrow> Reply" where
  "multi c ls = \<lparr>reply_code = c, reply_lines = ls\<rparr>"

definition single :: "nat \<Rightarrow> str \<Rightarrow> Reply" where
  "single c text = multi c [text]"

definition is_positive :: "Reply \<Rightarrow> bool" where
  "is_positive r \<longleftrightarrow> 200 \<le> reply_code r \<and> reply_code r < 400"

text \<open>\<^verbatim>\<open>Display\<close>: every line but the last has the hyphen.\<close>

fun render_lines :: "nat \<Rightarrow> str list \<Rightarrow> str" where
  "render_lines c [] = []"
| "render_lines c (l # ls) =
     show_nat c @ (if ls = [] then CHR '' '' else CHR ''-'') # l @ crlf @ render_lines c ls"

definition reply_to_string :: "Reply \<Rightarrow> str" where
  "reply_to_string r = render_lines (reply_code r) (reply_lines r)"

section \<open>The frequently used replies\<close>

definition reply_ok250 :: Reply where
  "reply_ok250 = single 250 ''2.0.0 ok''"

definition reply_closing :: Reply where
  "reply_closing = single 221 ''2.0.0 closing connection''"

definition syntax_error :: Reply where
  "syntax_error = single 500 ''5.5.2 syntax error''"

definition invalid_arguments :: Reply where
  "invalid_arguments = single 501 ''5.5.4 invalid arguments''"

definition bad_sequence :: Reply where
  "bad_sequence = single 503 ''5.5.1 bad sequence of commands''"

definition vrfy_not_disclosed :: Reply where
  "vrfy_not_disclosed = single 252 ''2.1.5 cannot verify, send some mail and find out''"

definition start_mail_input :: Reply where
  "start_mail_input = single 354 ''start mail input, end with <CRLF>.<CRLF>''"

lemmas reply_defs = reply_ok250_def reply_closing_def syntax_error_def invalid_arguments_def
  bad_sequence_def vrfy_not_disclosed_def start_mail_input_def single_def multi_def

section \<open>Rendering and framing\<close>

fun wire_lines :: "nat \<Rightarrow> str list \<Rightarrow> str list" where
  "wire_lines c [] = []"
| "wire_lines c (l # ls) =
     (show_nat c @ (if ls = [] then CHR '' '' else CHR ''-'') # l) # wire_lines c ls"

lemma render_lines_wire: "render_lines c ls = concat (map (\<lambda>l. l @ crlf) (wire_lines c ls))"
  by (induction ls) simp_all

lemma reply_ok_iff: "reply_ok r \<longleftrightarrow> 200 \<le> reply_code r \<and> reply_code r \<le> 599 \<and> reply_lines r \<noteq> []"
  by (cases r) (auto simp: reply_ok_def new_reply_def)

lemma single_simps [simp]:
  "reply_code (single c t) = c" "reply_lines (single c t) = [t]"
  "reply_code (multi c ls) = c" "reply_lines (multi c ls) = ls"
  by (simp_all add: single_def multi_def)

lemma plain_graphic: "graphic c \<Longrightarrow> plain c"
  by (auto simp: graphic_def plain_def char_eq_code_iff simp del: of_char_eq_iff)

lemma show_nat_plain: "list_all plain (show_nat n)"
  using show_nat_graphic [of n] by (auto simp: list_all_iff plain_graphic)

lemma wire_lines_plain:
  "list_all (list_all plain) ls \<Longrightarrow> list_all (list_all plain) (wire_lines c ls)"
  by (induction ls) (simp_all add: show_nat_plain plain_def)

end
