(* ===== verification/Net_Cidr.thy ===== *)
theory Net_Cidr
  imports Rust_Prelude "HOL-Library.Word"
begin

text \<open>
  IP addresses and CIDR blocks (\<^verbatim>\<open>src/src/cidr.rs\<close>). The address parser is the one of
  \<^verbatim>\<open>std::net\<close>, which the module calls: dotted decimal IPv4 without leading zeros, and the IPv6 text
  form with one \<^verbatim>\<open>::\<close> and an optional IPv4 tail.
\<close>

unbundle bit_operations_syntax

section \<open>Addresses and their text form\<close>

datatype IpAddr = V4 "32 word" | V6 "128 word"

definition hex_value :: "char \<Rightarrow> nat option" where
  "hex_value c =
     (if is_ascii_digit c then Some (code c - 48)
      else if 97 \<le> code c \<and> code c \<le> 102 then Some (code c - 87)
      else if 65 \<le> code c \<and> code c \<le> 70 then Some (code c - 55)
      else None)"

definition to_digit :: "nat \<Rightarrow> char \<Rightarrow> nat option" where
  "to_digit radix c =
     (case hex_value c of None \<Rightarrow> None | Some d \<Rightarrow> if d < radix then Some d else None)"

text \<open>\<open>read_number\<close> reads digits while there are any; more than \<open>digits\<close> digits, or a value past
  \<open>bound\<close>, fails.\<close>

fun read_digits :: "nat \<Rightarrow> nat \<Rightarrow> str \<Rightarrow> (nat \<times> nat \<times> str)" where
  "read_digits radix acc [] = (acc, 0, [])"
| "read_digits radix acc (c # s) =
     (case to_digit radix c of
        None \<Rightarrow> (acc, 0, c # s)
      | Some d \<Rightarrow> let (v, n, rest) = read_digits radix (acc * radix + d) s in (v, Suc n, rest))"

definition read_number :: "nat \<Rightarrow> nat \<Rightarrow> bool \<Rightarrow> nat \<Rightarrow> str \<Rightarrow> (nat \<times> str) option" where
  "read_number radix digits zero_prefix bound s =
     (let (v, n, rest) = read_digits radix 0 s in
      if n = 0 \<or> digits < n \<or> bound \<le> v then None
      else if \<not> zero_prefix \<and> starts_with ''0'' s \<and> 1 < n then None
      else Some (v, rest))"

definition read_sep :: "str \<Rightarrow> nat \<Rightarrow> (str \<Rightarrow> ('a \<times> str) option) \<Rightarrow> str \<Rightarrow> ('a \<times> str) option" where
  "read_sep sep i inner s =
     (if i = 0 then inner s
      else case strip_prefix sep s of None \<Rightarrow> None | Some rest \<Rightarrow> inner rest)"

definition read_octet :: "nat \<Rightarrow> str \<Rightarrow> (nat \<times> str) option" where
  "read_octet i = read_sep ''.'' i (read_number 10 3 False 256)"

definition read_ipv4 :: "str \<Rightarrow> (nat \<times> str) option" where
  "read_ipv4 s =
     Option.bind (read_octet 0 s) (\<lambda>(a, s1).
     Option.bind (read_octet 1 s1) (\<lambda>(b, s2).
     Option.bind (read_octet 2 s2) (\<lambda>(c, s3).
     Option.bind (read_octet 3 s3) (\<lambda>(d, s4).
       Some (((a * 256 + b) * 256 + c) * 256 + d, s4)))))"

text \<open>\<open>read_groups i limit\<close> reads up to \<open>limit\<close> groups of 16 bits, the group index starting at
  \<open>i\<close>; the flag tells that an IPv4 tail ended the reading.\<close>

function read_groups :: "nat \<Rightarrow> nat \<Rightarrow> str \<Rightarrow> nat list \<times> bool \<times> str" where
  "read_groups i limit s =
     (if limit \<le> i then ([], False, s)
      else
        (case (if i + 1 < limit then read_sep '':'' i read_ipv4 s else None) of
           Some (v, rest) \<Rightarrow> ([v div 65536, v mod 65536], True, rest)
         | None \<Rightarrow>
             (case read_sep '':'' i (read_number 16 4 True 65536) s of
                None \<Rightarrow> ([], False, s)
              | Some (g, rest) \<Rightarrow>
                  let (gs, v4, rest') = read_groups (Suc i) limit rest in (g # gs, v4, rest'))))"
  by pat_completeness auto
termination by (relation "measure (\<lambda>(i, limit, s). limit - i)") auto

declare read_groups.simps [simp del]

definition groups_value :: "nat list \<Rightarrow> nat" where
  "groups_value = foldl (\<lambda>acc g. acc * 65536 + g) 0"

definition read_ipv6 :: "str \<Rightarrow> (nat \<times> str) option" where
  "read_ipv6 s =
     (let (head, v4, rest) = read_groups 0 8 s in
      if length head = 8 then Some (groups_value head, rest)
      else if v4 then None
      else case strip_prefix ''::'' rest of
             None \<Rightarrow> None
           | Some rest1 \<Rightarrow>
               let (tail, _, rest2) = read_groups 0 (8 - (length head + 1)) rest1
               in Some (groups_value (head @ replicate (8 - length head - length tail) 0 @ tail), rest2))"

definition parse_ip :: "str \<Rightarrow> IpAddr option" where
  "parse_ip s =
     (case read_ipv4 s of
        Some (v, rest) \<Rightarrow> if rest = [] then Some (V4 (of_nat v)) else None
      | None \<Rightarrow>
          (case read_ipv6 s of
             Some (v, rest) \<Rightarrow> if rest = [] then Some (V6 (of_nat v)) else None
           | None \<Rightarrow> None))"

section \<open>CIDR blocks\<close>

record Cidr =
  cidr_base :: IpAddr
  cidr_prefix :: nat

definition apply_mask_u128 :: "128 word \<Rightarrow> nat \<Rightarrow> nat \<Rightarrow> 128 word" where
  "apply_mask_u128 v prefix width =
     (if prefix = 0 then 0
      else if width \<le> prefix then v
      else let host_bits = width - prefix; netmask = push_bit host_bits (- 1) in v AND netmask)"

definition mask_addr :: "IpAddr \<Rightarrow> nat \<Rightarrow> IpAddr" where
  "mask_addr addr prefix =
     (case addr of
        V4 bits \<Rightarrow> V4 (ucast (apply_mask_u128 (ucast bits) prefix 32))
      | V6 bits \<Rightarrow> V6 (apply_mask_u128 bits prefix 128))"

definition ip_width :: "IpAddr \<Rightarrow> nat" where
  "ip_width addr = (case addr of V4 _ \<Rightarrow> 32 | V6 _ \<Rightarrow> 128)"

definition parse_cidr :: "str \<Rightarrow> Cidr option" where
  "parse_cidr spec0 =
     (let spec = trim spec0;
          (addr_part, prefix_part) =
            (case split_once (CHR ''/'') spec of Some (a, p) \<Rightarrow> (a, Some p) | None \<Rightarrow> (spec, None)) in
      Option.bind (parse_ip addr_part) (\<lambda>addr.
      let maximum = ip_width addr in
      Option.bind
        (case prefix_part of
           Some text \<Rightarrow>
             Option.bind (parse_unsigned 8 text) (\<lambda>v. if maximum < v then None else Some v)
         | None \<Rightarrow> Some maximum) (\<lambda>prefix.
      Some \<lparr>cidr_base = mask_addr addr prefix, cidr_prefix = prefix\<rparr>)))"

definition cidr_contains :: "Cidr \<Rightarrow> IpAddr \<Rightarrow> bool" where
  "cidr_contains c ip =
     (case (cidr_base c, ip) of
        (V4 _, V4 _) \<Rightarrow> mask_addr ip (cidr_prefix c) = cidr_base c
      | (V6 _, V6 _) \<Rightarrow> mask_addr ip (cidr_prefix c) = cidr_base c
      | _ \<Rightarrow> False)"

section \<open>Containment is agreement on the prefix bits\<close>

definition same_network :: "nat \<Rightarrow> IpAddr \<Rightarrow> IpAddr \<Rightarrow> bool" where
  "same_network p a b =
     (case (a, b) of
        (V4 x, V4 y) \<Rightarrow> drop_bit (32 - p) x = drop_bit (32 - p) y
      | (V6 x, V6 y) \<Rightarrow> drop_bit (128 - p) x = drop_bit (128 - p) y
      | _ \<Rightarrow> False)"

lemma bit_apply_mask:
  assumes "p \<le> w" "w \<le> 128"
  shows "bit (apply_mask_u128 v p w) n \<longleftrightarrow> bit v n \<and> 0 < p \<and> w - p \<le> n"
  using assms
  by (auto simp: apply_mask_u128_def Let_def bit_simps dest: bit_imp_le_length)


lemma bit_mask_v4:
  "p \<le> 32 \<Longrightarrow> bit (ucast (apply_mask_u128 (ucast (x :: 32 word)) p 32) :: 32 word) n
     \<longleftrightarrow> bit x n \<and> 32 - p \<le> n"
  using bit_imp_le_length [of x n] by (auto simp: bit_apply_mask bit_simps)

lemma bit_mask_v6:
  "p \<le> 128 \<Longrightarrow> bit (apply_mask_u128 x p 128) n \<longleftrightarrow> bit x n \<and> 128 - p \<le> n"
  using bit_imp_le_length [of x n] by (auto simp: bit_apply_mask)

text \<open>Two words agree on the bits from \<open>k\<close> up exactly when they agree after dropping the lower
  ones.\<close>

lemma drop_bit_eq_iff:
  fixes x y :: "'a::len word"
  shows "drop_bit k x = drop_bit k y \<longleftrightarrow> (\<forall>n \<ge> k. bit x n = bit y n)"
proof
  assume eq: "drop_bit k x = drop_bit k y"
  show "\<forall>n \<ge> k. bit x n = bit y n"
  proof (intro allI impI)
    fix n assume "k \<le> n"
    then show "bit x n = bit y n"
      using arg_cong [OF eq, of "\<lambda>z. bit z (n - k)"] by (simp add: bit_drop_bit_eq)
  qed
next
  assume "\<forall>n \<ge> k. bit x n = bit y n"
  then show "drop_bit k x = drop_bit k y"
    by (intro bit_eqI) (simp add: bit_drop_bit_eq)
qed

lemma mask_eq_iff:
  fixes x y mx my :: "'a::len word"
  assumes "\<And>n. bit mx n \<longleftrightarrow> bit x n \<and> k \<le> n" and "\<And>n. bit my n \<longleftrightarrow> bit y n \<and> k \<le> n"
  shows "mx = my \<longleftrightarrow> drop_bit k x = drop_bit k y"
proof -
  have "mx = my \<longleftrightarrow> (\<forall>n. (bit x n \<and> k \<le> n) = (bit y n \<and> k \<le> n))"
    using assms bit_word_eqI [of mx my] by metis
  then show ?thesis
    unfolding drop_bit_eq_iff by blast
qed

lemma mask_addr_eq_iff:
  "p \<le> ip_width a \<Longrightarrow> ip_width a = ip_width b \<Longrightarrow>
     mask_addr a p = mask_addr b p \<longleftrightarrow> same_network p a b"
  using mask_eq_iff [OF bit_mask_v4 [of p] bit_mask_v4 [of p]]
    mask_eq_iff [OF bit_mask_v6 [of p] bit_mask_v6 [of p]]
  by (cases a; cases b) (simp_all add: mask_addr_def same_network_def ip_width_def)

lemma cidr_contains_masked:
  assumes "p \<le> ip_width a" "c = \<lparr>cidr_base = mask_addr a p, cidr_prefix = p\<rparr>"
  shows "cidr_contains c ip \<longleftrightarrow> same_network p a ip"
proof (cases "ip_width a = ip_width ip")
  case True
  then show ?thesis
    using mask_addr_eq_iff [OF assms(1) True] assms(2)
    by (cases a; cases ip) (auto simp: cidr_contains_def mask_addr_def ip_width_def)
next
  case False
  then show ?thesis
    using assms(2)
    by (cases a; cases ip) (auto simp: cidr_contains_def mask_addr_def ip_width_def same_network_def)
qed

lemma parse_cidr_SomeD:
  assumes "parse_cidr spec = Some c"
  shows "\<exists>a p. parse_ip (takeWhile (\<lambda>x. x \<noteq> CHR ''/'') (trim spec)) = Some a \<and> p \<le> ip_width a
    \<and> c = \<lparr>cidr_base = mask_addr a p, cidr_prefix = p\<rparr>"
proof (cases "split_once (CHR ''/'') (trim spec)")
  case None
  then have "CHR ''/'' \<notin> set (trim spec)"
    by (simp only: split_once_None_iff simp_thms)
  then have t: "takeWhile (\<lambda>x. x \<noteq> CHR ''/'') (trim spec) = trim spec"
    by (intro takeWhile_eq_all_conv [THEN iffD2]) blast
  obtain a where "parse_ip (trim spec) = Some a"
    and "c = \<lparr>cidr_base = mask_addr a (ip_width a), cidr_prefix = ip_width a\<rparr>"
    using assms None unfolding parse_cidr_def
    by (cases "parse_ip (trim spec)") (simp_all add: Let_def)
  then show ?thesis
    unfolding t by blast
next
  case (Some ap)
  obtain a0 p0 where ap: "ap = (a0, p0)" by fastforce
  have t: "takeWhile (\<lambda>x. x \<noteq> CHR ''/'') (trim spec) = a0"
    using Some unfolding ap split_once_def by (simp split: list.splits)
  obtain a where a: "parse_ip a0 = Some a"
    using assms Some ap by (cases "parse_ip a0") (simp_all add: parse_cidr_def Let_def)
  obtain p where "parse_unsigned 8 p0 = Some p" "p \<le> ip_width a"
    and "c = \<lparr>cidr_base = mask_addr a p, cidr_prefix = p\<rparr>"
    using assms Some ap a
    by (cases "parse_unsigned 8 p0") (simp_all add: parse_cidr_def Let_def split: if_splits)
  then show ?thesis
    unfolding t using a by blast
qed

text \<open>A CIDR allowlist admits exactly its network: when a specification is accepted, its
  address part parses to some address and its prefix length is at most the width of that address,
  and an address is contained exactly when it is of the same family and agrees with the parsed
  address on all bits of the prefix (the host bits of the specification do not matter).\<close>

lemma cidr_contains_network:
  assumes "parse_cidr spec = Some c"
  shows "\<exists>a. parse_ip (takeWhile (\<lambda>x. x \<noteq> CHR ''/'') (trim spec)) = Some a
    \<and> cidr_prefix c \<le> ip_width a \<and> (\<forall>ip. cidr_contains c ip \<longleftrightarrow> same_network (cidr_prefix c) a ip)"
proof -
  obtain a p where ap: "parse_ip (takeWhile (\<lambda>x. x \<noteq> CHR ''/'') (trim spec)) = Some a" "p \<le> ip_width a"
    and c: "c = \<lparr>cidr_base = mask_addr a p, cidr_prefix = p\<rparr>"
    using parse_cidr_SomeD [OF assms] by blast
  show ?thesis
    using ap cidr_contains_masked [OF ap(2) c] by (auto simp: c)
qed

lemmas ip_eval = read_ipv4_def read_octet_def read_number_def read_sep_def to_digit_def
  hex_value_def is_ascii_digit_def starts_with_def

lemma parse_cidr_sample:
  "parse_cidr '' 203.0.113.9/24'' = Some \<lparr>cidr_base = V4 0xCB007100, cidr_prefix = 24\<rparr>"
proof -
  have "trim '' 203.0.113.9/24'' = ''203.0.113.9/24''"
    and "mask_addr (V4 0xCB007109) 24 = V4 0xCB007100"
    by code_simp+
  moreover have "parse_ip ''203.0.113.9'' = Some (V4 0xCB007109)"
    by (simp add: ip_eval parse_ip_def)
  ultimately show ?thesis
    by (simp add: parse_cidr_def Let_def split_once_def parse_unsigned_def is_ascii_digit_def
        digits_value_def digit_value_def ip_width_def)
qed

end
