(* ===== verification/Ip_Text.thy ===== *)
theory Ip_Text
  imports Net_Cidr
begin

text \<open>
  How the standard library prints IP addresses, the DNS lookups the mail checks make
  (the trait \<^verbatim>\<open>DnsLookup\<close> of \<^verbatim>\<open>src/src/spf/dns.rs\<close>, a parameter of what uses it), and DNS blocklist
  screening (\<^verbatim>\<open>src/src/dnsbl/mod.rs\<close>).
\<close>

section \<open>Printing addresses\<close>

definition v4_octets :: "32 word \<Rightarrow> nat list" where
  "v4_octets w = map (\<lambda>k. unat (take_bit 8 (drop_bit k w))) [24, 16, 8, 0]"

definition v6_octets :: "128 word \<Rightarrow> nat list" where
  "v6_octets w = map (\<lambda>k. unat (take_bit 8 (drop_bit (8 * k) w))) (rev [0..<16])"

definition v6_segments :: "128 word \<Rightarrow> nat list" where
  "v6_segments w = map (\<lambda>k. unat (take_bit 16 (drop_bit (16 * k) w))) (rev [0..<8])"

definition hex_digit :: "nat \<Rightarrow> char" where
  "hex_digit n = (if n < 10 then char_of (48 + n) else char_of (87 + n))"

fun show_hex :: "nat \<Rightarrow> str" where
  "show_hex n = (if n < 16 then [hex_digit n] else show_hex (n div 16) @ [hex_digit (n mod 16)])"

declare show_hex.simps [simp del]

definition show_v4 :: "32 word \<Rightarrow> str" where
  "show_v4 w = join ''.'' (map show_nat (v4_octets w))"

text \<open>The longest run of zero segments, the first one among equals: start and length.\<close>

fun zero_run :: "nat \<Rightarrow> nat list \<Rightarrow> nat \<times> nat \<Rightarrow> nat \<times> nat \<Rightarrow> nat \<times> nat" where
  "zero_run i [] current longest = longest"
| "zero_run i (s # ss) current longest =
     (if s = 0 then
        (let cur = (if snd current = 0 then i else fst current, snd current + 1);
             lng = (if snd cur > snd longest then cur else longest)
         in zero_run (i + 1) ss cur lng)
      else zero_run (i + 1) ss (0, 0) longest)"

definition show_v6 :: "128 word \<Rightarrow> str" where
  "show_v6 w =
     (let segs = v6_segments w in
      if take 6 segs = [0, 0, 0, 0, 0, 0xffff] then ''::ffff:'' @ show_v4 (ucast w)
      else
        (let (start, len) = zero_run 0 segs (0, 0) (0, 0) in
         if len > 1 then
           join '':'' (map show_hex (take start segs)) @ ''::'' @ join '':'' (map show_hex (drop (start + len) segs))
         else join '':'' (map show_hex segs)))"

definition show_ip :: "IpAddr \<Rightarrow> str" where
  "show_ip ip = (case ip of V4 w \<Rightarrow> show_v4 w | V6 w \<Rightarrow> show_v6 w)"

section \<open>DNS\<close>

text \<open>\<open>None\<close> is a temporary failure; names that do not exist have no records.\<close>

record dns =
  dns_txt :: "str \<Rightarrow> str list option"
  dns_addresses :: "str \<Rightarrow> IpAddr list option"
  dns_mx :: "str \<Rightarrow> str list option"

section \<open>Blocklists\<close>

datatype DnsblOutcome = NotListed | Listed str | Unavailable

type_synonym Dnsbl = "str list"

definition new_dnsbl :: "str list \<Rightarrow> Dnsbl" where
  "new_dnsbl zones = map to_ascii_lowercase zones"

definition dnsbl_is_empty :: "Dnsbl \<Rightarrow> bool" where
  "dnsbl_is_empty zones \<longleftrightarrow> zones = []"

definition reverse_ip :: "IpAddr \<Rightarrow> str" where
  "reverse_ip ip =
     (case ip of
        V4 w \<Rightarrow> join ''.'' (map show_nat (rev (v4_octets w)))
      | V6 w \<Rightarrow> join ''.'' (concat (map (\<lambda>b. [show_hex (b mod 16), show_hex (b div 16)]) (rev (v6_octets w)))))"

fun dnsbl_loop :: "dns \<Rightarrow> str \<Rightarrow> str list \<Rightarrow> bool \<Rightarrow> DnsblOutcome" where
  "dnsbl_loop D reversed [] any_error = (if any_error then Unavailable else NotListed)"
| "dnsbl_loop D reversed (zone # zones) any_error =
     (case dns_addresses D (reversed @ ''.'' @ zone) of
        Some addrs \<Rightarrow> if addrs \<noteq> [] then Listed zone else dnsbl_loop D reversed zones any_error
      | None \<Rightarrow> dnsbl_loop D reversed zones True)"

definition dnsbl_check :: "Dnsbl \<Rightarrow> IpAddr \<Rightarrow> dns \<Rightarrow> DnsblOutcome" where
  "dnsbl_check zones ip D = dnsbl_loop D (reverse_ip ip) zones False"

text \<open>The blocklist result: the first zone that answers with an address, and only when none does is a
  failed lookup visible.\<close>

definition answers :: "dns \<Rightarrow> str \<Rightarrow> bool" where
  "answers D q \<longleftrightarrow> (\<exists>a as. dns_addresses D q = Some (a # as))"

lemma dnsbl_loop_eq:
  "dnsbl_loop D r zones e =
     (case find (\<lambda>z. answers D (r @ ''.'' @ z)) zones of
        Some z \<Rightarrow> Listed z
      | None \<Rightarrow>
          if e \<or> list_ex (\<lambda>z. dns_addresses D (r @ ''.'' @ z) = None) zones then Unavailable else NotListed)"
proof (induction zones arbitrary: e)
  case (Cons z zones)
  then show ?case
    by (cases "dns_addresses D (r @ ''.'' @ z)") (auto simp: answers_def neq_Nil_conv split: option.splits)
qed simp

end
