(* ===== verification/Mail_Trace.thy ===== *)
theory Mail_Trace
  imports Clock Smtp_Reply Ip_Text
begin

text \<open>
  Trace headers (\<^verbatim>\<open>src/src/smtp/trace.rs\<close>): the reply to a framing error, the domain SPF checks,
  the hop count of the loop guard, and the \<^verbatim>\<open>Received\<close> and \<^verbatim>\<open>Authentication-Results\<close> headers.
\<close>

definition line_error_reply :: "LineError \<Rightarrow> Reply" where
  "line_error_reply e =
     (case e of
        BareControlCharacter \<Rightarrow> single 554 ''5.5.2 bare CR or LF is not allowed, closing connection''
      | TooLong \<Rightarrow> single 500 ''5.5.2 line too long, closing connection''
      | NulByte \<Rightarrow> single 554 ''5.5.2 NUL byte received, closing connection'')"

definition spf_domain :: "str \<Rightarrow> str option \<Rightarrow> str option" where
  "spf_domain rp helo =
     (if rp = [] then helo
      else map_option (\<lambda>(_, dm). to_ascii_lowercase dm) (rsplit_once (CHR ''@'') rp))"

definition RECEIVED_HOP_LIMIT :: nat where "RECEIVED_HOP_LIMIT = 100"

text \<open>\<^verbatim>\<open>split_inclusive\<close> on one character.\<close>

fun split_inclusive :: "char \<Rightarrow> str \<Rightarrow> str list" where
  "split_inclusive c [] = []"
| "split_inclusive c (x # xs) =
     (if x = c then [x] # split_inclusive c xs
      else (case split_inclusive c xs of [] \<Rightarrow> [[x]] | w # ws \<Rightarrow> (x # w) # ws))"

definition header_end :: "bytes \<Rightarrow> nat" where
  "header_end data = (case find_str (crlf @ crlf) data of Some p \<Rightarrow> p + 2 | None \<Rightarrow> length data)"

text \<open>The test of one line; \<open>None\<close> is the panic of slicing inside a character.\<close>

definition is_received_line :: "str \<Rightarrow> bool option" where
  "is_received_line line =
     (if (case line of [] \<Rightarrow> False | c # _ \<Rightarrow> c = CHR '' '' \<or> c = CHR 0x09) then Some False
      else if length line < 9 then Some False
      else if \<not> is_char_boundary line 9 then None
      else Some (eq_ignore_ascii_case (take 9 line) ''received:''))"

fun count_lines :: "str list \<Rightarrow> nat option" where
  "count_lines [] = Some 0"
| "count_lines (l # ls) =
     Option.bind (is_received_line l) (\<lambda>b.
     Option.bind (count_lines ls) (\<lambda>n. Some (if b then n + 1 else n)))"

definition received_hop_count :: "bytes \<Rightarrow> nat option" where
  "received_hop_count data =
     count_lines (split_inclusive LF (from_utf8_lossy (take (header_end data) data)))"

definition received_protocol :: "bool \<Rightarrow> bool \<Rightarrow> bool \<Rightarrow> str" where
  "received_protocol es tls au =
     (if \<not> es then ''SMTP''
      else if tls \<and> au then ''ESMTPSA''
      else if tls then ''ESMTPS''
      else if au then ''ESMTPA''
      else ''ESMTP'')"

definition received_header :: "str option \<Rightarrow> IpAddr option \<Rightarrow> str \<Rightarrow> bool \<Rightarrow> bool \<Rightarrow> bool \<Rightarrow> int \<Rightarrow> str" where
  "received_header helo peer host es tls au now =
     (let client = (case helo of Some h \<Rightarrow> h | None \<Rightarrow> ''unknown'');
          p = (case peer of Some ip \<Rightarrow> ''['' @ show_ip ip @ '']'' | None \<Rightarrow> ''[unknown]'')
      in ''Received: from '' @ client @ '' ('' @ p @ '')'' @ crlf @ [CHR 0x09] @ ''by '' @ host @ '' with ''
         @ received_protocol es tls au @ '';'' @ crlf @ [CHR 0x09] @ rfc5322 now @ crlf)"

definition format_auth_results :: "str \<Rightarrow> str list \<Rightarrow> str" where
  "format_auth_results host methods =
     ''Authentication-Results: '' @ host @ concat (map (\<lambda>m. '';'' @ crlf @ [CHR 0x09] @ m) methods) @ crlf"

section \<open>The loop guard\<close>

text \<open>Pure ASCII headers are counted without a panic.\<close>

definition starts_received :: "str \<Rightarrow> bool" where
  "starts_received line \<longleftrightarrow> eq_ignore_ascii_case (take 9 line) ''received:''"

lemma ascii_boundary: "is_ascii s \<Longrightarrow> i \<le> length s \<Longrightarrow> is_char_boundary s i"
  by (auto simp: is_char_boundary_def is_ascii_def list_all_length is_ascii_char_def is_continuation_def le_less)

lemma starts_received_facts:
  "starts_received (c # line) \<Longrightarrow> c \<noteq> CHR '' '' \<and> c \<noteq> CHR 0x09"
  "starts_received line \<Longrightarrow> 9 \<le> length line"
proof -
  show "starts_received (c # line) \<Longrightarrow> c \<noteq> CHR '' '' \<and> c \<noteq> CHR 0x09"
    by (auto simp: starts_received_def eq_ignore_ascii_case_def to_ascii_lowercase_def ascii_lower_char_def
        is_ascii_uppercase_def)
  assume "starts_received line"
  then have "length (to_ascii_lowercase (take 9 line)) = length (to_ascii_lowercase ''received:'')"
    by (simp add: starts_received_def eq_ignore_ascii_case_def)
  then show "9 \<le> length line" by (simp add: to_ascii_lowercase_def)
qed

lemma is_received_line_ascii:
  assumes "is_ascii line"
  shows "is_received_line line = Some (starts_received line)"
proof (cases "length line < 9")
  case True
  then have "\<not> starts_received line" using starts_received_facts(2) [of line] by auto
  then show ?thesis using True by (simp add: is_received_line_def)
next
  case False
  then have b: "is_char_boundary line 9" using ascii_boundary [OF assms] by simp
  obtain c r where l: "line = c # r" using False by (cases line) auto
  show ?thesis
    unfolding is_received_line_def l list.case starts_received_def
    using False b starts_received_facts(1) [of c r] unfolding l starts_received_def by auto
qed

lemma count_lines_ascii:
  "list_all is_ascii ls \<Longrightarrow> count_lines ls = Some (length (filter starts_received ls))"
  by (induction ls) (auto simp: is_received_line_ascii)

lemma concat_split_inclusive [simp]: "concat (split_inclusive c s) = s"
  by (induction s) (auto split: list.splits)

lemma split_inclusive_ascii: "is_ascii s \<Longrightarrow> list_all is_ascii (split_inclusive c s)"
  unfolding is_ascii_def list_all_iff
  by (metis concat_split_inclusive in_set_conv_nth nth_mem set_concat UN_I)

lemma from_utf8_lossy_ascii: "is_ascii s \<Longrightarrow> from_utf8_lossy s = s"
  by (simp add: from_utf8_lossy_def utf8_chunks_ascii o_def concat_map_singleton)

text \<open>The loop guard counts, for a message with ASCII headers, exactly the header lines that
  begin with \<^verbatim>\<open>Received:\<close> in any letter case; folded lines and the body do not count.\<close>

lemma hop_count_ascii:
  assumes "is_ascii (take (header_end data) data)"
  shows "received_hop_count data
    = Some (length (filter starts_received (split_inclusive LF (take (header_end data) data))))"
  using assms
  by (simp add: received_hop_count_def from_utf8_lossy_ascii count_lines_ascii split_inclusive_ascii)

text \<open>The loop guard panics on some header lines: a message whose first header is
  \<^verbatim>\<open>Subject:\<close> directly followed by a two-octet character makes it slice inside that character.\<close>

lemma hop_count_panics:
  "received_hop_count (''Subject:'' @ [CHR 0xC3, CHR 0xA9] @ crlf @ crlf) = None"
  by code_simp

end
