(* ===== verification/Greylist.thy ===== *)
theory Greylist
  imports Ip_Text
begin

text \<open>
  Greylisting (\<^verbatim>\<open>src/src/antispam/greylist.rs\<close>): the decision on a delivery attempt over a store of
  first sightings, and the in-memory store. The trait \<^verbatim>\<open>GreylistStore\<close> is the locale
  \<open>greylist_store\<close>; what \<^verbatim>\<open>decide\<close> does over a sequence of attempts is proved from its laws and then
  holds of the in-memory store.
\<close>

record Triplet =
  client_ip :: IpAddr
  sender :: str
  recipient :: str

definition triplet_key :: "Triplet \<Rightarrow> str" where
  "triplet_key t =
     show_ip (client_ip t) @ ''|'' @ to_ascii_lowercase (sender t) @ ''|'' @ to_ascii_lowercase (recipient t)"

datatype Decision = Defer | Accept

text \<open>\<^verbatim>\<open>decide\<close> over the two methods of a store; the store afterwards is returned.\<close>

definition decide ::
  "('s \<Rightarrow> str \<Rightarrow> nat option) \<Rightarrow> ('s \<Rightarrow> str \<Rightarrow> nat \<Rightarrow> 's) \<Rightarrow> 's \<Rightarrow> Triplet \<Rightarrow> nat \<Rightarrow> nat \<Rightarrow> Decision \<times> 's" where
  "decide first_seen record_at store t now delay_secs =
     (let key = triplet_key t in
      case first_seen store key of
        None \<Rightarrow> (Defer, record_at store key now)
      | Some seen \<Rightarrow> if now - seen \<ge> delay_secs then (Accept, store) else (Defer, store))"

section \<open>The in-memory store\<close>

type_synonym MemoryGreylist = "(str, nat) hashmap"

definition new_greylist :: MemoryGreylist where
  "new_greylist = []"

definition prune :: "MemoryGreylist \<Rightarrow> nat \<Rightarrow> nat \<Rightarrow> MemoryGreylist" where
  "prune g now max_age = filter (\<lambda>(_, seen). now - seen < max_age) g"

definition first_seen_at :: "MemoryGreylist \<Rightarrow> str \<Rightarrow> nat option" where
  "first_seen_at g key = get g key"

definition record_seen :: "MemoryGreylist \<Rightarrow> str \<Rightarrow> nat \<Rightarrow> MemoryGreylist" where
  "record_seen g key now = (case get g key of Some _ \<Rightarrow> g | None \<Rightarrow> hm_insert key now g)"

section \<open>What a store promises, and what follows\<close>

text \<open>The attempts on a server, oldest first, and the store and decisions they lead to.\<close>

fun attempts ::
  "('s \<Rightarrow> str \<Rightarrow> nat option) \<Rightarrow> ('s \<Rightarrow> str \<Rightarrow> nat \<Rightarrow> 's) \<Rightarrow> nat \<Rightarrow> 's \<Rightarrow> (Triplet \<times> nat) list \<Rightarrow> 's" where
  "attempts first_seen record_at delay s [] = s"
| "attempts first_seen record_at delay s ((t, now) # as) =
     attempts first_seen record_at delay (snd (decide first_seen record_at s t now delay)) as"

locale greylist_store =
  fixes first_seen :: "'s \<Rightarrow> str \<Rightarrow> nat option"
    and record_at :: "'s \<Rightarrow> str \<Rightarrow> nat \<Rightarrow> 's"
    and empty :: 's
  assumes empty_law: "first_seen empty key = None"
    and record_same: "first_seen s key = None \<Longrightarrow> first_seen (record_at s key now) key = Some now"
    and record_other: "key \<noteq> key' \<Longrightarrow> first_seen (record_at s key now) key' = first_seen s key'"
begin

lemma decide_store:
  "first_seen (snd (decide first_seen record_at s t now delay)) key =
     (if key = triplet_key t \<and> first_seen s key = None then Some now else first_seen s key)"
  by (auto simp: decide_def Let_def record_same record_other split: option.splits)

lemma attempts_first_seen:
  "first_seen (attempts first_seen record_at delay s as) key =
     (case first_seen s key of
        Some u \<Rightarrow> Some u
      | None \<Rightarrow> map_option snd (find (\<lambda>(t, _). triplet_key t = key) as))"
proof (induction as arbitrary: s)
  case (Cons a as)
  obtain t now where a: "a = (t, now)" by (cases a)
  show ?case
    by (auto simp: a Cons.IH decide_store split: option.splits)
qed (simp split: option.splits)

text \<open>A triplet is accepted exactly when its first attempt is at least the delay ago.\<close>

lemma decide_after:
  "fst (decide first_seen record_at (attempts first_seen record_at delay empty as) t now delay) = Accept \<longleftrightarrow>
     (\<exists>t' seen. find (\<lambda>(t', _). triplet_key t' = triplet_key t) as = Some (t', seen) \<and> delay \<le> now - seen)"
  by (auto simp: decide_def Let_def attempts_first_seen empty_law split: option.splits if_splits)

end

interpretation memory: greylist_store first_seen_at record_seen new_greylist
  by unfold_locales (auto simp: first_seen_at_def record_seen_def new_greylist_def split: option.splits)


text \<open>Pruning forgets only sightings older than the maximum age, so a retry within it is unaffected.\<close>

lemma prune_keeps:
  assumes "distinct (map fst g)" "get g key = Some seen" "now - seen < max_age"
  shows "get (prune g now max_age) key = Some seen"
  using assms by (induction g) (auto simp: prune_def split: if_splits)

end
