(* ===== verification/Dkim_Canon.thy ===== *)
theory Dkim_Canon
  imports Mail_Trace
begin

text \<open>
  Header and body canonicalization of DKIM (\<^verbatim>\<open>dkim/canon.rs\<close>), shared by the signer and the
  verifier. The lemmas relate the relaxed forms to reference definitions on words and lines.
\<close>

datatype Canon = Simple | Relaxed

text \<open>The collapsing loop of both relaxed forms: \<open>sp\<close> is \<^verbatim>\<open>in_space\<close>, \<open>acc\<close> what was pushed so far.\<close>

fun collapse_loop :: "(char \<Rightarrow> bool) \<Rightarrow> bool \<Rightarrow> str \<Rightarrow> str \<Rightarrow> str" where
  "collapse_loop ws sp acc [] = acc"
| "collapse_loop ws sp acc (c # cs) =
     (if ws c then collapse_loop ws True acc cs
      else collapse_loop ws False (acc @ (if sp \<and> acc \<noteq> [] then '' '' else []) @ [c]) cs)"

definition header_wsp :: "char \<Rightarrow> bool" where
  "header_wsp c \<longleftrightarrow> c = CHR '' '' \<or> c = CHR 0x09 \<or> c = CR \<or> c = LF"

definition body_wsp :: "char \<Rightarrow> bool" where
  "body_wsp c \<longleftrightarrow> c = CHR '' '' \<or> c = CHR 0x09"

definition canon_header :: "Canon \<Rightarrow> str \<Rightarrow> str \<Rightarrow> str" where
  "canon_header canon name value =
     (case canon of
        Simple \<Rightarrow> name @ '':'' @ value @ crlf
      | Relaxed \<Rightarrow> to_ascii_lowercase name @ '':'' @ collapse_loop header_wsp False [] value @ crlf)"

text \<open>The loop \<^verbatim>\<open>while out.ends_with(b"\r\n\r\n") { out.truncate(out.len() - 2) }\<close>.\<close>

function drop_blank_end :: "bytes \<Rightarrow> bytes" where
  "drop_blank_end s =
     (if ends_with (crlf @ crlf) s then drop_blank_end (take (length s - 2) s) else s)"
  by pat_completeness auto
termination
  by (relation "measure length") (auto simp: ends_with_iff crlf_def)

declare drop_blank_end.simps [simp del]

definition simple_body :: "bytes \<Rightarrow> bytes" where
  "simple_body body =
     (let r = drop_blank_end body in
      if r = crlf then crlf
      else let r = (if r \<noteq> [] \<and> \<not> ends_with crlf r then r @ crlf else r)
           in if r = [] then r @ crlf else r)"

definition strip_eol :: "bytes \<Rightarrow> bytes" where
  "strip_eol line =
     (case strip_suffix crlf line of
        Some l \<Rightarrow> l
      | None \<Rightarrow> (case strip_suffix [LF] line of Some l \<Rightarrow> l | None \<Rightarrow> line))"

definition relaxed_line :: "bytes \<Rightarrow> bytes" where
  "relaxed_line line = collapse_loop body_wsp False [] (strip_eol line)"

definition relaxed_body :: "bytes \<Rightarrow> bytes" where
  "relaxed_body body =
     drop_blank_end (concat (map (\<lambda>line. relaxed_line line @ crlf) (split_inclusive LF body)))"

definition canon_body :: "Canon \<Rightarrow> bytes \<Rightarrow> bytes" where
  "canon_body canon body = (case canon of Simple \<Rightarrow> simple_body body | Relaxed \<Rightarrow> relaxed_body body)"

section \<open>The relaxed forms on words\<close>

text \<open>The words of a string, cut at white space, with single spaces between them.\<close>

fun words_aux :: "(char \<Rightarrow> bool) \<Rightarrow> str \<Rightarrow> str \<Rightarrow> str list" where
  "words_aux ws acc [] = (if acc = [] then [] else [acc])"
| "words_aux ws acc (c # cs) =
     (if ws c then (if acc = [] then words_aux ws [] cs else acc # words_aux ws [] cs)
      else words_aux ws (acc @ [c]) cs)"

definition words_of :: "(char \<Rightarrow> bool) \<Rightarrow> str \<Rightarrow> str list" where
  "words_of ws s = words_aux ws [] s"

lemma join_single_Cons: "ws \<noteq> [] \<Longrightarrow> join sep (w # ws) = w @ sep @ join sep ws"
  by (cases ws) auto

lemma words_aux_clean:
  "list_all (\<lambda>c. \<not> p c) acc \<Longrightarrow> w \<in> set (words_aux p acc s) \<Longrightarrow> w \<noteq> [] \<and> list_all (\<lambda>c. \<not> p c) w"
  by (induction p acc s rule: words_aux.induct) (auto split: if_splits)

lemma words_of_clean: "w \<in> set (words_of p s) \<Longrightarrow> w \<noteq> [] \<and> list_all (\<lambda>c. \<not> p c) w"
  unfolding words_of_def by (rule words_aux_clean [of p "[]"]) auto

text \<open>What the loop pushes for a rest is the joined words of the rest, after a space when a word
  was pushed before.\<close>

lemma words_aux_nonempty: "w \<noteq> [] \<Longrightarrow> words_aux p w s \<noteq> []"
  by (induction p w s rule: words_aux.induct) auto

lemma collapse_loop_words:
  "w \<noteq> [] \<Longrightarrow> collapse_loop p False (pre @ w) s = pre @ join '' '' (words_aux p w s)"
  "acc \<noteq> [] \<Longrightarrow> collapse_loop p True acc s =
     acc @ (if words_aux p [] s = [] then [] else '' '' @ join '' '' (words_aux p [] s))"
  "collapse_loop p sp [] s = join '' '' (words_aux p [] s)"
proof (induction s arbitrary: pre w acc sp)
  case (Cons c cs)
  {
    case 1
    show ?case
    proof (cases "p c")
      case True
      then show ?thesis
        using 1 Cons(2) [of "pre @ w"] by (cases "words_aux p [] cs") auto
    next
      case False
      then show ?thesis
        using Cons(1) [of "w @ [c]" pre] by simp
    qed
  next
    case 2
    then show ?case
      using Cons(2) [of acc] Cons(1) [of "[c]" "acc @ '' ''"] words_aux_nonempty [of "[c]" p cs] by simp
  next
    case 3
    then show ?case
      using Cons(3) Cons(1) [of "[c]" "[]"] by simp
  }
qed auto

lemma canon_header_words:
  "canon_header Relaxed name value = to_ascii_lowercase name @ '':'' @ join '' '' (words_of header_wsp value) @ crlf"
  by (simp add: canon_header_def collapse_loop_words(3) words_of_def)

lemma join_words_inj:
  assumes "\<And>w. w \<in> set us \<Longrightarrow> w \<noteq> [] \<and> CHR '' '' \<notin> set w" "\<And>w. w \<in> set vs \<Longrightarrow> w \<noteq> [] \<and> CHR '' '' \<notin> set w"
    and "join '' '' us = join '' '' vs"
  shows "us = vs"
proof -
  have nil: "join '' '' ws = [] \<Longrightarrow> ws = []" if "\<And>w. w \<in> set ws \<Longrightarrow> w \<noteq> []" for ws
    using that by (induction ws rule: induct_list012) auto
  show ?thesis
  proof (cases "us = [] \<or> vs = []")
    case True
    then show ?thesis
      using assms nil [of us] nil [of vs] by auto
  next
    case False
    then show ?thesis
      using split_on_join [of us "CHR '' ''"] split_on_join [of vs "CHR '' ''"] assms by metis
  qed
qed

lemma words_of_inj: "join '' '' (words_of header_wsp u) = join '' '' (words_of header_wsp v) \<longleftrightarrow> words_of header_wsp u = words_of header_wsp v"
proof -
  have "w \<noteq> [] \<and> CHR '' '' \<notin> set w" if "w \<in> set (words_of header_wsp x)" for w x
    using words_of_clean [OF that] by (auto simp: list_all_iff header_wsp_def)
  then show ?thesis
    by (metis join_words_inj)
qed

lemma lowercase_colon: "CHR '':'' \<in> set (to_ascii_lowercase s) \<longleftrightarrow> CHR '':'' \<in> set s"
proof -
  have "CHR '':'' = ascii_lower_char x \<longleftrightarrow> CHR '':'' = x" for x
    unfolding eq_commute [of "CHR '':''"] by (rule ascii_lower_char_eq_iff) (simp_all add: is_ascii_lowercase_def is_ascii_uppercase_def)
  then show ?thesis
    by (induction s) simp_all
qed

text \<open>Relaxed header canonicalization keeps exactly the header name up to letter case and the words of
  the value: two headers have the same canonical form if and only if these agree, so folding and
  the amount of white space never matter and nothing else is lost.\<close>

lemma relaxed_header_iff:
  assumes "CHR '':'' \<notin> set n" "CHR '':'' \<notin> set m"
  shows "canon_header Relaxed n u = canon_header Relaxed m v \<longleftrightarrow>
           eq_ignore_ascii_case n m \<and> words_of header_wsp u = words_of header_wsp v"
  using assms append_sep_eq [of "CHR '':''" "to_ascii_lowercase n" "to_ascii_lowercase m"] words_of_inj [of u v]
  by (simp add: canon_header_words eq_ignore_ascii_case_def lowercase_colon)

text \<open>A folded subject and its unfolded form.\<close>

text \<open>Relaxed body canonicalization drops the white space at the start of a line, where one space
  should stay: an indented first line hashes like the line without indentation.\<close>

lemma relaxed_body_indent:
  "relaxed_body (CHR '' '' # c # b) = relaxed_body (c # b)"
proof -
  have suffix: "strip_suffix p (CHR '' '' # l) = map_option ((#) (CHR '' '')) (strip_suffix p l)"
    if "CHR '' '' \<notin> set p" for p l
  proof (cases "strip_suffix p l")
    case None
    moreover have "strip_suffix p (CHR '' '' # l) \<noteq> Some r" for r
      using None that strip_suffix_Some_iff [of p l "tl r"] by (cases r) (auto simp: strip_suffix_Some_iff)
    ultimately show ?thesis
      by (cases "strip_suffix p (CHR '' '' # l)") auto
  next
    case (Some r)
    then have "CHR '' '' # l = (CHR '' '' # r) @ p"
      by (simp add: strip_suffix_Some_iff)
    then show ?thesis
      using Some by (metis option.simps(9) strip_suffix_Some_iff)
  qed
  have eol: "strip_eol (CHR '' '' # l) = CHR '' '' # strip_eol l" for l
    by (simp add: strip_eol_def suffix crlf_def split: option.split)
  have "split_inclusive LF (c # b) \<noteq> []"
    by (simp split: list.split)
  then obtain l ls where l: "split_inclusive LF (c # b) = l # ls"
    unfolding neq_Nil_conv by blast
  then have "split_inclusive LF (CHR '' '' # c # b) = (CHR '' '' # l) # ls"
    by (simp only: split_inclusive.simps) simp
  then show ?thesis
    using l by (simp add: relaxed_body_def relaxed_line_def eol body_wsp_def collapse_loop_words(3))
qed

end
