(* ===== verification/Scram.thy ===== *)
theory Scram
  imports Totp
begin

text \<open>
  The SCRAM-SHA-256 server (\<^verbatim>\<open>src/src/smtp/scram.rs\<close>): credential derivation and storage, the two
  message steps with channel binding, and the attribute parsers. HMAC, SHA-256, PBKDF2 and base64
  are crate parameters. The byte comparison is \<^verbatim>\<open>constant_time_eq\<close> of
  \<^verbatim>\<open>src/src/api/oauth/mod.rs\<close>, the same loop as the one of the TOTP module.
\<close>

definition SALT_LEN :: nat where "SALT_LEN = 16"

definition SCRAM_ITERATIONS :: nat where "SCRAM_ITERATIONS = 4096"

record ScramCredentials =
  sc_salt :: bytes
  sc_iterations :: nat
  sc_stored_key :: bytes
  sc_server_key :: bytes

definition scram_derive :: "crates \<Rightarrow> str \<Rightarrow> bytes \<Rightarrow> nat \<Rightarrow> ScramCredentials" where
  "scram_derive K pw salt iterations =
     (let salted = pbkdf2_hmac_sha256 K (max iterations 1) salt pw;
          client_key = hmac_sha256 K salted ''Client Key'';
          server_key = hmac_sha256 K salted ''Server Key''
      in \<lparr>sc_salt = salt, sc_iterations = iterations,
          sc_stored_key = sha256 K client_key, sc_server_key = server_key\<rparr>)"

record ScramStored =
  ss_salt :: str
  ss_iterations :: nat
  ss_stored_key :: str
  ss_server_key :: str

definition from_credentials :: "crates \<Rightarrow> ScramCredentials \<Rightarrow> ScramStored" where
  "from_credentials K c =
     \<lparr>ss_salt = b64_encode K (sc_salt c), ss_iterations = sc_iterations c,
      ss_stored_key = b64_encode K (sc_stored_key c), ss_server_key = b64_encode K (sc_server_key c)\<rparr>"

text \<open>The fresh salt, or the failure of the random generator, is an argument.\<close>

definition with_fresh_salt :: "crates \<Rightarrow> bytes option \<Rightarrow> str \<Rightarrow> ScramStored option" where
  "with_fresh_salt K salt pw =
     map_option (\<lambda>s. from_credentials K (scram_derive K pw s SCRAM_ITERATIONS)) salt"

text \<open>\<^verbatim>\<open>try_into\<close> at \<^verbatim>\<open>[u8; 32]\<close>.\<close>

definition try_into32 :: "bytes \<Rightarrow> bytes option" where
  "try_into32 b = (if length b = 32 then Some b else None)"

definition to_credentials :: "crates \<Rightarrow> ScramStored \<Rightarrow> ScramCredentials option" where
  "to_credentials K s =
     Option.bind (Option.bind (b64_decode K (ss_stored_key s)) try_into32) (\<lambda>stored.
     Option.bind (Option.bind (b64_decode K (ss_server_key s)) try_into32) (\<lambda>server.
     Option.bind (b64_decode K (ss_salt s)) (\<lambda>salt.
       Some \<lparr>sc_salt = salt, sc_iterations = ss_iterations s,
             sc_stored_key = stored, sc_server_key = server\<rparr>)))"

datatype ScramError = Malformed | AuthenticationFailed

datatype ChannelBinding = Unsupported | Supported | Required bytes

record ScramServer =
  server_nonce :: str
  client_first_bare :: "str option"
  server_first :: "str option"
  combined_nonce :: "str option"
  channel_binding :: ChannelBinding
  gs2_header :: "str option"

definition new_scram_server :: "str \<Rightarrow> ScramServer" where
  "new_scram_server nonce =
     \<lparr>server_nonce = nonce, client_first_bare = None, server_first = None, combined_nonce = None,
      channel_binding = Unsupported, gs2_header = None\<rparr>"

definition with_channel_binding :: "ScramServer \<Rightarrow> ChannelBinding \<Rightarrow> ScramServer" where
  "with_channel_binding s b = s\<lparr>channel_binding := b\<rparr>"

section \<open>Attributes\<close>

definition tag :: "str \<Rightarrow> str \<Rightarrow> str option" where
  "tag message key = find_map (strip_prefix key) (split_on (CHR '','') message)"

fun nth_comma_rest :: "str \<Rightarrow> nat \<Rightarrow> str option" where
  "nth_comma_rest text 0 = Some text"
| "nth_comma_rest text (Suc n) =
     (case split_once (CHR '','') text of None \<Rightarrow> None | Some (_, rest) \<Rightarrow> nth_comma_rest rest n)"

definition username_of :: "str \<Rightarrow> str option" where
  "username_of client_first = Option.bind (nth_comma_rest client_first 2) (\<lambda>bare. tag bare ''n='')"

section \<open>The exchange\<close>

definition flag_error :: "ChannelBinding \<Rightarrow> str \<Rightarrow> bool" where
  "flag_error b flag =
     (case b of
        Supported \<Rightarrow> flag \<noteq> ''n''
      | Required _ \<Rightarrow> flag \<noteq> ''p=tls-server-end-point''
      | Unsupported \<Rightarrow> False)"

definition scram_first ::
  "crates \<Rightarrow> ScramServer \<Rightarrow> str \<Rightarrow> ScramCredentials \<Rightarrow> (ScramError + (str \<times> str)) \<times> ScramServer" where
  "scram_first K srv client_first cred =
     (case nth_comma_rest client_first 2 of
        None \<Rightarrow> (Inl Malformed, srv)
      | Some bare \<Rightarrow>
          let header = take (length client_first - length bare) client_first;
              flag = hd (split_on (CHR '','') client_first) in
          if flag_error (channel_binding srv) flag then (Inl Malformed, srv)
          else
            (case (tag bare ''n='', tag bare ''r='') of
               (Some username, Some client_nonce) \<Rightarrow>
                 let combined = client_nonce @ server_nonce srv;
                     sfirst = ''r='' @ combined @ '',s='' @ b64_encode K (sc_salt cred)
                              @ '',i='' @ show_nat (sc_iterations cred)
                 in (Inr (username, sfirst),
                     srv\<lparr>client_first_bare := Some bare, server_first := Some sfirst,
                         combined_nonce := Some combined, gs2_header := Some header\<rparr>)
             | _ \<Rightarrow> (Inl Malformed, srv)))"

definition xor_byte :: "char \<Rightarrow> char \<Rightarrow> char" where
  "xor_byte x y = char_of (unat (of_nat (code x) XOR of_nat (code y) :: 8 word))"

definition xor_bytes :: "bytes \<Rightarrow> bytes \<Rightarrow> bytes" where
  "xor_bytes a b = map2 xor_byte a b"

definition binding_data :: "ChannelBinding \<Rightarrow> bytes" where
  "binding_data b = (case b of Required data \<Rightarrow> data | _ \<Rightarrow> [])"

definition check_binding :: "crates \<Rightarrow> ScramServer \<Rightarrow> str \<Rightarrow> ScramError + unit" where
  "check_binding K srv client_final =
     (if channel_binding srv = Unsupported then Inr ()
      else
        and_then (ok_or Malformed (gs2_header srv)) (\<lambda>header.
        and_then (ok_or Malformed (tag client_final ''c='')) (\<lambda>c.
        and_then (ok_or Malformed (b64_decode K c)) (\<lambda>cbind.
          if cbind \<noteq> header @ binding_data (channel_binding srv) then Inl Malformed else Inr ()))))"

definition scram_finish ::
  "crates \<Rightarrow> ScramServer \<Rightarrow> str \<Rightarrow> ScramCredentials \<Rightarrow> ScramError + str" where
  "scram_finish K srv client_final cred =
     (case (client_first_bare srv, server_first srv, combined_nonce srv) of
        (Some bare, Some sfirst, Some combined) \<Rightarrow>
          if tag client_final ''r='' \<noteq> Some combined then Inl Malformed
          else
            and_then (check_binding K srv client_final) (\<lambda>_.
            and_then (ok_or Malformed (tag client_final ''p='')) (\<lambda>p.
            and_then (ok_or Malformed (b64_decode K p)) (\<lambda>proof.
            if length proof \<noteq> 32 then Inl Malformed
            else
              and_then (ok_or Malformed (map_option fst (rsplit_once_str '',p='' client_final)))
                (\<lambda>without_proof.
                 let auth_message = bare @ '','' @ sfirst @ '','' @ without_proof;
                     client_signature = hmac_sha256 K (sc_stored_key cred) auth_message;
                     client_key = xor_bytes proof client_signature in
                 if \<not> constant_time_eq (sha256 K client_key) (sc_stored_key cred)
                 then Inl AuthenticationFailed
                 else Inr (''v='' @ b64_encode K (hmac_sha256 K (sc_server_key cred) auth_message))))))
      | _ \<Rightarrow> Inl Malformed)"


section \<open>An honest client\<close>

text \<open>The client of RFC 5802: what it sends first, and its final message for the challenge it got.
  \<open>flag\<close> is its channel-binding flag and \<open>data\<close> the binding data it sees.\<close>

definition client_bare :: "str \<Rightarrow> str \<Rightarrow> str" where
  "client_bare user nonce = ''n='' @ user @ '',r='' @ nonce"

definition client_first_message :: "str \<Rightarrow> str \<Rightarrow> str \<Rightarrow> str" where
  "client_first_message flag user nonce = flag @ '',,'' @ client_bare user nonce"

definition client_without_proof :: "crates \<Rightarrow> str \<Rightarrow> bytes \<Rightarrow> str \<Rightarrow> str" where
  "client_without_proof K flag data combined =
     ''c='' @ b64_encode K ((flag @ '',,'') @ data) @ '',r='' @ combined"

definition client_proof :: "crates \<Rightarrow> str \<Rightarrow> bytes \<Rightarrow> nat \<Rightarrow> str \<Rightarrow> bytes" where
  "client_proof K pw salt iterations auth_message =
     (let client_key = hmac_sha256 K (pbkdf2_hmac_sha256 K (max iterations 1) salt pw) ''Client Key''
      in xor_bytes client_key (hmac_sha256 K (sha256 K client_key) auth_message))"

definition client_final_message :: "crates \<Rightarrow> str \<Rightarrow> bytes \<Rightarrow> str" where
  "client_final_message K without_proof cproof = without_proof @ '',p='' @ b64_encode K cproof"

lemma code_xor_byte:
  "of_nat (code (xor_byte x y)) = (of_nat (code x) XOR of_nat (code y) :: 8 word)"
proof -
  have "unat (of_nat (code x) XOR of_nat (code y) :: 8 word) < 2 ^ 8"
    using unsigned_less [of "of_nat (code x) XOR of_nat (code y) :: 8 word"] by simp
  then show ?thesis by (simp add: xor_byte_def)
qed

lemma xor_byte_cancel: "xor_byte (xor_byte x y) y = x"
proof -
  have "unat (of_nat (code x) :: 8 word) = code x"
    by (simp add: unat_of_nat)
  then show ?thesis
    unfolding xor_byte_def [of "xor_byte x y"] code_xor_byte by (simp add: xor.assoc)
qed

lemma xor_bytes_cancel: "length a = length b \<Longrightarrow> xor_bytes (xor_bytes a b) b = a"
  by (induction a b rule: list_induct2) (simp_all add: xor_bytes_def xor_byte_cancel)

lemma length_xor_bytes [simp]: "length (xor_bytes a b) = min (length a) (length b)"
  by (simp add: xor_bytes_def)

lemma no_comma_b64:
  assumes "b64_alphabet K"
  shows "CHR '','' \<notin> set (b64_encode K b)"
proof
  assume "CHR '','' \<in> set (b64_encode K b)"
  then have "b64_char (CHR '','')"
    using assms by (auto simp: b64_alphabet_def list_all_iff)
  then show False by (simp add: b64_char_def ascii_simps)
qed

lemma find_str_proof_tag:
  "CHR '','' \<notin> set xs \<Longrightarrow> find_str ''=p,'' (xs @ ''=p,'' @ ys) = Some (length xs)"
proof (induction xs)
  case Nil
  show ?case by (simp add: starts_with_def)
next
  case (Cons x xs)
  have "\<not> starts_with ''=p,'' ((x # xs) @ ''=p,'' @ ys)"
  proof (cases xs)
    case Nil
    then show ?thesis by (auto simp: starts_with_def)
  next
    case (Cons y zs)
    then show ?thesis
      using Cons.prems by (cases zs) (simp_all add: starts_with_def)
  qed
  then show ?case using Cons by simp
qed

lemma rsplit_proof_tag:
  assumes "CHR '','' \<notin> set b"
  shows "rsplit_once_str '',p='' (a @ '',p='' @ b) = Some (a, b)"
proof -
  have "find_str ''=p,'' (rev b @ ''=p,'' @ rev a) = Some (length b)"
    using find_str_proof_tag [of "rev b" "rev a"] assms by simp
  then show ?thesis
    by (simp add: rsplit_once_str_def split_once_str_def)
qed

lemma tag_fields:
  assumes "CHR '','' \<notin> set x" "CHR '','' \<notin> set y" "CHR '','' \<notin> set z"
  shows "split_on (CHR '','') (x @ '','' @ y @ '','' @ z) = [x, y, z]"
    and "split_on (CHR '','') (x @ '','' @ y) = [x, y]"
  using assms by (simp_all add: split_on_append_sep split_on_absent)


lemma nth_comma_rest_first:
  assumes "CHR '','' \<notin> set flag"
  shows "nth_comma_rest (client_first_message flag user nonce) 2 = Some (client_bare user nonce)"
proof -
  have "split_once (CHR '','') (flag @ CHR '','' # CHR '','' # client_bare user nonce)
      = Some (flag, CHR '','' # client_bare user nonce)"
    using split_once_SomeI [OF assms] .
  moreover have "split_once (CHR '','') (CHR '','' # client_bare user nonce) = Some ([], client_bare user nonce)"
    using split_once_SomeI [of "CHR '',''" "[]"] by simp
  ultimately show ?thesis
    by (simp add: client_first_message_def numeral_2_eq_2)
qed

lemma client_bare_tags:
  assumes "CHR '','' \<notin> set user" "CHR '','' \<notin> set nonce"
  shows "tag (client_bare user nonce) ''n='' = Some user" "tag (client_bare user nonce) ''r='' = Some nonce"
  using tag_fields(2) [of "''n='' @ user" "''r='' @ nonce"] assms
  by (simp_all add: tag_def client_bare_def)

lemma client_final_tags:
  assumes cm: "cm = client_final_message K (client_without_proof K flag data combined) cproof"
    and "b64_alphabet K" "CHR '','' \<notin> set combined"
  shows "tag cm ''c='' = Some (b64_encode K ((flag @ '',,'') @ data))" "tag cm ''r='' = Some combined"
    "tag cm ''p='' = Some (b64_encode K cproof)"
    "rsplit_once_str '',p='' cm = Some (client_without_proof K flag data combined, b64_encode K cproof)"
proof -
  let ?c = "''c='' @ b64_encode K ((flag @ '',,'') @ data)" and ?r = "''r='' @ combined"
    and ?p = "''p='' @ b64_encode K cproof"
  have "split_on (CHR '','') cm = [?c, ?r, ?p]"
    using tag_fields(1) [of ?c ?r ?p] no_comma_b64 [OF assms(2)] assms(3)
    unfolding cm client_final_message_def client_without_proof_def by simp
  then show "tag cm ''c='' = Some (b64_encode K ((flag @ '',,'') @ data))" "tag cm ''r='' = Some combined"
    "tag cm ''p='' = Some (b64_encode K cproof)"
    by (simp_all add: tag_def)
  show "rsplit_once_str '',p='' cm = Some (client_without_proof K flag data combined, b64_encode K cproof)"
    unfolding cm client_final_message_def
    by (rule rsplit_proof_tag) (rule no_comma_b64 [OF assms(2)])
qed

text \<open>The flag the policy asks of the client, and the data it must bind to.\<close>

definition flag_matches :: "ChannelBinding \<Rightarrow> str \<Rightarrow> bool" where
  "flag_matches b flag \<longleftrightarrow> CHR '','' \<notin> set flag \<and> \<not> flag_error b flag"

lemma scram_first_honest:
  assumes "flag_matches (channel_binding srv) flag" "CHR '','' \<notin> set user" "CHR '','' \<notin> set nonce"
  shows "\<exists>sfirst. scram_first K srv (client_first_message flag user nonce) cred =
    (Inr (user, sfirst), srv\<lparr>client_first_bare := Some (client_bare user nonce), server_first := Some sfirst,
       combined_nonce := Some (nonce @ server_nonce srv), gs2_header := Some (flag @ '',,'')\<rparr>)"
proof -
  have f: "CHR '','' \<notin> set flag" "\<not> flag_error (channel_binding srv) flag"
    using assms(1) by (auto simp: flag_matches_def)
  have hd: "hd (split_on (CHR '','') (client_first_message flag user nonce)) = flag"
    using split_on_append_sep [OF f(1)] by (simp add: client_first_message_def)
  have tk: "take (length (client_first_message flag user nonce) - length (client_bare user nonce))
      (client_first_message flag user nonce) = flag @ '',,''"
    by (simp add: client_first_message_def)
  show ?thesis
    unfolding scram_first_def nth_comma_rest_first [OF f(1)] option.case Let_def hd tk
    using client_bare_tags [OF assms(2,3)] f(2) by simp
qed

lemma scram_exchange:
  assumes K: "b64_roundtrip K" "b64_alphabet K" "sha256_lengths K"
    and "flag_matches b flag" "CHR '','' \<notin> set user" "CHR '','' \<notin> set cnonce" "CHR '','' \<notin> set snonce"
  shows "\<exists>sfirst srv.
    scram_first K (with_channel_binding (new_scram_server snonce) b) (client_first_message flag user cnonce)
      (scram_derive K pw salt it) = (Inr (user, sfirst), srv)
    \<and> (let wp = client_without_proof K flag (binding_data b) (cnonce @ snonce);
           am = client_bare user cnonce @ '','' @ sfirst @ '','' @ wp
       in scram_finish K srv (client_final_message K wp (client_proof K pw salt it am)) (scram_derive K pw salt it)
          = Inr (''v='' @ b64_encode K (hmac_sha256 K
              (hmac_sha256 K (pbkdf2_hmac_sha256 K (max it 1) salt pw) ''Server Key'') am)))"
proof -
  let ?srv0 = "with_channel_binding (new_scram_server snonce) b" and ?cred = "scram_derive K pw salt it"
  obtain sfirst where first: "scram_first K ?srv0 (client_first_message flag user cnonce) ?cred =
    (Inr (user, sfirst), ?srv0\<lparr>client_first_bare := Some (client_bare user cnonce), server_first := Some sfirst,
       combined_nonce := Some (cnonce @ server_nonce ?srv0), gs2_header := Some (flag @ '',,'')\<rparr>)"
    using scram_first_honest [of ?srv0 flag user cnonce K ?cred] assms by (auto simp: with_channel_binding_def)
  let ?srv = "?srv0\<lparr>client_first_bare := Some (client_bare user cnonce), server_first := Some sfirst,
       combined_nonce := Some (cnonce @ server_nonce ?srv0), gs2_header := Some (flag @ '',,'')\<rparr>"
  let ?wp = "client_without_proof K flag (binding_data b) (cnonce @ snonce)"
  let ?am = "client_bare user cnonce @ '','' @ sfirst @ '','' @ ?wp"
  let ?ck = "hmac_sha256 K (pbkdf2_hmac_sha256 K (max it 1) salt pw) ''Client Key''"
  let ?cproof = "client_proof K pw salt it ?am"
  have rt: "b64_decode K (b64_encode K x) = Some x" for x
    using K(1) by (simp add: b64_roundtrip_def)
  have len: "length (hmac_sha256 K x y) = 32" for x y
    using K(3) by (simp add: sha256_lengths_def)
  note tags = client_final_tags [OF refl K(2), of "cnonce @ snonce" flag "binding_data b" ?cproof]
  have comb: "CHR '','' \<notin> set (cnonce @ snonce)"
    using assms by simp
  have key: "sha256 K (xor_bytes ?cproof (hmac_sha256 K (sc_stored_key ?cred) ?am)) = sc_stored_key ?cred"
    using len xor_bytes_cancel [of ?ck "hmac_sha256 K (sha256 K ?ck) ?am"]
    by (simp add: client_proof_def scram_derive_def Let_def)
  have "length ?cproof = 32"
    by (simp add: client_proof_def Let_def len)
  moreover have "check_binding K ?srv (client_final_message K ?wp ?cproof) = Inr ()"
    using tags(1) [OF comb] rt by (simp add: check_binding_def with_channel_binding_def)
  moreover have "sc_server_key ?cred = hmac_sha256 K (pbkdf2_hmac_sha256 K (max it 1) salt pw) ''Server Key''"
    by (simp add: scram_derive_def Let_def)
  ultimately have "scram_finish K ?srv (client_final_message K ?wp ?cproof) ?cred
      = Inr (''v='' @ b64_encode K (hmac_sha256 K
              (hmac_sha256 K (pbkdf2_hmac_sha256 K (max it 1) salt pw) ''Server Key'') ?am))"
    using tags(2-4) [OF comb] rt key
    by (simp add: scram_finish_def Let_def with_channel_binding_def new_scram_server_def)
  then show ?thesis
    using first by (auto simp: Let_def)
qed


text \<open>C25. SCRAM admits whoever knows the password. For credentials derived from a password, any
  salt and iteration count, and any channel-binding policy, a client of RFC 5802 that holds that
  password and sees the same binding data completes the exchange, and the server answers with the
  signature that proves it holds the matching server key. (Base64 inverts and stays in its
  alphabet; the hash outputs have 32 octets; user name and nonces have no comma.)\<close>

theorem scram_complete:
  assumes K: "b64_roundtrip K" "b64_alphabet K" "sha256_lengths K"
    and "flag_matches b flag" "CHR '','' \<notin> set user" "CHR '','' \<notin> set cnonce" "CHR '','' \<notin> set snonce"
  shows "\<exists>sfirst srv.
    scram_first K (with_channel_binding (new_scram_server snonce) b) (client_first_message flag user cnonce)
      (scram_derive K pw salt it) = (Inr (user, sfirst), srv)
    \<and> (let wp = client_without_proof K flag (binding_data b) (cnonce @ snonce);
           am = client_bare user cnonce @ '','' @ sfirst @ '','' @ wp
       in scram_finish K srv (client_final_message K wp (client_proof K pw salt it am)) (scram_derive K pw salt it)
          = Inr (''v='' @ b64_encode K (hmac_sha256 K
              (hmac_sha256 K (pbkdf2_hmac_sha256 K (max it 1) salt pw) ''Server Key'') am)))"
  by (rule scram_exchange [OF assms])

theorem scram_complete_witness:
  "\<exists>sfirst srv.
    scram_first sample_crates (with_channel_binding (new_scram_server ''srv'') (Required ''cert''))
      (client_first_message ''p=tls-server-end-point'' ''bob'' ''cli'')
      (scram_derive sample_crates ''pw'' ''salt'' 4096) = (Inr (''bob'', sfirst), srv)
    \<and> (let wp = client_without_proof sample_crates ''p=tls-server-end-point'' (binding_data (Required ''cert'')) (''cli'' @ ''srv'');
           am = client_bare ''bob'' ''cli'' @ '','' @ sfirst @ '','' @ wp
       in scram_finish sample_crates srv
            (client_final_message sample_crates wp (client_proof sample_crates ''pw'' ''salt'' 4096 am))
            (scram_derive sample_crates ''pw'' ''salt'' 4096)
          = Inr (''v='' @ b64_encode sample_crates (hmac_sha256 sample_crates
              (hmac_sha256 sample_crates (pbkdf2_hmac_sha256 sample_crates (max 4096 1) ''salt'' ''pw'') ''Server Key'') am)))"
  by (rule scram_complete) (simp_all add: sample_b64 sample_lengths flag_matches_def flag_error_def)

lemma nth_comma_rest_two:
  assumes "nth_comma_rest x 2 = Some bare"
  shows "\<exists>z. x = hd (split_on (CHR '','') x) @ CHR '','' # z @ CHR '','' # bare"
proof -
  obtain f r where f: "split_once (CHR '','') x = Some (f, r)"
    and r: "\<exists>z. split_once (CHR '','') r = Some (z, bare)"
    using assms by (auto simp: numeral_2_eq_2 split: option.splits)
  then obtain z where "x = f @ CHR '','' # r" "CHR '','' \<notin> set f" "r = z @ CHR '','' # bare"
    by (auto simp: split_once_Some_iff)
  moreover from this have "hd (split_on (CHR '','') x) = f"
    by (simp add: split_on_append_sep)
  ultimately show ?thesis by auto
qed

lemma scram_first_Inr:
  assumes "scram_first K srv0 cfirst cred = (Inr (user, sfirst), srv)"
  shows "\<exists>bare cn. nth_comma_rest cfirst 2 = Some bare \<and> tag bare ''n='' = Some user \<and> tag bare ''r='' = Some cn
    \<and> \<not> flag_error (channel_binding srv0) (hd (split_on (CHR '','') cfirst))
    \<and> srv = srv0\<lparr>client_first_bare := Some bare, server_first := Some sfirst,
        combined_nonce := Some (cn @ server_nonce srv0),
        gs2_header := Some (take (length cfirst - length bare) cfirst)\<rparr>"
  using assms by (auto simp: scram_first_def Let_def split: option.splits if_splits)

lemma scram_finish_Inr:
  assumes "scram_finish K srv cfinal cred = Inr v"
  shows "\<exists>bare sfirst p cproof wp. client_first_bare srv = Some bare \<and> server_first srv = Some sfirst
    \<and> tag cfinal ''r='' = combined_nonce srv \<and> check_binding K srv cfinal = Inr ()
    \<and> tag cfinal ''p='' = Some p \<and> b64_decode K p = Some cproof \<and> length cproof = 32
    \<and> sha256 K (xor_bytes cproof (hmac_sha256 K (sc_stored_key cred) (bare @ '','' @ sfirst @ '','' @ wp))) = sc_stored_key cred"
  using assms
  by (auto simp: scram_finish_def and_then_Inr_iff ok_or_Inr_iff Let_def split: option.splits if_splits)


lemma sample_exchange:
  "\<exists>sfirst srv v cfinal.
    scram_first sample_crates (with_channel_binding (new_scram_server ''srv'') (Required ''cert''))
      (client_first_message ''p=tls-server-end-point'' ''bob'' ''cli'')
      (scram_derive sample_crates ''pw'' ''salt'' 4096) = (Inr (''bob'', sfirst), srv)
    \<and> scram_finish sample_crates srv cfinal (scram_derive sample_crates ''pw'' ''salt'' 4096) = Inr v"
  using scram_exchange [OF sample_b64 sample_lengths, of "Required ''cert''" "''p=tls-server-end-point''"
      "''bob''" "''cli''" "''srv''" "''pw''" "''salt''" 4096]
  by (auto simp: flag_matches_def flag_error_def Let_def)


text \<open>Stored credentials come back as they were derived.\<close>

lemma to_from_credentials:
  assumes "b64_roundtrip K" "length (sc_stored_key c) = 32" "length (sc_server_key c) = 32"
  shows "to_credentials K (from_credentials K c) = Some c"
  using assms by (simp add: to_credentials_def from_credentials_def b64_roundtrip_def try_into32_def)

end
