(* ===== verification/Dkim_Verify.thy ===== *)
theory Dkim_Verify
  imports Dkim_Canon Scram
begin

text \<open>
  Parsing of \<^verbatim>\<open>DKIM-Signature\<close> headers (\<^verbatim>\<open>dkim/signature.rs\<close>) and verification of the signatures of a
  message (\<^verbatim>\<open>dkim/verify.rs\<close>). The signature algorithms of the \<^verbatim>\<open>ring\<close> crate are the parameter \<open>vf\<close>:
  \<open>vf alg key msg sig\<close> says whether \<^verbatim>\<open>UnparsedPublicKey::new(alg, key).verify(msg, sig)\<close> is \<^verbatim>\<open>Ok\<close>. The
  system clock is the argument \<open>now\<close>.
\<close>

section \<open>The signature header\<close>

datatype Algorithm = RsaSha256 | Ed25519Sha256

record Signature =
  sig_algorithm :: Algorithm
  sig_domain :: str
  sig_selector :: str
  signed_headers :: "str list"
  body_hash :: bytes
  sig_signature :: bytes
  header_canon :: Canon
  body_canon :: Canon
  body_length :: "nat option"
  sig_expiration :: "nat option"

datatype SignatureError = SignatureError str

text \<open>The local variables of \<^verbatim>\<open>parse\<close>.\<close>

record SigTags =
  tg_version :: "str option"
  tg_algorithm :: "Algorithm option"
  tg_domain :: "str option"
  tg_selector :: "str option"
  tg_headers :: "str list option"
  tg_body_hash :: "bytes option"
  tg_signature :: "bytes option"
  tg_header_canon :: Canon
  tg_body_canon :: Canon
  tg_length :: "nat option"
  tg_expiration :: "nat option"

definition no_tags :: SigTags where
  "no_tags = \<lparr>tg_version = None, tg_algorithm = None, tg_domain = None, tg_selector = None,
     tg_headers = None, tg_body_hash = None, tg_signature = None, tg_header_canon = Simple,
     tg_body_canon = Simple, tg_length = None, tg_expiration = None\<rparr>"

definition parse_canon :: "str \<Rightarrow> SignatureError + Canon" where
  "parse_canon t =
     (if t = ''simple'' then Inr Simple
      else if t = ''relaxed'' then Inr Relaxed
      else Inl (SignatureError (''unknown canonicalization '' @ t)))"

definition decode_base64 :: "crates \<Rightarrow> str \<Rightarrow> str \<Rightarrow> SignatureError + bytes" where
  "decode_base64 K t tg = ok_or (SignatureError (''invalid base64 in '' @ tg @ ''= tag'')) (b64_decode K t)"

definition compact :: "str \<Rightarrow> str" where
  "compact s = concat (filter (\<lambda>c. \<not> is_whitespace c) (chars s))"

definition parse_algorithm :: "str \<Rightarrow> SignatureError + Algorithm" where
  "parse_algorithm t =
     (if t = ''rsa-sha256'' then Inr RsaSha256
      else if t = ''ed25519-sha256'' then Inr Ed25519Sha256
      else Inl (SignatureError (''unsupported algorithm '' @ t)))"

text \<open>One tag: its name, its compacted value.\<close>

definition apply_tag :: "crates \<Rightarrow> str \<Rightarrow> str \<Rightarrow> SigTags \<Rightarrow> SignatureError + SigTags" where
  "apply_tag K name v t =
     (if name = ''v'' then Inr (t\<lparr>tg_version := Some v\<rparr>)
      else if name = ''a'' then and_then (parse_algorithm v) (\<lambda>a. Inr (t\<lparr>tg_algorithm := Some a\<rparr>))
      else if name = ''d'' then Inr (t\<lparr>tg_domain := Some (to_ascii_lowercase v)\<rparr>)
      else if name = ''s'' then Inr (t\<lparr>tg_selector := Some (to_ascii_lowercase v)\<rparr>)
      else if name = ''h'' then Inr (t\<lparr>tg_headers := Some (map to_ascii_lowercase (split_on (CHR '':'') v))\<rparr>)
      else if name = ''bh'' then and_then (decode_base64 K v ''bh'') (\<lambda>b. Inr (t\<lparr>tg_body_hash := Some b\<rparr>))
      else if name = ''b'' then and_then (decode_base64 K v ''b'') (\<lambda>b. Inr (t\<lparr>tg_signature := Some b\<rparr>))
      else if name = ''c'' then
        (let (header, body) = (case split_once (CHR ''/'') v of Some p \<Rightarrow> p | None \<Rightarrow> (v, ''simple'')) in
         and_then (parse_canon header) (\<lambda>h.
         and_then (parse_canon body) (\<lambda>b. Inr (t\<lparr>tg_header_canon := h, tg_body_canon := b\<rparr>))))
      else if name = ''l'' then
        and_then (ok_or (SignatureError ''invalid l= tag'') (parse_unsigned 64 v)) (\<lambda>n. Inr (t\<lparr>tg_length := Some n\<rparr>))
      else if name = ''x'' then
        and_then (ok_or (SignatureError ''invalid x= tag'') (parse_unsigned 64 v)) (\<lambda>n. Inr (t\<lparr>tg_expiration := Some n\<rparr>))
      else Inr t)"

fun tags_loop :: "crates \<Rightarrow> str list \<Rightarrow> SigTags \<Rightarrow> SignatureError + SigTags" where
  "tags_loop K [] t = Inr t"
| "tags_loop K (raw # tags) t =
     (let tg = trim raw in
      if tg = [] then tags_loop K tags t
      else and_then (ok_or (SignatureError (''malformed tag \"'' @ tg @ ''\"'')) (split_once (CHR ''='') tg)) (\<lambda>(name, v).
           and_then (apply_tag K (trim name) (compact v) t) (tags_loop K tags)))"

definition parse_signature :: "crates \<Rightarrow> str \<Rightarrow> SignatureError + Signature" where
  "parse_signature K value =
     and_then (tags_loop K (split_on (CHR '';'') value) no_tags) (\<lambda>t.
     if tg_version t \<noteq> Some ''1'' then Inl (SignatureError ''v= must be 1'')
     else and_then (ok_or (SignatureError ''missing h= tag'') (tg_headers t)) (\<lambda>hs.
     if \<not> list_ex (\<lambda>h. h = ''from'') hs then Inl (SignatureError ''h= does not cover From'')
     else and_then (ok_or (SignatureError ''missing a= tag'') (tg_algorithm t)) (\<lambda>a.
     and_then (ok_or (SignatureError ''missing d= tag'') (tg_domain t)) (\<lambda>d.
     and_then (ok_or (SignatureError ''missing s= tag'') (tg_selector t)) (\<lambda>s.
     and_then (ok_or (SignatureError ''missing bh= tag'') (tg_body_hash t)) (\<lambda>bh.
     and_then (ok_or (SignatureError ''missing b= tag'') (tg_signature t)) (\<lambda>b.
     Inr \<lparr>sig_algorithm = a, sig_domain = d, sig_selector = s, signed_headers = hs, body_hash = bh,
          sig_signature = b, header_canon = tg_header_canon t, body_canon = tg_body_canon t,
          body_length = tg_length t, sig_expiration = tg_expiration t\<rparr>)))))))"

section \<open>Messages\<close>

record Header =
  hdr_name :: str
  hdr_value :: str

record Message =
  msg_headers :: "Header list"
  msg_body :: bytes

definition find_body_start :: "bytes \<Rightarrow> nat \<times> nat" where
  "find_body_start raw =
     (case find_str (crlf @ crlf) raw of Some i \<Rightarrow> (i + 2, i + 4) | None \<Rightarrow> (length raw, length raw))"

text \<open>\<^verbatim>\<open>strip_suffix("\r\n").unwrap_or(line)\<close>.\<close>

definition strip_crlf :: "str \<Rightarrow> str" where
  "strip_crlf line = (case strip_suffix crlf line of Some l \<Rightarrow> l | None \<Rightarrow> line)"

definition parse_header :: "str \<Rightarrow> Header option" where
  "parse_header raw =
     map_option (\<lambda>(name, rest). \<lparr>hdr_name = trim_end name, hdr_value = rest\<rparr>) (split_once (CHR '':'') (strip_crlf raw))"

text \<open>\<^verbatim>\<open>split_inclusive("\r\n")\<close>.\<close>

fun lines_crlf :: "str \<Rightarrow> str list" where
  "lines_crlf [] = []"
| "lines_crlf [x] = [[x]]"
| "lines_crlf (x # y # xs) =
     (if x = CR \<and> y = LF then [x, y] # lines_crlf xs
      else (case lines_crlf (y # xs) of [] \<Rightarrow> [[x]] | w # ws \<Rightarrow> (x # w) # ws))"

definition is_folded :: "str \<Rightarrow> bool" where
  "is_folded content \<longleftrightarrow> starts_with '' '' content \<or> starts_with [CHR 0x09] content"

text \<open>The loop over the header lines. \<open>cur\<close> is the text between the two offsets of \<^verbatim>\<open>current\<close>: the
  lines of the header being read, which follow each other in the block.\<close>

definition push_header :: "str option \<Rightarrow> Header list \<Rightarrow> Header list option" where
  "push_header cur hs = (case cur of None \<Rightarrow> Some hs | Some t \<Rightarrow> map_option (\<lambda>h. hs @ [h]) (parse_header t))"

fun split_loop :: "str option \<Rightarrow> Header list \<Rightarrow> str list \<Rightarrow> Header list option" where
  "split_loop cur hs [] = push_header cur hs"
| "split_loop cur hs (line # ls) =
     (let content = strip_crlf line in
      if is_folded content then
        (case cur of Some t \<Rightarrow> split_loop (Some (t @ line)) hs ls | None \<Rightarrow> None)
      else Option.bind (push_header cur hs) (\<lambda>hs'.
             split_loop (if content \<noteq> [] then Some line else None) hs' ls))"

definition split_message :: "bytes \<Rightarrow> Message option" where
  "split_message raw =
     (let (e, b) = find_body_start raw in
      Option.bind (from_utf8 (take e raw)) (\<lambda>block.
      map_option (\<lambda>hs. \<lparr>msg_headers = hs, msg_body = drop b raw\<rparr>) (split_loop None [] (lines_crlf block))))"

section \<open>Verification\<close>

datatype DkimOutcome = DkimPass | DkimFail | DkimPermError | DkimTempError | DkimNone

fun dkim_as_str :: "DkimOutcome \<Rightarrow> str" where
  "dkim_as_str DkimPass = ''pass''"
| "dkim_as_str DkimFail = ''fail''"
| "dkim_as_str DkimPermError = ''permerror''"
| "dkim_as_str DkimTempError = ''temperror''"
| "dkim_as_str DkimNone = ''none''"

record DkimResult =
  dk_outcome :: DkimOutcome
  dk_domain :: "str option"

definition dkim_result :: "DkimOutcome \<Rightarrow> str option \<Rightarrow> DkimResult" where
  "dkim_result r d = \<lparr>dk_outcome = r, dk_domain = d\<rparr>"

fun parse_key_tags :: "crates \<Rightarrow> str list \<Rightarrow> bytes option" where
  "parse_key_tags K [] = None"
| "parse_key_tags K (tg # tags) =
     (case strip_prefix ''p='' (trim tg) of
        Some v \<Rightarrow> b64_decode K (compact v)
      | None \<Rightarrow> parse_key_tags K tags)"

definition parse_key :: "crates \<Rightarrow> str \<Rightarrow> bytes option" where
  "parse_key K t = parse_key_tags K (split_on (CHR '';'') t)"

definition strip_b :: "str \<Rightarrow> str" where
  "strip_b tg =
     (let t = trim_start tg in
      if starts_with ''b='' t \<or> starts_with ''b ='' t then take (length tg - length t) tg @ ''b='' else tg)"

definition strip_b_tag :: "str \<Rightarrow> str" where
  "strip_b_tag value = join '';'' (map strip_b (split_on (CHR '';'') value))"

text \<open>The last header of the name that is not used yet.\<close>

definition last_unused :: "Header list \<Rightarrow> bool list \<Rightarrow> str \<Rightarrow> nat option" where
  "last_unused hs used name =
     find (\<lambda>i. \<not> used ! i \<and> eq_ignore_ascii_case (hdr_name (hs ! i)) name) (rev [0..<length hs])"

fun hash_loop :: "Canon \<Rightarrow> Header list \<Rightarrow> bool list \<Rightarrow> str list \<Rightarrow> str" where
  "hash_loop c hs used [] = []"
| "hash_loop c hs used (name # names) =
     (case last_unused hs used name of
        Some i \<Rightarrow> canon_header c (hdr_name (hs ! i)) (hdr_value (hs ! i)) @ hash_loop c hs (used[i := True]) names
      | None \<Rightarrow> hash_loop c hs used names)"

definition own_line :: "Canon \<Rightarrow> Header \<Rightarrow> str" where
  "own_line c h =
     (let line = canon_header c (hdr_name h) (strip_b_tag (hdr_value h)) in
      if ends_with crlf line then take (length line - 2) line else line)"

definition hash_input :: "Canon \<Rightarrow> Header list \<Rightarrow> str list \<Rightarrow> nat \<Rightarrow> str" where
  "hash_input c hs names ix = hash_loop c hs (replicate (length hs) False) names @ own_line c (hs ! ix)"

definition key_name :: "Signature \<Rightarrow> str" where
  "key_name sg = sig_selector sg @ ''._domainkey.'' @ sig_domain sg"

definition expired :: "nat \<Rightarrow> Signature \<Rightarrow> bool" where
  "expired now sg = (case sig_expiration sg of Some x \<Rightarrow> now > x | None \<Rightarrow> False)"

definition limited_body :: "Signature \<Rightarrow> bytes \<Rightarrow> bytes option" where
  "limited_body sg body =
     (case body_length sg of
        Some n \<Rightarrow> if n \<le> length body then Some (take n body) else None
      | None \<Rightarrow> Some body)"

type_synonym verifier = "Algorithm \<Rightarrow> bytes \<Rightarrow> bytes \<Rightarrow> bytes \<Rightarrow> bool"

definition check_key :: "crates \<Rightarrow> verifier \<Rightarrow> dns \<Rightarrow> Signature \<Rightarrow> str \<Rightarrow> DkimOutcome" where
  "check_key K vf D sg input =
     (case dns_txt D (key_name sg) of
        None \<Rightarrow> DkimTempError
      | Some texts \<Rightarrow>
          (case find_map (parse_key K) texts of
             None \<Rightarrow> DkimPermError
           | Some key \<Rightarrow>
               if vf (sig_algorithm sg) key input (sig_signature sg) then DkimPass else DkimFail))"

definition verify_one :: "crates \<Rightarrow> verifier \<Rightarrow> dns \<Rightarrow> nat \<Rightarrow> Message \<Rightarrow> nat \<Rightarrow> str \<Rightarrow> DkimResult" where
  "verify_one K vf D now m ix value =
     (case parse_signature K value of
        Inl _ \<Rightarrow> dkim_result DkimPermError None
      | Inr sg \<Rightarrow>
          dkim_result
            (if expired now sg then DkimFail
             else (case limited_body sg (msg_body m) of
               None \<Rightarrow> DkimPermError
             | Some body \<Rightarrow>
                 if sha256 K (canon_body (body_canon sg) body) \<noteq> body_hash sg then DkimFail
                 else check_key K vf D sg (hash_input (header_canon sg) (msg_headers m) (signed_headers sg) ix)))
            (Some (sig_domain sg)))"

definition is_dkim :: "Header \<Rightarrow> bool" where
  "is_dkim h = eq_ignore_ascii_case (hdr_name h) ''DKIM-Signature''"

definition verify_message :: "crates \<Rightarrow> verifier \<Rightarrow> dns \<Rightarrow> nat \<Rightarrow> bytes \<Rightarrow> DkimResult list" where
  "verify_message K vf D now raw =
     (case split_message raw of
        None \<Rightarrow> [dkim_result DkimPermError None]
      | Some m \<Rightarrow>
          (let sigs = filter (\<lambda>(i, h). is_dkim h) (List.enumerate 0 (msg_headers m)) in
           if sigs = [] then [dkim_result DkimNone None]
           else map (\<lambda>(i, h). verify_one K vf D now m i (hdr_value h)) sigs))"

section \<open>What a signature covers\<close>

text \<open>The rule of RFC 6376 section 5.4.2 on the list of headers from the bottom up: each name in the
  list takes the first header of that name that is left, and removes it.\<close>

fun take_first :: "('a \<Rightarrow> bool) \<Rightarrow> 'a list \<Rightarrow> ('a \<times> 'a list) option" where
  "take_first P [] = None"
| "take_first P (x # xs) = (if P x then Some (x, xs) else map_option (\<lambda>(y, ys). (y, x # ys)) (take_first P xs))"

abbreviation named :: "str \<Rightarrow> Header \<Rightarrow> bool" where
  "named n h \<equiv> eq_ignore_ascii_case (hdr_name h) n"

fun bottom_up :: "Canon \<Rightarrow> Header list \<Rightarrow> str list \<Rightarrow> str" where
  "bottom_up c avail [] = []"
| "bottom_up c avail (n # ns) =
     (case take_first (named n) avail of
        Some (h, rest) \<Rightarrow> canon_header c (hdr_name h) (hdr_value h) @ bottom_up c rest ns
      | None \<Rightarrow> bottom_up c avail ns)"

definition unused_rev :: "Header list \<Rightarrow> bool list \<Rightarrow> Header list" where
  "unused_rev hs used = rev (map fst (filter (\<lambda>(h, u). \<not> u) (zip hs used)))"

lemma last_unused_take_first:
  "length used = length hs \<Longrightarrow>
     (case last_unused hs used name of
        None \<Rightarrow> take_first (named name) (unused_rev hs used) = None
      | Some i \<Rightarrow> i < length hs \<and>
          take_first (named name) (unused_rev hs used) = Some (hs ! i, unused_rev hs (used[i := True])))"
proof (induction hs arbitrary: used rule: rev_induct)
  case Nil
  then show ?case
    by (simp add: last_unused_def unused_rev_def)
next
  case (snoc h hs)
  obtain us u where used: "used = us @ [u]"
    using snoc.prems by (cases used rule: rev_cases) auto
  then have len: "length us = length hs"
    using snoc.prems by simp
  have un: "unused_rev (hs @ [h]) (vs @ [v]) = (if v then [] else [h]) @ unused_rev hs vs"
    if "length vs = length hs" for vs v
    using that by (simp add: unused_rev_def)
  have lu: "last_unused (hs @ [h]) (us @ [u]) name =
      (if \<not> u \<and> named name h then Some (length hs) else last_unused hs us name)"
  proof -
    have "find (\<lambda>i. \<not> (us @ [u]) ! i \<and> named name ((hs @ [h]) ! i)) (rev [0..<length hs]) = last_unused hs us name"
      unfolding last_unused_def using len by (intro find_cong) (auto simp: nth_append)
    then show ?thesis
      using len by (simp add: last_unused_def nth_append)
  qed
  show ?case
  proof (cases "\<not> u \<and> named name h")
    case True
    then show ?thesis
      unfolding used lu using len by (simp add: un list_update_append)
  next
    case False
    then show ?thesis
      unfolding used lu using snoc.IH [OF len] len
      by (cases "last_unused hs us name") (auto simp: un nth_append list_update_append)
  qed
qed

lemma hash_loop_bottom_up:
  "length used = length hs \<Longrightarrow> hash_loop c hs used names = bottom_up c (unused_rev hs used) names"
proof (induction names arbitrary: used)
  case (Cons n ns)
  then show ?case
    using last_unused_take_first [OF Cons.prems, of n] Cons.IH [of "used[_ := True]"]
    by (cases "last_unused hs used n") auto
qed simp

lemma hash_loop_all: "hash_loop c hs (replicate (length hs) False) names = bottom_up c (rev hs) names"
proof -
  have "unused_rev hs (replicate (length hs) False) = rev hs"
    by (induction hs rule: rev_induct) (auto simp: unused_rev_def simp flip: replicate_append_same)
  then show ?thesis
    using hash_loop_bottom_up [of "replicate (length hs) False" hs c names] by simp
qed

lemma take_first_find: "map_option fst (take_first P xs) = find P xs"
  by (induction xs) (auto simp: option.map_comp comp_def case_prod_beta)

lemma take_first_holds: "take_first P xs = Some (x, rest) \<Longrightarrow> P x"
  by (induction xs arbitrary: rest) (auto split: if_splits)

lemma take_first_other:
  "take_first P xs = Some (x, rest) \<Longrightarrow> \<not> Q x \<Longrightarrow> find Q rest = find Q xs"
  by (induction xs arbitrary: rest) (auto split: if_splits)

text \<open>The last header of a listed name is covered.\<close>

lemma bottom_up_covers:
  assumes "to_ascii_lowercase n \<in> to_ascii_lowercase ` set names" "find (named n) avail = Some f"
  shows "\<exists>a b. bottom_up c avail names = a @ canon_header c (hdr_name f) (hdr_value f) @ b"
  using assms
proof (induction names arbitrary: avail)
  case (Cons k ks)
  show ?case
  proof (cases "to_ascii_lowercase k = to_ascii_lowercase n")
    case True
    then have "find (named k) avail = Some f"
      using Cons.prems(2) by (simp add: eq_ignore_ascii_case_def)
    then obtain rest where "take_first (named k) avail = Some (f, rest)"
      using take_first_find [of "named k" avail] by auto
    then show ?thesis
      by (intro exI [of _ "[]"] exI [of _ "bottom_up c rest ks"]) simp
  next
    case False
    then have mem: "to_ascii_lowercase n \<in> to_ascii_lowercase ` set ks"
      using Cons.prems(1) by auto
    show ?thesis
    proof (cases "take_first (named k) avail")
      case None
      then show ?thesis
        using Cons.IH [OF mem Cons.prems(2)] by simp
    next
      case (Some p)
      obtain h rest where p: "p = (h, rest)"
        by (rule prod.exhaust)
      have "named k h"
        using Some p take_first_holds [of "named k"] by blast
      then have "\<not> named n h"
        using False by (simp add: eq_ignore_ascii_case_def)
      then have "find (named n) rest = Some f"
        using take_first_other [of "named k" avail h rest "named n"] Some p Cons.prems(2) by simp
      then obtain a b where "bottom_up c rest ks = a @ canon_header c (hdr_name f) (hdr_value f) @ b"
        using Cons.IH [OF mem] by blast
      then show ?thesis
        using Some p by (intro exI [of _ "canon_header c (hdr_name h) (hdr_value h) @ a"] exI [of _ b]) simp
    qed
  qed
qed simp

section \<open>Soundness\<close>

abbreviation from_header :: "Header list \<Rightarrow> Header option" where
  "from_header hs \<equiv> find (named ''from'') (rev hs)"

text \<open>The domain \<open>d\<close> vouches for the message: a signature in it names the domain, is not expired, has
  the digest of the body, lists From, and verifies under a key published by the domain over the
  listed headers taken from the bottom up; the last From header is among what was signed.\<close>

definition endorsed :: "crates \<Rightarrow> verifier \<Rightarrow> dns \<Rightarrow> nat \<Rightarrow> bytes \<Rightarrow> str \<Rightarrow> bool" where
  "endorsed K vf D now raw d \<longleftrightarrow>
     (\<exists>m h sg body texts key.
        split_message raw = Some m \<and> h \<in> set (msg_headers m) \<and> is_dkim h
      \<and> parse_signature K (hdr_value h) = Inr sg \<and> sig_domain sg = d
      \<and> (\<forall>x. sig_expiration sg = Some x \<longrightarrow> now \<le> x)
      \<and> body = (case body_length sg of Some n \<Rightarrow> take n (msg_body m) | None \<Rightarrow> msg_body m)
      \<and> sha256 K (canon_body (body_canon sg) body) = body_hash sg
      \<and> ''from'' \<in> set (signed_headers sg)
      \<and> dns_txt D (sig_selector sg @ ''._domainkey.'' @ d) = Some texts
      \<and> (\<exists>t \<in> set texts. parse_key K t = Some key)
      \<and> vf (sig_algorithm sg) key
          (bottom_up (header_canon sg) (rev (msg_headers m)) (signed_headers sg) @ own_line (header_canon sg) h)
          (sig_signature sg)
      \<and> (\<forall>f. from_header (msg_headers m) = Some f \<longrightarrow>
           (\<exists>a b. bottom_up (header_canon sg) (rev (msg_headers m)) (signed_headers sg) =
                  a @ canon_header (header_canon sg) (hdr_name f) (hdr_value f) @ b)))"

lemma find_map_Some: "find_map f xs = Some y \<Longrightarrow> \<exists>x \<in> set xs. f x = Some y"
  by (induction xs) (auto split: option.splits)

lemma check_key_Pass:
  "check_key K vf D sg input = DkimPass \<Longrightarrow>
     \<exists>texts key. dns_txt D (key_name sg) = Some texts \<and> (\<exists>t \<in> set texts. parse_key K t = Some key) \<and>
       vf (sig_algorithm sg) key input (sig_signature sg)"
  using find_map_Some [of "parse_key K"]
  by (auto simp: check_key_def split: option.splits if_splits) blast

lemma parse_signature_from: "parse_signature K v = Inr sg \<Longrightarrow> ''from'' \<in> set (signed_headers sg)"
  by (auto simp: parse_signature_def and_then_Inr_iff ok_or_Inr_iff list_ex_iff split: if_splits)

lemma verify_one_Pass:
  assumes "dk_outcome (verify_one K vf D now m ix v) = DkimPass"
  obtains sg body where "parse_signature K v = Inr sg" "\<not> expired now sg" "limited_body sg (msg_body m) = Some body"
    "sha256 K (canon_body (body_canon sg) body) = body_hash sg"
    "check_key K vf D sg (hash_input (header_canon sg) (msg_headers m) (signed_headers sg) ix) = DkimPass"
    "dk_domain (verify_one K vf D now m ix v) = Some (sig_domain sg)"
  using assms by (auto simp: verify_one_def dkim_result_def split: sum.splits if_splits option.splits)

lemma verify_message_Pass:
  assumes "r \<in> set (verify_message K vf D now raw)" "dk_outcome r = DkimPass"
  shows "\<exists>d. dk_domain r = Some d \<and> endorsed K vf D now raw d"
proof -
  obtain m i h where m: "split_message raw = Some m" and ih: "(i, h) \<in> set (List.enumerate 0 (msg_headers m))" "is_dkim h"
    and r: "r = verify_one K vf D now m i (hdr_value h)"
    using assms by (auto simp: verify_message_def Let_def dkim_result_def split: option.splits if_splits)
  have h: "h = msg_headers m ! i" "h \<in> set (msg_headers m)"
    using ih(1) by (auto simp: in_set_enumerate_eq)
  obtain sg body where sg: "parse_signature K (hdr_value h) = Inr sg" "\<not> expired now sg"
    "limited_body sg (msg_body m) = Some body" "sha256 K (canon_body (body_canon sg) body) = body_hash sg"
    "check_key K vf D sg (hash_input (header_canon sg) (msg_headers m) (signed_headers sg) i) = DkimPass"
    "dk_domain r = Some (sig_domain sg)"
    using verify_one_Pass [of K vf D now m i "hdr_value h"] assms(2) r by blast
  obtain texts key t where key: "dns_txt D (key_name sg) = Some texts" "t \<in> set texts" "parse_key K t = Some key"
    "vf (sig_algorithm sg) key (hash_input (header_canon sg) (msg_headers m) (signed_headers sg) i) (sig_signature sg)"
    using check_key_Pass [OF sg(5)] by blast
  have covered: "\<exists>a b. bottom_up (header_canon sg) (rev (msg_headers m)) (signed_headers sg) =
      a @ canon_header (header_canon sg) (hdr_name f) (hdr_value f) @ b" if "from_header (msg_headers m) = Some f" for f
    by (rule bottom_up_covers [OF _ that]) (use parse_signature_from [OF sg(1)] in blast)
  have body: "body = (case body_length sg of Some n \<Rightarrow> take n (msg_body m) | None \<Rightarrow> msg_body m)"
    using sg(3) by (auto simp: limited_body_def split: option.splits if_splits)
  have unexpired: "\<forall>x. sig_expiration sg = Some x \<longrightarrow> now \<le> x"
    using sg(2) by (auto simp: expired_def)
  have sign: "vf (sig_algorithm sg) key (bottom_up (header_canon sg) (rev (msg_headers m)) (signed_headers sg)
      @ own_line (header_canon sg) h) (sig_signature sg)"
    using key(4) by (simp add: hash_input_def hash_loop_all h(1))
  have "endorsed K vf D now raw (sig_domain sg)"
    unfolding endorsed_def
    using m h(2) ih(2) sg(1) unexpired body sg(4) parse_signature_from [OF sg(1)]
      key(1) [unfolded key_name_def] key(2, 3) sign covered
    by blast
  then show ?thesis
    using sg(6) by blast
qed

text \<open>C8. A DKIM pass means the domain vouches for the message: a key published by the domain verifies a
  current signature over the body digest and over headers that include the last From header.\<close>

theorem dkim_pass_sound:
  assumes "r \<in> set (verify_message K vf D now raw)" "dk_outcome r = DkimPass"
  shows "\<exists>d. dk_domain r = Some d \<and> endorsed K vf D now raw d"
  using verify_message_Pass [OF assms] .

text \<open>A signed message, with a verifier that accepts the key itself as signature.\<close>

definition sample_signed :: bytes where
  "sample_signed =
     ''DKIM-Signature: v=1; a=ed25519-sha256; d=A; s=s; h=from;'' @ crlf @
     '' bh=anak'' @ concat (replicate 30 ''gc'') @ ''; b=aaab'' @ crlf @
     ''From: bob@a'' @ crlf @ crlf"

definition sample_key_dns :: dns where
  "sample_key_dns = \<lparr>dns_txt = (\<lambda>n. if n = ''s._domainkey.a'' then Some [''v=DKIM1; p=aaab''] else Some []),
     dns_addresses = (\<lambda>_. Some []), dns_mx = (\<lambda>_. Some [])\<rparr>"

definition sample_verifier :: verifier where
  "sample_verifier alg key msg sg \<longleftrightarrow> key = sg"

theorem dkim_pass_sound_witness:
  "endorsed sample_crates sample_verifier sample_key_dns 0 sample_signed ''a''"
proof -
  have "verify_message sample_crates sample_verifier sample_key_dns 0 sample_signed = [dkim_result DkimPass (Some ''a'')]"
    by code_simp
  then show ?thesis
    using dkim_pass_sound [of "dkim_result DkimPass (Some ''a'')" sample_crates sample_verifier sample_key_dns 0 sample_signed]
    by (simp add: dkim_result_def)
qed

end
