(* ===== verification/Spf_Record.thy ===== *)
theory Spf_Record
  imports Ip_Text
begin

text \<open>
  SPF records (\<^verbatim>\<open>src/src/spf/record.rs\<close>) and macro strings (\<^verbatim>\<open>expand_macro\<close> in
  \<^verbatim>\<open>src/src/spf/evaluator.rs\<close>).
\<close>

section \<open>Records\<close>

datatype Qualifier = QPass | QFail | QSoftFail | QNeutral

datatype SpfMechanism =
    MAll
  | MIp4 "32 word" nat
  | MIp6 "128 word" nat
  | MA "str option" nat nat
  | MMx "str option" nat nat
  | MInclude str
  | MExists str
  | MPtr "str option"

record SpfRecord =
  directives :: "(Qualifier \<times> SpfMechanism) list"
  redirect :: "str option"

text \<open>Parsing at the types \<^verbatim>\<open>Ipv4Addr\<close> and \<^verbatim>\<open>Ipv6Addr\<close>.\<close>

definition parse_v4 :: "str \<Rightarrow> 32 word option" where
  "parse_v4 s = (case read_ipv4 s of Some (v, []) \<Rightarrow> Some (of_nat v) | _ \<Rightarrow> None)"

definition parse_v6 :: "str \<Rightarrow> 128 word option" where
  "parse_v6 s = (case read_ipv6 s of Some (v, []) \<Rightarrow> Some (of_nat v) | _ \<Rightarrow> None)"

definition parse_prefix :: "str \<Rightarrow> nat \<Rightarrow> str + nat" where
  "parse_prefix t mx =
     (case parse_unsigned 8 t of
        None \<Rightarrow> Inl (''invalid prefix \"'' @ t @ ''\"'')
      | Some p \<Rightarrow>
          if p > mx then Inl (''prefix /'' @ show_nat p @ '' exceeds /'' @ show_nat mx) else Inr p)"

definition split_cidr :: "str \<Rightarrow> nat \<Rightarrow> str + (str \<times> nat)" where
  "split_cidr v mx =
     (case split_once (CHR ''/'') v of
        Some (addr, prefix) \<Rightarrow> and_then (parse_prefix prefix mx) (\<lambda>p. Inr (addr, p))
      | None \<Rightarrow> Inr (v, mx))"

definition parse_domain_spec :: "str \<Rightarrow> str + (str option \<times> nat \<times> nat)" where
  "parse_domain_spec tl' =
     (let slash = takeWhile (\<lambda>c. c \<noteq> CHR ''/'') tl';
          cidr_part = drop (length slash) tl';
          dm = (case strip_prefix '':'' slash of
                  Some d \<Rightarrow> if d \<noteq> [] then Some d else None
                | None \<Rightarrow> None) in
      if slash \<noteq> [] \<and> dm = None then Inl (''malformed domain spec \"'' @ tl' @ ''\"'')
      else if cidr_part = [] then Inr (dm, 32, 128)
      else
        (let cidr = tl cidr_part;
             (four, six) =
               (case strip_prefix ''/'' cidr of
                  Some rest \<Rightarrow> ([], Some rest)
                | None \<Rightarrow>
                    (case split_once_str ''//'' cidr of
                       Some (f, s) \<Rightarrow> (f, Some s)
                     | None \<Rightarrow> (cidr, None))) in
         and_then (if four \<noteq> [] then parse_prefix four 32 else Inr 32) (\<lambda>prefix4.
         and_then (case six of Some s \<Rightarrow> parse_prefix s 128 | None \<Rightarrow> Inr 128) (\<lambda>prefix6.
           Inr (dm, prefix4, prefix6)))))"

text \<open>The mechanisms after \<^verbatim>\<open>include\<close> in the order of the source.\<close>

definition parse_named_mechanism :: "str \<Rightarrow> str \<Rightarrow> str + SpfMechanism" where
  "parse_named_mechanism body lower =
     (if lower = ''a'' \<or> starts_with ''a:'' lower \<or> starts_with ''a/'' lower then
        and_then (parse_domain_spec (drop 1 lower)) (\<lambda>(dm, p4, p6). Inr (MA dm p4 p6))
      else if lower = ''mx'' \<or> starts_with ''mx:'' lower \<or> starts_with ''mx/'' lower then
        and_then (parse_domain_spec (drop 2 lower)) (\<lambda>(dm, p4, p6). Inr (MMx dm p4 p6))
      else
        (case strip_prefix ''exists:'' lower of
           Some v \<Rightarrow> if v = [] then Inl ''exists without domain'' else Inr (MExists v)
         | None \<Rightarrow>
             if lower = ''ptr'' \<or> starts_with ''ptr:'' lower then
               Inr (MPtr (case strip_prefix ''ptr:'' lower of
                            Some d \<Rightarrow> if d \<noteq> [] then Some d else None
                          | None \<Rightarrow> None))
             else Inl (''unsupported mechanism \"'' @ body @ ''\"'')))"

definition parse_spf_mechanism :: "str \<Rightarrow> str + SpfMechanism" where
  "parse_spf_mechanism body =
     (let lower = to_ascii_lowercase body in
      if lower = ''all'' then Inr MAll
      else
        (case strip_prefix ''ip4:'' lower of
           Some v \<Rightarrow>
             and_then (split_cidr v 32) (\<lambda>(addr, p).
             and_then (ok_or (''invalid ip4 address '' @ addr) (parse_v4 addr)) (\<lambda>n. Inr (MIp4 n p)))
         | None \<Rightarrow>
        (case strip_prefix ''ip6:'' lower of
           Some v \<Rightarrow>
             and_then (split_cidr v 128) (\<lambda>(addr, p).
             and_then (ok_or (''invalid ip6 address '' @ addr) (parse_v6 addr)) (\<lambda>n. Inr (MIp6 n p)))
         | None \<Rightarrow>
        (case strip_prefix ''include:'' lower of
           Some v \<Rightarrow> if v = [] then Inl ''include without domain'' else Inr (MInclude v)
         | None \<Rightarrow> parse_named_mechanism body lower))))"

definition split_qualifier :: "str \<Rightarrow> Qualifier \<times> str" where
  "split_qualifier t =
     (case t of
        [] \<Rightarrow> (QPass, t)
      | c # r \<Rightarrow>
          if c = CHR ''+'' then (QPass, r)
          else if c = CHR ''-'' then (QFail, r)
          else if c = CHR ''~'' then (QSoftFail, r)
          else if c = CHR ''?'' then (QNeutral, r)
          else (QPass, t))"

text \<open>The loop over the terms: a term with \<^verbatim>\<open>=\<close> is a modifier, of which \<^verbatim>\<open>redirect\<close> is kept.\<close>

fun spf_terms :: "str list \<Rightarrow> SpfRecord \<Rightarrow> str + SpfRecord" where
  "spf_terms [] r = Inr r"
| "spf_terms (t # ts) r =
     (case split_once (CHR ''='') t of
        Some (name, v) \<Rightarrow>
          if eq_ignore_ascii_case name ''redirect'' then
            (if redirect r \<noteq> None then Inl ''duplicate redirect modifier''
             else spf_terms ts (r\<lparr>redirect := Some (to_ascii_lowercase v)\<rparr>))
          else spf_terms ts r
      | None \<Rightarrow>
          (case split_qualifier t of (q, body) \<Rightarrow>
             and_then (parse_spf_mechanism body) (\<lambda>m.
               spf_terms ts (r\<lparr>directives := directives r @ [(q, m)]\<rparr>))))"

definition parse_spf :: "str \<Rightarrow> str + SpfRecord" where
  "parse_spf t =
     (case split_ascii_whitespace t of
        [] \<Rightarrow> Inl ''missing v=spf1 version tag''
      | v # terms \<Rightarrow>
          if v \<noteq> ''v=spf1'' then Inl ''missing v=spf1 version tag''
          else spf_terms terms \<lparr>directives = [], redirect = None\<rparr>)"

end
