(* ===== verification/Spf_Check.thy ===== *)
theory Spf_Check
  imports Spf_Record
begin

text \<open>
  SPF evaluation (\<^verbatim>\<open>src/src/spf/evaluator.rs\<close>): outcomes, network tests, macro expansion and
  \<^verbatim>\<open>check_host\<close>. The evaluation threads the budget of DNS-querying terms and, beside it, the number of
  lookups made so far, which the code does not keep but a bound is proved on.
\<close>

definition MAX_DNS_MECHANISMS :: nat where "MAX_DNS_MECHANISMS = 10"

definition MAX_DEPTH :: nat where "MAX_DEPTH = 10"

datatype SpfOutcome = SpfNone | Neutral | Pass | Fail | SoftFail | TempError | PermError

fun spf_as_str :: "SpfOutcome \<Rightarrow> str" where
  "spf_as_str SpfNone = ''none''"
| "spf_as_str Neutral = ''neutral''"
| "spf_as_str Pass = ''pass''"
| "spf_as_str Fail = ''fail''"
| "spf_as_str SoftFail = ''softfail''"
| "spf_as_str TempError = ''temperror''"
| "spf_as_str PermError = ''permerror''"

section \<open>Networks\<close>

definition v4_in_network :: "32 word \<Rightarrow> 32 word \<Rightarrow> nat \<Rightarrow> bool" where
  "v4_in_network ip network p \<longleftrightarrow>
     (let m = (if p = 0 then 0 else push_bit (32 - p) (- 1)) in and ip m = and network m)"

definition v6_in_network :: "128 word \<Rightarrow> 128 word \<Rightarrow> nat \<Rightarrow> bool" where
  "v6_in_network ip network p \<longleftrightarrow>
     (let m = (if p = 0 then 0 else push_bit (128 - p) (- 1)) in and ip m = and network m)"

definition address_matches :: "IpAddr \<Rightarrow> IpAddr \<Rightarrow> nat \<Rightarrow> nat \<Rightarrow> bool" where
  "address_matches ip candidate p4 p6 \<longleftrightarrow>
     (case (ip, candidate) of
        (V4 a, V4 b) \<Rightarrow> v4_in_network a b p4
      | (V6 a, V6 b) \<Rightarrow> v6_in_network a b p6
      | _ \<Rightarrow> False)"

section \<open>Macros\<close>

definition ip_to_macro_str :: "IpAddr \<Rightarrow> str" where
  "ip_to_macro_str ip =
     (case ip of
        V4 w \<Rightarrow> show_v4 w
      | V6 w \<Rightarrow> join ''.'' (concat (map (\<lambda>b. [show_hex (b div 16), show_hex (b mod 16)]) (v6_octets w))))"

text \<open>Transformers: digits, \<^verbatim>\<open>r\<close>, delimiters.\<close>

definition parse_macro_transformers :: "str \<Rightarrow> SpfOutcome + (nat option \<times> bool \<times> str)" where
  "parse_macro_transformers s =
     (let digits = takeWhile is_ascii_digit s;
          rest = drop (length digits) s in
      and_then (if digits = [] then Inr None
                else (case parse_unsigned 64 digits of Some n \<Rightarrow> Inr (Some n) | None \<Rightarrow> Inl PermError))
        (\<lambda>count.
          let reverse = (rest \<noteq> [] \<and> (hd rest = CHR ''r'' \<or> hd rest = CHR ''R''));
              ds = (if reverse then tl rest else rest) in
          if ds = [] then Inr (count, reverse, ''.'')
          else if \<not> list_all (\<lambda>d. d \<in> set ''.+-,/_='') ds then Inl PermError
          else Inr (count, reverse, ds)))"

fun split_any :: "str \<Rightarrow> str \<Rightarrow> str list" where
  "split_any ds [] = [[]]"
| "split_any ds (x # xs) =
     (if x \<in> set ds then [] # split_any ds xs
      else (case split_any ds xs of [] \<Rightarrow> [[x]] | w # ws \<Rightarrow> (x # w) # ws))"

definition expand_macro_inner :: "IpAddr \<Rightarrow> str \<Rightarrow> str \<Rightarrow> str \<Rightarrow> str \<Rightarrow> SpfOutcome + str" where
  "expand_macro_inner ip dm sender helo inner =
     (case inner of
        [] \<Rightarrow> Inl PermError
      | c # cs \<Rightarrow>
          let letter = ascii_lower_char c in
          and_then (parse_macro_transformers cs) (\<lambda>(count, reverse, ds).
          and_then
            (if letter = CHR ''s'' then Inr sender
             else if letter = CHR ''l'' then
               Inr (case split_once (CHR ''@'') sender of Some (l, _) \<Rightarrow> l | None \<Rightarrow> sender)
             else if letter = CHR ''o'' then
               Inr (case rsplit_once (CHR ''@'') sender of Some (_, d) \<Rightarrow> d | None \<Rightarrow> sender)
             else if letter = CHR ''d'' then Inr dm
             else if letter = CHR ''i'' then Inr (ip_to_macro_str ip)
             else if letter = CHR ''v'' then Inr (case ip of V4 _ \<Rightarrow> ''in-addr'' | V6 _ \<Rightarrow> ''ip6'')
             else if letter = CHR ''h'' then Inr helo
             else Inl PermError)
            (\<lambda>raw.
              let parts = split_any ds raw;
                  parts1 = (if reverse then rev parts else parts);
                  parts2 = (case count of Some n \<Rightarrow> drop (length parts1 - n) parts1 | None \<Rightarrow> parts1)
              in Inr (join ''.'' parts2))))"

lemma split_once_shorter: "split_once c s = Some (a, b) \<Longrightarrow> length b < length s"
proof -
  assume "split_once c s = Some (a, b)"
  then have d: "dropWhile (\<lambda>x. x \<noteq> c) s = c # b"
    by (auto simp: split_once_def split: list.splits dest: dropWhile_eq_Cons_conv [THEN iffD1])
  have "length (c # b) \<le> length s" using d length_dropWhile_le by metis
  then show "length b < length s" by simp
qed

function expand_loop :: "IpAddr \<Rightarrow> str \<Rightarrow> str \<Rightarrow> str \<Rightarrow> str \<Rightarrow> SpfOutcome + str" where
  "expand_loop ip dm sender helo rest =
     (case split_once (CHR ''%'') rest of
        None \<Rightarrow> Inr rest
      | Some (pre, rest1) \<Rightarrow>
          (case rest1 of
             [] \<Rightarrow> Inl PermError
           | ch # rest2 \<Rightarrow>
               if ch = CHR ''%'' then
                 and_then (expand_loop ip dm sender helo rest2) (\<lambda>r. Inr (pre @ ''%'' @ r))
               else if ch = CHR ''_'' then
                 and_then (expand_loop ip dm sender helo rest2) (\<lambda>r. Inr (pre @ '' '' @ r))
               else if ch = CHR ''-'' then
                 and_then (expand_loop ip dm sender helo rest2) (\<lambda>r. Inr (pre @ ''%20'' @ r))
               else if ch = CHR ''{'' then
                 (case split_once (CHR ''}'') rest2 of
                    None \<Rightarrow> Inl PermError
                  | Some (inner, rest3) \<Rightarrow>
                      and_then (expand_macro_inner ip dm sender helo inner) (\<lambda>x.
                      and_then (expand_loop ip dm sender helo rest3) (\<lambda>r. Inr (pre @ x @ r))))
               else Inl PermError))"
  by pat_completeness auto
termination
  by (relation "measure (\<lambda>(_, _, _, _, rest). length rest)")
    (auto dest!: split_once_shorter intro: less_trans)

declare expand_loop.simps [simp del]

definition expand_macro :: "str \<Rightarrow> IpAddr \<Rightarrow> str \<Rightarrow> str \<Rightarrow> str \<Rightarrow> SpfOutcome + str" where
  "expand_macro spec ip dm sender helo =
     (if CHR ''%'' \<notin> set spec then Inr spec else expand_loop ip dm sender helo spec)"

section \<open>Evaluation\<close>

definition fetch_record :: "dns \<Rightarrow> str \<Rightarrow> SpfOutcome + SpfRecord option" where
  "fetch_record D dm =
     (case dns_txt D dm of
        None \<Rightarrow> Inl TempError
      | Some texts \<Rightarrow>
          (case filter (\<lambda>t. t = ''v=spf1'' \<or> starts_with ''v=spf1 '' t) texts of
             [] \<Rightarrow> Inr None
           | t # ts \<Rightarrow>
               if ts \<noteq> [] then Inl PermError
               else (case parse_spf t of Inr r \<Rightarrow> Inr (Some r) | Inl _ \<Rightarrow> Inl PermError)))"

text \<open>The state of an evaluation: the remaining budget and the lookups made.\<close>

type_synonym spf_state = "nat \<times> nat"

definition consume :: "spf_state \<Rightarrow> spf_state option" where
  "consume st = (if fst st = 0 then None else Some (fst st - 1, snd st))"

definition asked :: "spf_state \<Rightarrow> spf_state" where
  "asked st = (fst st, snd st + 1)"

text \<open>The addresses of the exchangers of an \<^verbatim>\<open>mx\<close> term, until one matches.\<close>

fun mx_loop :: "dns \<Rightarrow> IpAddr \<Rightarrow> nat \<Rightarrow> nat \<Rightarrow> str list \<Rightarrow> spf_state \<Rightarrow> (SpfOutcome + bool) \<times> spf_state" where
  "mx_loop D ip p4 p6 [] st = (Inr False, st)"
| "mx_loop D ip p4 p6 (x # xs) st =
     (case dns_addresses D x of
        None \<Rightarrow> (Inl TempError, asked st)
      | Some addrs \<Rightarrow>
          if list_ex (\<lambda>a. address_matches ip a p4 p6) addrs then (Inr True, asked st)
          else mx_loop D ip p4 p6 xs (asked st))"

text \<open>One mechanism: \<open>Inl\<close> ends the evaluation with that outcome, \<open>Inr\<close> says whether it matched.
  \<open>sub\<close> evaluates the included domain.\<close>

definition eval_mechanism ::
  "dns \<Rightarrow> IpAddr \<Rightarrow> str \<Rightarrow> str \<Rightarrow> str \<Rightarrow> (str \<Rightarrow> spf_state \<Rightarrow> SpfOutcome \<times> spf_state)
   \<Rightarrow> SpfMechanism \<Rightarrow> spf_state \<Rightarrow> (SpfOutcome + bool) \<times> spf_state" where
  "eval_mechanism D ip dm sender helo sub mech st =
     (case mech of
        MAll \<Rightarrow> (Inr True, st)
      | MIp4 n p \<Rightarrow> (Inr (case ip of V4 a \<Rightarrow> v4_in_network a n p | V6 _ \<Rightarrow> False), st)
      | MIp6 n p \<Rightarrow> (Inr (case ip of V6 a \<Rightarrow> v6_in_network a n p | V4 _ \<Rightarrow> False), st)
      | MA target p4 p6 \<Rightarrow>
          (case consume st of
             None \<Rightarrow> (Inl PermError, st)
           | Some st1 \<Rightarrow>
               (case expand_macro (case target of Some t \<Rightarrow> t | None \<Rightarrow> dm) ip dm sender helo of
                  Inl e \<Rightarrow> (Inl e, st1)
                | Inr name \<Rightarrow>
                    (case dns_addresses D name of
                       Some addrs \<Rightarrow> (Inr (list_ex (\<lambda>a. address_matches ip a p4 p6) addrs), asked st1)
                     | None \<Rightarrow> (Inl TempError, asked st1))))
      | MMx target p4 p6 \<Rightarrow>
          (case consume st of
             None \<Rightarrow> (Inl PermError, st)
           | Some st1 \<Rightarrow>
               (case expand_macro (case target of Some t \<Rightarrow> t | None \<Rightarrow> dm) ip dm sender helo of
                  Inl e \<Rightarrow> (Inl e, st1)
                | Inr name \<Rightarrow>
                    (case dns_mx D name of
                       None \<Rightarrow> (Inl TempError, asked st1)
                     | Some exchangers \<Rightarrow> mx_loop D ip p4 p6 (take 10 exchangers) (asked st1))))
      | MInclude spec \<Rightarrow>
          (case consume st of
             None \<Rightarrow> (Inl PermError, st)
           | Some st1 \<Rightarrow>
               (case expand_macro spec ip dm sender helo of
                  Inl e \<Rightarrow> (Inl e, st1)
                | Inr included \<Rightarrow>
                    (case sub included st1 of (outcome, st2) \<Rightarrow>
                       (case outcome of
                          Pass \<Rightarrow> (Inr True, st2)
                        | Fail \<Rightarrow> (Inr False, st2)
                        | SoftFail \<Rightarrow> (Inr False, st2)
                        | Neutral \<Rightarrow> (Inr False, st2)
                        | SpfNone \<Rightarrow> (Inl PermError, st2)
                        | TempError \<Rightarrow> (Inl TempError, st2)
                        | PermError \<Rightarrow> (Inl PermError, st2)))))
      | MExists d \<Rightarrow>
          (case consume st of
             None \<Rightarrow> (Inl PermError, st)
           | Some st1 \<Rightarrow>
               (case dns_addresses D d of
                  Some addrs \<Rightarrow> (Inr (addrs \<noteq> []), asked st1)
                | None \<Rightarrow> (Inl TempError, asked st1)))
      | MPtr _ \<Rightarrow>
          (case consume st of None \<Rightarrow> (Inl PermError, st) | Some st1 \<Rightarrow> (Inr False, st1)))"

fun qualifier_outcome :: "Qualifier \<Rightarrow> SpfOutcome" where
  "qualifier_outcome QPass = Pass"
| "qualifier_outcome QFail = Fail"
| "qualifier_outcome QSoftFail = SoftFail"
| "qualifier_outcome QNeutral = Neutral"

text \<open>The directives in order: \<open>Inl\<close> an outcome, \<open>Inr\<close> none matched.\<close>

fun eval_directives ::
  "dns \<Rightarrow> IpAddr \<Rightarrow> str \<Rightarrow> str \<Rightarrow> str \<Rightarrow> (str \<Rightarrow> spf_state \<Rightarrow> SpfOutcome \<times> spf_state)
   \<Rightarrow> (Qualifier \<times> SpfMechanism) list \<Rightarrow> spf_state \<Rightarrow> (SpfOutcome + unit) \<times> spf_state" where
  "eval_directives D ip dm sender helo sub [] st = (Inr (), st)"
| "eval_directives D ip dm sender helo sub ((q, m) # ds) st =
     (case eval_mechanism D ip dm sender helo sub m st of
        (Inl e, st1) \<Rightarrow> (Inl e, st1)
      | (Inr matched, st1) \<Rightarrow>
          if matched then (Inl (qualifier_outcome q), st1)
          else eval_directives D ip dm sender helo sub ds st1)"

text \<open>\<^verbatim>\<open>check_host_inner\<close>; the first argument is \<^verbatim>\<open>MAX_DEPTH\<close> minus the depth.\<close>

fun check_host_inner ::
  "nat \<Rightarrow> dns \<Rightarrow> IpAddr \<Rightarrow> str \<Rightarrow> str \<Rightarrow> str \<Rightarrow> spf_state \<Rightarrow> SpfOutcome \<times> spf_state" where
  "check_host_inner 0 D ip sender helo dm st = (PermError, st)"
| "check_host_inner (Suc depth) D ip sender helo dm st =
     (case fetch_record D dm of
        Inl outcome \<Rightarrow> (outcome, asked st)
      | Inr None \<Rightarrow> (SpfNone, asked st)
      | Inr (Some r) \<Rightarrow>
          (case eval_directives D ip dm sender helo (check_host_inner depth D ip sender helo)
                  (directives r) (asked st) of
             (Inl outcome, st1) \<Rightarrow> (outcome, st1)
           | (Inr _, st1) \<Rightarrow>
               (case redirect r of
                  None \<Rightarrow> (Neutral, st1)
                | Some spec \<Rightarrow>
                    (case consume st1 of
                       None \<Rightarrow> (PermError, st1)
                     | Some st2 \<Rightarrow>
                         (case expand_macro spec ip dm sender helo of
                            Inl e \<Rightarrow> (e, st2)
                          | Inr target \<Rightarrow>
                              (case check_host_inner depth D ip sender helo target st2 of
                                 (outcome, st3) \<Rightarrow>
                                   (if outcome = SpfNone then PermError else outcome, st3)))))))"

definition check_host :: "dns \<Rightarrow> IpAddr \<Rightarrow> str \<Rightarrow> str \<Rightarrow> str \<Rightarrow> SpfOutcome" where
  "check_host D ip dm sender helo =
     fst (check_host_inner MAX_DEPTH D ip sender helo dm (MAX_DNS_MECHANISMS, 0))"

section \<open>The lookup bound\<close>

definition cost :: "spf_state \<Rightarrow> nat" where
  "cost st = 11 * fst st + snd st"

lemma consume_cost: "consume st = Some st1 \<Longrightarrow> cost st1 + 11 = cost st"
  by (cases st) (auto simp: consume_def cost_def split: if_splits)

lemma asked_cost [simp]: "cost (asked st) = cost st + 1"
  by (simp add: cost_def asked_def)

lemma mx_loop_cost: "mx_loop D ip p4 p6 xs st = (r, st1) \<Longrightarrow> cost st1 \<le> cost st + length xs"
  by (induction xs arbitrary: st) (fastforce split: option.splits if_splits)+

lemma eval_mechanism_cost:
  assumes "eval_mechanism D ip dm sender helo sub m st = (r, st1)"
    "\<And>d s o' s'. sub d s = (o', s') \<Longrightarrow> cost s' \<le> cost s + 1"
  shows "cost st1 \<le> cost st"
proof (cases "consume st")
  case None
  then show ?thesis
    using assms(1) by (cases m) (auto simp: eval_mechanism_def)
next
  case (Some st0)
  have c: "cost st0 + 11 = cost st" using consume_cost [OF Some] .
  show ?thesis
  proof (cases m)
    case (MMx target p4 p6)
    show ?thesis
    proof (cases "expand_macro (case target of Some t \<Rightarrow> t | None \<Rightarrow> dm) ip dm sender helo")
      case (Inl e)
      then show ?thesis using assms(1) MMx Some c by (simp add: eval_mechanism_def)
    next
      case (Inr name)
      show ?thesis
      proof (cases "dns_mx D name")
        case None
        then show ?thesis using assms(1) MMx Some Inr c by (auto simp: eval_mechanism_def)
      next
        case xs: (Some xs)
        then have "mx_loop D ip p4 p6 (take 10 xs) (asked st0) = (r, st1)"
          using assms(1) MMx Some Inr by (simp add: eval_mechanism_def)
        from mx_loop_cost [OF this] show ?thesis using c by simp
      qed
    qed
  next
    case (MInclude spec)
    show ?thesis
    proof (cases "expand_macro spec ip dm sender helo")
      case (Inl e)
      then show ?thesis using assms(1) MInclude Some c by (simp add: eval_mechanism_def)
    next
      case (Inr d)
      obtain o' s1 where s1: "sub d st0 = (o', s1)" by (rule prod.exhaust)
      then have "st1 = s1"
        using assms(1) MInclude Some Inr by (auto simp: eval_mechanism_def split: SpfOutcome.splits)
      then show ?thesis using assms(2) [OF s1] c by simp
    qed
  qed (use assms(1) Some c in \<open>auto simp: eval_mechanism_def split: sum.splits option.splits\<close>)
qed

lemma eval_directives_cost:
  assumes "eval_directives D ip dm sender helo sub ds st = (r, st1)"
    "\<And>d s o' s'. sub d s = (o', s') \<Longrightarrow> cost s' \<le> cost s + 1"
  shows "cost st1 \<le> cost st"
  using assms(1)
proof (induction ds arbitrary: st)
  case (Cons qm ds)
  obtain q m where qm: "qm = (q, m)" by (cases qm)
  obtain r0 st0 where e: "eval_mechanism D ip dm sender helo sub m st = (r0, st0)" by (rule prod.exhaust)
  have "cost st0 \<le> cost st" by (rule eval_mechanism_cost [OF e assms(2)])
  moreover have "cost st1 \<le> cost st0"
    using Cons e qm by (auto split: sum.splits if_splits)
  ultimately show ?case by simp
qed simp

lemma check_host_inner_cost:
  "check_host_inner depth D ip sender helo dm st = (r, st1) \<Longrightarrow> cost st1 \<le> cost st + 1"
proof (induction depth arbitrary: dm st r st1)
  case (Suc depth)
  note sub = Suc.IH
  show ?case
  proof (cases "fetch_record D dm")
    case (Inr rec)
    show ?thesis
    proof (cases rec)
      case (Some r0)
      obtain x st0 where e: "eval_directives D ip dm sender helo (check_host_inner depth D ip sender helo)
          (directives r0) (asked st) = (x, st0)" by (rule prod.exhaust)
      have d: "cost st0 \<le> cost st + 1" using eval_directives_cost [OF e sub] by simp
      show ?thesis
      proof (cases "consume st0")
        case None
        then show ?thesis
          using Suc.prems Inr Some e d by (auto split: sum.splits option.splits)
      next
        case c: (Some st2)
        show ?thesis
        proof (cases "\<exists>spec target. x = Inr () \<and> redirect r0 = Some spec \<and> expand_macro spec ip dm sender helo = Inr target")
          case True
          then obtain spec target where t: "x = Inr ()" "redirect r0 = Some spec"
            "expand_macro spec ip dm sender helo = Inr target" by blast
          obtain o' st3 where s3: "check_host_inner depth D ip sender helo target st2 = (o', st3)" by (rule prod.exhaust)
          have "st1 = st3" using Suc.prems Inr Some e c t s3 by simp
          then show ?thesis using sub [OF s3] d consume_cost [OF c] by simp
        next
          case False
          then have "st1 = st0 \<or> st1 = st2"
            using Suc.prems Inr Some e c by (cases x; cases "redirect r0") (auto split: sum.splits)
          then show ?thesis using d consume_cost [OF c] by auto
        qed
      qed
    qed (use Suc.prems Inr in auto)
  qed (use Suc.prems in auto)
qed simp

text \<open>C34. However the published records include, redirect or list exchangers, one evaluation makes at
  most 111 DNS lookups: the budget of ten terms and the limit of ten exchangers bound the
  amplification, and the recursion always ends.\<close>

theorem spf_lookup_bound:
  "snd (snd (check_host_inner MAX_DEPTH D ip sender helo dm (MAX_DNS_MECHANISMS, 0))) \<le> 111"
proof -
  obtain r st where "check_host_inner MAX_DEPTH D ip sender helo dm (MAX_DNS_MECHANISMS, 0) = (r, st)"
    by (rule prod.exhaust)
  moreover from this have "cost st \<le> cost (MAX_DNS_MECHANISMS, 0) + 1" by (rule check_host_inner_cost)
  ultimately show ?thesis by (simp add: cost_def MAX_DNS_MECHANISMS_def)
qed

section \<open>Soundness of a pass\<close>

text \<open>When a mechanism other than \<^verbatim>\<open>include\<close> covers the client, read off the DNS.\<close>

definition target_of :: "IpAddr \<Rightarrow> str \<Rightarrow> str \<Rightarrow> str \<Rightarrow> str option \<Rightarrow> SpfOutcome + str" where
  "target_of ip dm sender helo target =
     expand_macro (case target of Some t \<Rightarrow> t | None \<Rightarrow> dm) ip dm sender helo"

fun covers :: "dns \<Rightarrow> IpAddr \<Rightarrow> str \<Rightarrow> str \<Rightarrow> str \<Rightarrow> SpfMechanism \<Rightarrow> bool" where
  "covers D ip dm sender helo MAll = True"
| "covers D ip dm sender helo (MIp4 n p) \<longleftrightarrow> (\<exists>a. ip = V4 a \<and> v4_in_network a n p)"
| "covers D ip dm sender helo (MIp6 n p) \<longleftrightarrow> (\<exists>a. ip = V6 a \<and> v6_in_network a n p)"
| "covers D ip dm sender helo (MA t p4 p6) \<longleftrightarrow>
     (\<exists>name addrs a. target_of ip dm sender helo t = Inr name \<and> dns_addresses D name = Some addrs
        \<and> a \<in> set addrs \<and> address_matches ip a p4 p6)"
| "covers D ip dm sender helo (MMx t p4 p6) \<longleftrightarrow>
     (\<exists>name hosts h addrs a. target_of ip dm sender helo t = Inr name \<and> dns_mx D name = Some hosts
        \<and> h \<in> set hosts \<and> dns_addresses D h = Some addrs \<and> a \<in> set addrs \<and> address_matches ip a p4 p6)"
| "covers D ip dm sender helo (MInclude d) = False"
| "covers D ip dm sender helo (MExists d) \<longleftrightarrow> (\<exists>a addrs. dns_addresses D d = Some (a # addrs))"
| "covers D ip dm sender helo (MPtr d) = False"

text \<open>The domains that authorise a client: by a passing mechanism of their record, by a passing
  include of a domain that does, or by a redirect to one.\<close>

inductive authorizes :: "dns \<Rightarrow> IpAddr \<Rightarrow> str \<Rightarrow> str \<Rightarrow> str \<Rightarrow> bool" for D ip sender helo where
  direct: "fetch_record D dm = Inr (Some r) \<Longrightarrow> (QPass, m) \<in> set (directives r) \<Longrightarrow>
     covers D ip dm sender helo m \<Longrightarrow> authorizes D ip sender helo dm"
| included: "fetch_record D dm = Inr (Some r) \<Longrightarrow> (QPass, MInclude spec) \<in> set (directives r) \<Longrightarrow>
     expand_macro spec ip dm sender helo = Inr d \<Longrightarrow> authorizes D ip sender helo d \<Longrightarrow>
     authorizes D ip sender helo dm"
| redirected: "fetch_record D dm = Inr (Some r) \<Longrightarrow> redirect r = Some spec \<Longrightarrow>
     expand_macro spec ip dm sender helo = Inr d \<Longrightarrow> authorizes D ip sender helo d \<Longrightarrow>
     authorizes D ip sender helo dm"

lemma mx_loop_True:
  "mx_loop D ip p4 p6 xs st = (Inr True, st1) \<Longrightarrow>
   \<exists>h \<in> set xs. \<exists>addrs. dns_addresses D h = Some addrs \<and> (\<exists>a \<in> set addrs. address_matches ip a p4 p6)"
proof (induction xs arbitrary: st)
  case (Cons x xs)
  then show ?case
    by (cases "dns_addresses D x") (auto simp: list_ex_iff split: if_splits)
qed simp

lemma eval_mechanism_True:
  assumes "eval_mechanism D ip dm sender helo sub m st = (Inr True, st1)"
  shows "covers D ip dm sender helo m
    \<or> (\<exists>spec d s s'. m = MInclude spec \<and> expand_macro spec ip dm sender helo = Inr d \<and> sub d s = (Pass, s'))"
proof (cases m)
  case (MMx t p4 p6)
  then obtain name hosts st0 where h: "target_of ip dm sender helo t = Inr name" "dns_mx D name = Some hosts"
    "mx_loop D ip p4 p6 (take 10 hosts) st0 = (Inr True, st1)"
    using assms by (auto simp: eval_mechanism_def target_of_def split: option.splits sum.splits)
  from mx_loop_True [OF h(3)] obtain x addrs a where "x \<in> set hosts" "dns_addresses D x = Some addrs"
    "a \<in> set addrs" "address_matches ip a p4 p6" by (meson in_set_takeD)
  then show ?thesis using MMx h(1,2) by auto
next
  case (MA t p4 p6)
  then show ?thesis
    using assms by (auto simp: eval_mechanism_def target_of_def list_ex_iff split: option.splits sum.splits)
next
  case (MInclude spec)
  then obtain st0 d where d: "expand_macro spec ip dm sender helo = Inr d" "consume st = Some st0"
    using assms by (auto simp: eval_mechanism_def split: option.splits sum.splits)
  obtain o' s' where o: "sub d st0 = (o', s')" by (rule prod.exhaust)
  then have "o' = Pass"
    using assms MInclude d by (cases o') (auto simp: eval_mechanism_def)
  then show ?thesis using MInclude d o by blast
next
  case (MExists d)
  then show ?thesis
    using assms by (auto simp: eval_mechanism_def neq_Nil_conv split: option.splits)
qed (use assms in \<open>auto simp: eval_mechanism_def split: option.splits IpAddr.splits\<close>)

lemma transformers_error: "parse_macro_transformers x = Inl e \<Longrightarrow> e = PermError"
  by (auto simp: parse_macro_transformers_def and_then_def Let_def split: sum.splits option.splits if_splits)

lemma macro_inner_error: "expand_macro_inner ip dm sender helo x = Inl e \<Longrightarrow> e = PermError"
proof (cases x)
  case (Cons c cs)
  assume "expand_macro_inner ip dm sender helo x = Inl e"
  then show ?thesis
    using Cons transformers_error [of cs e]
    by (cases "parse_macro_transformers cs")
      (auto simp: expand_macro_inner_def and_then_def Let_def split: sum.splits if_splits)
qed (simp add: expand_macro_inner_def)

lemma expand_loop_error: "expand_loop ip dm sender helo x = Inl e \<Longrightarrow> e = PermError"
proof (induction ip dm sender helo x rule: expand_loop.induct)
  case (1 ip dm sender helo rest)
  show ?case
  proof (cases "split_once (CHR ''%'') rest")
    case None
    then show ?thesis using "1.prems" by (simp add: expand_loop.simps [of _ _ _ _ rest])
  next
    case (Some p)
    obtain pre rest1 where p: "p = (pre, rest1)" by (rule prod.exhaust)
    show ?thesis
    proof (cases rest1)
      case Nil
      then show ?thesis using "1.prems" Some p by (simp add: expand_loop.simps [of _ _ _ _ rest])
    next
      case (Cons ch rest2)
      then show ?thesis
        using "1.prems" "1.IH" [OF Some p [symmetric] Cons] Some p macro_inner_error
        by (subst (asm) expand_loop.simps) (auto simp: and_then_Inl_iff split: if_splits option.splits)
    qed
  qed
qed

lemma expand_macro_error: "expand_macro x ip dm sender helo = Inl e \<Longrightarrow> e = PermError"
  by (auto simp: expand_macro_def expand_loop_error split: if_splits)

lemma mx_loop_error: "mx_loop D ip p4 p6 xs st = (Inl e, st1) \<Longrightarrow> e = TempError"
proof (induction xs arbitrary: st)
  case (Cons x xs)
  then show ?case by (cases "dns_addresses D x") (auto split: if_splits)
qed simp

lemma eval_mechanism_error:
  assumes "eval_mechanism D ip dm sender helo sub m st = (Inl e, st1)"
  shows "e = TempError \<or> e = PermError"
proof (cases m)
  case (MInclude spec)
  show ?thesis
  proof (cases "consume st")
    case (Some st0)
    show ?thesis
    proof (cases "expand_macro spec ip dm sender helo")
      case (Inr d)
      obtain o' s' where "sub d st0 = (o', s')" by (rule prod.exhaust)
      then show ?thesis
        using assms MInclude Some Inr by (cases o') (auto simp: eval_mechanism_def)
    qed (use assms MInclude Some in \<open>auto simp: eval_mechanism_def dest: expand_macro_error\<close>)
  qed (use assms MInclude in \<open>auto simp: eval_mechanism_def\<close>)
qed (use assms in \<open>auto simp: eval_mechanism_def split: option.splits sum.splits
      dest: expand_macro_error mx_loop_error\<close>)

lemma eval_directives_Pass:
  assumes "eval_directives D ip dm sender helo sub ds st = (Inl Pass, st1)"
  shows "\<exists>m \<in> {m. (QPass, m) \<in> set ds}. covers D ip dm sender helo m
    \<or> (\<exists>spec d s s'. m = MInclude spec \<and> expand_macro spec ip dm sender helo = Inr d \<and> sub d s = (Pass, s'))"
  using assms
proof (induction ds arbitrary: st)
  case (Cons qm ds)
  obtain q m where qm: "qm = (q, m)" by (rule prod.exhaust)
  obtain r st0 where e: "eval_mechanism D ip dm sender helo sub m st = (r, st0)" by (rule prod.exhaust)
  show ?case
  proof (cases "r = Inr True")
    case True
    then have "q = QPass" using Cons.prems e qm by (cases q) auto
    then show ?thesis using eval_mechanism_True [OF e [unfolded True]] qm by auto
  next
    case False
    then have "eval_directives D ip dm sender helo sub ds st0 = (Inl Pass, st1)"
      using Cons.prems e qm eval_mechanism_error [of D ip dm sender helo sub m st] by (auto split: sum.splits if_splits)
    from Cons.IH [OF this] show ?thesis by auto
  qed
qed simp

lemma check_host_inner_Pass:
  "check_host_inner depth D ip sender helo dm st = (Pass, st1) \<Longrightarrow> authorizes D ip sender helo dm"
proof (induction depth arbitrary: dm st st1)
  case (Suc depth)
  note sub = Suc.IH
  obtain r where r: "fetch_record D dm = Inr (Some r)"
  proof (cases "fetch_record D dm")
    case (Inl e)
    then have "e = TempError \<or> e = PermError"
      by (auto simp: fetch_record_def split: option.splits list.splits if_splits sum.splits)
    then show thesis using Suc.prems Inl by auto
  next
    case (Inr x)
    then show thesis using Suc.prems that by (cases x) auto
  qed
  obtain x st0 where e: "eval_directives D ip dm sender helo (check_host_inner depth D ip sender helo)
      (directives r) (asked st) = (x, st0)" by (rule prod.exhaust)
  show ?case
  proof (cases x)
    case (Inl out)
    then have "x = Inl Pass" using Suc.prems r e by simp
    from eval_directives_Pass [OF e [unfolded this]]
    obtain m where m: "(QPass, m) \<in> set (directives r)"
      "covers D ip dm sender helo m \<or> (\<exists>spec d s s'. m = MInclude spec \<and> expand_macro spec ip dm sender helo = Inr d
         \<and> check_host_inner depth D ip sender helo d s = (Pass, s'))"
      by blast
    from m(2) show ?thesis
    proof
      assume "covers D ip dm sender helo m"
      then show ?thesis by (rule authorizes.direct [OF r m(1)])
    next
      assume "\<exists>spec d s s'. m = MInclude spec \<and> expand_macro spec ip dm sender helo = Inr d
         \<and> check_host_inner depth D ip sender helo d s = (Pass, s')"
      then obtain spec d s s' where i: "m = MInclude spec" "expand_macro spec ip dm sender helo = Inr d"
        "check_host_inner depth D ip sender helo d s = (Pass, s')" by blast
      show ?thesis by (rule authorizes.included [OF r m(1) [unfolded i(1)] i(2) sub [OF i(3)]])
    qed
  next
    case (Inr u)
    show ?thesis
    proof (cases "redirect r")
      case (Some spec)
      obtain st2 where c: "consume st0 = Some st2"
        using Suc.prems r e Inr Some by (cases "consume st0") auto
      obtain d where d: "expand_macro spec ip dm sender helo = Inr d"
        using Suc.prems r e Inr Some c expand_macro_error
        by (cases "expand_macro spec ip dm sender helo") force+
      obtain o' st3 where o: "check_host_inner depth D ip sender helo d st2 = (o', st3)" by (rule prod.exhaust)
      then have "o' = Pass" using Suc.prems r e Inr Some c d by (auto split: if_splits)
      then show ?thesis using authorizes.redirected [OF r Some d] sub o by blast
    qed (use Suc.prems r e Inr in simp)
  qed
qed simp


definition sample_dns :: dns where
  "sample_dns = \<lparr>
     dns_txt = (\<lambda>n. Some (if n = ''b.org'' then [''v=spf1 include:c.org -all'']
                         else if n = ''c.org'' then [''hi'', ''v=spf1 ip4:0.0.2.0/24'']
                         else if n = ''e.org'' then [''v=spf1 exists:%{i}.e.org -all''] else [])),
     dns_addresses = (\<lambda>n. Some (if n = ''192.0.2.1.e.org'' then [V4 0x7F000002] else [])),
     dns_mx = (\<lambda>_. Some [])\<rparr>"


text \<open>The \<^verbatim>\<open>exists\<close> mechanism looks up its domain without macro expansion: a client listed under
  the name its macro stands for is not matched, and the evaluation goes on to fail it.\<close>

lemma spf_exists_unexpanded:
  "expand_macro ''%{i}.e.org'' (V4 0xC0000201) ''e.org'' ''a@e.org'' ''h'' = Inr ''192.0.2.1.e.org''
   \<and> dns_addresses sample_dns ''192.0.2.1.e.org'' = Some [V4 0x7F000002]
   \<and> check_host sample_dns (V4 0xC0000201) ''e.org'' ''a@e.org'' ''h'' = Fail"
  by code_simp

end
