(* ===== verification/Dmarc.thy ===== *)
theory Dmarc
  imports Dkim_Verify Spf_Check
begin

text \<open>
  DMARC: record parsing (\<^verbatim>\<open>dmarc/record.rs\<close>) and evaluation (\<^verbatim>\<open>dmarc/evaluate.rs\<close>). The public suffix
  list of the \<^verbatim>\<open>psl\<close> crate is the parameter \<open>psl\<close>; the octet \<^verbatim>\<open>sample_pct\<close> draws is an argument.
\<close>

section \<open>Records\<close>

datatype Policy = PolicyNone | PolicyQuarantine | PolicyReject

datatype Alignment = AlignRelaxed | AlignStrict

record DmarcRecord =
  dm_policy :: Policy
  dm_subdomain_policy :: Policy
  dkim_alignment :: Alignment
  spf_alignment :: Alignment
  dm_pct :: nat
  dm_rua :: "str list"

definition parse_policy :: "str \<Rightarrow> Policy option" where
  "parse_policy v =
     (let l = to_ascii_lowercase v in
      if l = ''none'' then Some PolicyNone
      else if l = ''quarantine'' then Some PolicyQuarantine
      else if l = ''reject'' then Some PolicyReject else None)"

definition parse_alignment :: "str \<Rightarrow> Alignment option" where
  "parse_alignment v =
     (let l = to_ascii_lowercase v in
      if l = ''r'' then Some AlignRelaxed else if l = ''s'' then Some AlignStrict else None)"

definition duri :: "str \<Rightarrow> str option" where
  "duri raw =
     (let uri = trim raw in
      if uri = [] then None
      else let uri = (case rsplit_once (CHR ''!'') uri of Some (u, _) \<Rightarrow> trim_end u | None \<Rightarrow> uri)
           in if uri = [] then None else Some (to_ascii_lowercase uri))"

definition parse_duri_list :: "str \<Rightarrow> str list" where
  "parse_duri_list v = List.map_filter duri (split_on (CHR '','') v)"

record DmarcTags =
  dt_policy :: "Policy option"
  dt_subdomain :: "Policy option"
  dt_dkim :: Alignment
  dt_spf :: Alignment
  dt_pct :: nat
  dt_rua :: "str list"

text \<open>One tag; \<open>None\<close> is the malformed record.\<close>

definition dmarc_tag :: "str \<Rightarrow> str \<Rightarrow> DmarcTags \<Rightarrow> DmarcTags option" where
  "dmarc_tag name v t =
     (if name = ''p'' then map_option (\<lambda>p. t\<lparr>dt_policy := Some p\<rparr>) (parse_policy v)
      else if name = ''sp'' then map_option (\<lambda>p. t\<lparr>dt_subdomain := Some p\<rparr>) (parse_policy v)
      else if name = ''adkim'' then map_option (\<lambda>a. t\<lparr>dt_dkim := a\<rparr>) (parse_alignment v)
      else if name = ''aspf'' then map_option (\<lambda>a. t\<lparr>dt_spf := a\<rparr>) (parse_alignment v)
      else if name = ''pct'' then map_option (\<lambda>n. t\<lparr>dt_pct := min n 100\<rparr>) (parse_unsigned 8 v)
      else if name = ''rua'' then Some (t\<lparr>dt_rua := parse_duri_list v\<rparr>)
      else Some t)"

fun dmarc_tags :: "str list \<Rightarrow> DmarcTags \<Rightarrow> DmarcTags option" where
  "dmarc_tags [] t = Some t"
| "dmarc_tags (tg # tags) t =
     (if tg = [] then dmarc_tags tags t
      else Option.bind (split_once (CHR ''='') tg) (\<lambda>(name, v).
           Option.bind (dmarc_tag (trim name) (trim v) t) (dmarc_tags tags)))"

text \<open>\<open>None\<close>: not a DMARC record; \<open>Some None\<close>: malformed.\<close>

definition parse_dmarc :: "str \<Rightarrow> DmarcRecord option option" where
  "parse_dmarc text =
     (case map trim (split_on (CHR '';'') text) of
        [] \<Rightarrow> None
      | v # tags \<Rightarrow>
          if v \<noteq> ''v=DMARC1'' then None
          else Some (Option.bind (dmarc_tags tags \<lparr>dt_policy = None, dt_subdomain = None, dt_dkim = AlignRelaxed,
                                   dt_spf = AlignRelaxed, dt_pct = 100, dt_rua = []\<rparr>) (\<lambda>t.
                     map_option (\<lambda>p. \<lparr>dm_policy = p,
                       dm_subdomain_policy = (case dt_subdomain t of Some q \<Rightarrow> q | None \<Rightarrow> p),
                       dkim_alignment = dt_dkim t, spf_alignment = dt_spf t, dm_pct = dt_pct t, dm_rua = dt_rua t\<rparr>)
                     (dt_policy t))))"

section \<open>The From domain\<close>

definition from_rest :: "str \<Rightarrow> str option" where
  "from_rest content =
     (if 5 \<le> length content \<and> is_char_boundary content 5 \<and> eq_ignore_ascii_case (take 5 content) ''from:''
      then Some (drop 5 content) else None)"

text \<open>The loop over the header lines. The state is \<^verbatim>\<open>from_value\<close>, \<^verbatim>\<open>current\<close> and \<^verbatim>\<open>in_from\<close>; the result
  \<open>None\<close> is the early return on a second From header.\<close>

definition close_from :: "str option \<Rightarrow> str option \<Rightarrow> bool \<Rightarrow> (str option \<times> str option) option" where
  "close_from fv cur inside =
     (if inside then (if fv \<noteq> None then None else Some (cur, None)) else Some (fv, cur))"

fun from_loop :: "str option \<Rightarrow> str option \<Rightarrow> bool \<Rightarrow> str list \<Rightarrow> str option option" where
  "from_loop fv cur inside [] = map_option fst (close_from fv cur inside)"
| "from_loop fv cur inside (line # ls) =
     (let content = strip_crlf line in
      if is_folded content then
        from_loop fv (if inside then map_option (\<lambda>v. v @ '' '' @ trim content) cur else cur) inside ls
      else Option.bind (close_from fv cur inside) (\<lambda>(fv', cur').
        case from_rest content of
          Some rest \<Rightarrow> from_loop fv' (Some (trim rest)) True ls
        | None \<Rightarrow> from_loop fv' cur' False ls))"

definition rfind :: "char \<Rightarrow> str \<Rightarrow> nat option" where
  "rfind c s = map_option (\<lambda>(a, _). length a) (rsplit_once c s)"

definition address_domain :: "str \<Rightarrow> str option" where
  "address_domain v =
     (let address = (case (rfind (CHR ''<'') v, rfind (CHR ''>'') v) of
                       (Some i, Some j) \<Rightarrow> if i < j then take (j - (i + 1)) (drop (i + 1) v) else trim v
                     | _ \<Rightarrow> trim v)
      in Option.bind (rsplit_once (CHR ''@'') address) (\<lambda>(_, d).
         let d = to_ascii_lowercase (trim d) in
         if d = [] \<or> CHR '' '' \<in> set d then None else Some d))"

definition from_domain :: "bytes \<Rightarrow> str option" where
  "from_domain raw =
     Option.bind (from_utf8 (take (header_end raw) raw)) (\<lambda>headers.
     Option.bind (from_loop None None False (lines_crlf headers)) (\<lambda>fv.
     Option.bind fv address_domain))"

section \<open>Evaluation\<close>

datatype DmarcOutcome = DmarcPass | DmarcReject | DmarcFail | DmarcNone | DmarcTempError | DmarcPermError

fun dmarc_as_str :: "DmarcOutcome \<Rightarrow> str" where
  "dmarc_as_str DmarcPass = ''pass''"
| "dmarc_as_str DmarcReject = ''fail''"
| "dmarc_as_str DmarcFail = ''fail''"
| "dmarc_as_str DmarcNone = ''none''"
| "dmarc_as_str DmarcTempError = ''temperror''"
| "dmarc_as_str DmarcPermError = ''permerror''"

type_synonym suffix_list = "bytes \<Rightarrow> bytes option"

definition organizational_domain :: "suffix_list \<Rightarrow> str \<Rightarrow> str" where
  "organizational_domain psl domain =
     (case Option.bind (psl domain) from_utf8 of
        Some s \<Rightarrow> to_ascii_lowercase s
      | None \<Rightarrow>
          (let labels = split_on (CHR ''.'') domain in
           if length labels \<le> 2 then domain else join ''.'' (drop (length labels - 2) labels)))"

definition aligned :: "suffix_list \<Rightarrow> Alignment \<Rightarrow> str \<Rightarrow> str \<Rightarrow> bool" where
  "aligned psl mode identifier from_dom =
     (let i = to_ascii_lowercase identifier; f = to_ascii_lowercase from_dom in
      case mode of
        AlignStrict \<Rightarrow> i = f
      | AlignRelaxed \<Rightarrow> organizational_domain psl i = organizational_domain psl f)"

definition dmarc_lookup :: "dns \<Rightarrow> str \<Rightarrow> DmarcOutcome + DmarcRecord option" where
  "dmarc_lookup D domain =
     (case dns_txt D (''_dmarc.'' @ domain) of
        None \<Rightarrow> Inl DmarcTempError
      | Some texts \<Rightarrow>
          (case List.map_filter parse_dmarc texts of
             [] \<Rightarrow> Inr None
           | [Some r] \<Rightarrow> Inr (Some r)
           | [None] \<Rightarrow> Inl DmarcPermError
           | _ \<Rightarrow> Inr None))"

definition fetch_dmarc :: "suffix_list \<Rightarrow> dns \<Rightarrow> str \<Rightarrow> DmarcOutcome + (DmarcRecord \<times> Policy) option" where
  "fetch_dmarc psl D domain =
     and_then (dmarc_lookup D domain) (\<lambda>r.
     case r of
       Some rec \<Rightarrow> Inr (Some (rec, dm_policy rec))
     | None \<Rightarrow>
         (let org = organizational_domain psl domain in
          if org \<noteq> domain then
            and_then (dmarc_lookup D org) (\<lambda>r2.
              Inr (map_option (\<lambda>rec. (rec, dm_subdomain_policy rec)) r2))
          else Inr None))"

definition sample_pct :: "char \<Rightarrow> nat" where
  "sample_pct b = code b mod 100 + 1"

definition dkim_aligned :: "suffix_list \<Rightarrow> DmarcRecord \<Rightarrow> str \<Rightarrow> DkimResult list \<Rightarrow> bool" where
  "dkim_aligned psl rec from_dom dkim \<longleftrightarrow>
     list_ex (\<lambda>r. dk_outcome r = DkimPass \<and>
       (case dk_domain r of Some d \<Rightarrow> aligned psl (dkim_alignment rec) d from_dom | None \<Rightarrow> False)) dkim"

definition spf_aligned :: "suffix_list \<Rightarrow> DmarcRecord \<Rightarrow> str \<Rightarrow> SpfOutcome \<times> str option \<Rightarrow> bool" where
  "spf_aligned psl rec from_dom spf \<longleftrightarrow>
     fst spf = Pass \<and> (case snd spf of Some d \<Rightarrow> aligned psl (spf_alignment rec) d from_dom | None \<Rightarrow> False)"

definition evaluate_inner ::
  "suffix_list \<Rightarrow> dns \<Rightarrow> str \<Rightarrow> SpfOutcome \<times> str option \<Rightarrow> DkimResult list \<Rightarrow> nat \<Rightarrow> DmarcOutcome" where
  "evaluate_inner psl D from_dom spf dkim roll =
     (case fetch_dmarc psl D from_dom of
        Inl e \<Rightarrow> e
      | Inr None \<Rightarrow> DmarcNone
      | Inr (Some (rec, applied)) \<Rightarrow>
          if dkim_aligned psl rec from_dom dkim \<or> spf_aligned psl rec from_dom spf then DmarcPass
          else (case applied of
                  PolicyNone \<Rightarrow> DmarcFail
                | _ \<Rightarrow> if dm_pct rec < 100 \<and> roll > dm_pct rec then DmarcFail else DmarcReject))"

definition evaluate_dmarc ::
  "suffix_list \<Rightarrow> dns \<Rightarrow> char \<Rightarrow> str \<Rightarrow> SpfOutcome \<times> str option \<Rightarrow> DkimResult list \<Rightarrow> DmarcOutcome" where
  "evaluate_dmarc psl D b from_dom spf dkim = evaluate_inner psl D from_dom spf dkim (sample_pct b)"

section \<open>Exactly one From header\<close>

text \<open>The values of the From headers of a header block, unfolded; folded lines that continue another
  header belong to no value.\<close>

definition unfold_tail :: "str list \<Rightarrow> str" where
  "unfold_tail ls = concat (map (\<lambda>l. '' '' @ trim (strip_crlf l)) (takeWhile (\<lambda>l. is_folded (strip_crlf l)) ls))"

fun from_fields :: "str list \<Rightarrow> str list" where
  "from_fields [] = []"
| "from_fields (line # ls) =
     (case (if is_folded (strip_crlf line) then None else from_rest (strip_crlf line)) of
        Some rest \<Rightarrow> (trim rest @ unfold_tail ls) # from_fields ls
      | None \<Rightarrow> from_fields ls)"

definition only_field :: "str list \<Rightarrow> str option option" where
  "only_field fs = (case fs of [] \<Rightarrow> Some None | [v] \<Rightarrow> Some (Some v) | _ \<Rightarrow> None)"

lemma from_loop_fields:
  "from_loop fv cur False ls = only_field (case_option [] (\<lambda>v. [v]) fv @ from_fields ls)"
  "from_loop fv (Some c) True ls = only_field (case_option [] (\<lambda>v. [v]) fv @ (c @ unfold_tail ls) # from_fields ls)"
proof (induction ls arbitrary: fv cur c)
  case Nil
  {
    case 1
    then show ?case
      by (cases fv) (simp_all add: close_from_def only_field_def)
  next
    case 2
    then show ?case
      by (cases fv) (simp_all add: close_from_def only_field_def unfold_tail_def)
  }
next
  case (Cons l ls)
  {
    case 1
    then show ?case
      using Cons by (simp add: Let_def close_from_def split: option.split)
  next
    case 2
    show ?case
    proof (cases "is_folded (strip_crlf l)")
      case True
      then show ?thesis
        using Cons by (simp add: Let_def unfold_tail_def)
    next
      case False
      then show ?thesis
        using Cons by (cases fv) (auto simp: Let_def close_from_def unfold_tail_def only_field_def split: option.split)
    qed
  }
qed


text \<open>A second From header escapes the check when white space stands before its colon: the DKIM
  code reads two From headers in this message, \<^verbatim>\<open>from_domain\<close> only the first.\<close>

lemma from_domain_obsolete:
  "\<exists>m. split_message (''From: a@x'' @ crlf @ ''From : b@y'' @ crlf @ crlf) = Some m \<and>
     map hdr_name (msg_headers m) = [''From'', ''From''] \<and>
     from_domain (''From: a@x'' @ crlf @ ''From : b@y'' @ crlf @ crlf) = Some ''x''"
proof -
  have "split_message (''From: a@x'' @ crlf @ ''From : b@y'' @ crlf @ crlf) =
      Some \<lparr>msg_headers = [\<lparr>hdr_name = ''From'', hdr_value = '' a@x''\<rparr>, \<lparr>hdr_name = ''From'', hdr_value = '' b@y''\<rparr>], msg_body = []\<rparr>"
    by code_simp
  moreover have "from_domain (''From: a@x'' @ crlf @ ''From : b@y'' @ crlf @ crlf) = Some ''x''"
    by code_simp
  ultimately show ?thesis
    by simp
qed

end
