(* ===== verification/Smtp_Command.thy ===== *)
theory Smtp_Command
  imports Rust_Prelude
begin

text \<open>
  SMTP command parsing (\<^verbatim>\<open>src/src/smtp/command.rs\<close>): the command type, the line parser and its
  argument and parameter parsers, one definition per source function. A reference printer
  (\<open>print_command\<close>) gives the round trip the parser is measured against.
\<close>

section \<open>Commands\<close>

definition MAX_COMMAND_LINE :: nat where
  "MAX_COMMAND_LINE = 512"

datatype Body = SevenBit | EightBitMime

datatype Ret = Full | Headers

datatype Notify = Never | On (notify_success: bool) (notify_failure: bool) (notify_delay: bool)

datatype Command =
    Helo str
  | Ehlo str
  | MailFrom str "nat option" "Body option" bool "Ret option" "str option"
      \<comment> \<open>reverse path, size, body, require\_tls, ret, envid\<close>
  | RcptTo str "Notify option" "str option"
      \<comment> \<open>forward path, notify, orcpt\<close>
  | Data
  | Bdat nat bool
  | Rset
  | Noop
  | Quit
  | Vrfy
  | StartTls
  | Auth str "str option"

datatype ParseError =
  LineTooLong | InvalidCharacters | UnknownCommand | InvalidArguments | UnsupportedParameter

section \<open>Argument parsers\<close>

definition parse_bdat :: "str \<Rightarrow> ParseError + Command" where
  "parse_bdat args =
     (case split_ascii_whitespace args of
        [] \<Rightarrow> Inl InvalidArguments
      | t # rest \<Rightarrow>
          and_then (ok_or InvalidArguments (parse_unsigned 64 t)) (\<lambda>size.
            (case rest of
               [] \<Rightarrow> Inr (Bdat size False)
             | token # rest' \<Rightarrow>
                 if eq_ignore_ascii_case token ''LAST'' then
                   (if rest' \<noteq> [] then Inl InvalidArguments else Inr (Bdat size True))
                 else Inl InvalidArguments)))"

definition mech_char :: "char \<Rightarrow> bool" where
  "mech_char c \<longleftrightarrow> is_ascii_alphanumeric c \<or> c = CHR ''-'' \<or> c = CHR ''_''"

definition parse_auth :: "str \<Rightarrow> ParseError + Command" where
  "parse_auth args =
     (case split_ascii_whitespace args of
        [] \<Rightarrow> Inl InvalidArguments
      | mechanism # rest \<Rightarrow>
          if length rest > 1 then Inl InvalidArguments
          else if \<not> list_all mech_char mechanism then Inl InvalidArguments
          else Inr (Auth (to_ascii_uppercase mechanism)
                 (case rest of [] \<Rightarrow> None | i # _ \<Rightarrow> Some (if i = ''='' then [] else i))))"

definition parse_no_args :: "str \<Rightarrow> Command \<Rightarrow> ParseError + Command" where
  "parse_no_args args c = (if args = [] then Inr c else Inl InvalidArguments)"

definition parse_domain_arg :: "str \<Rightarrow> ParseError + str" where
  "parse_domain_arg args =
     (if args = [] \<or> CHR '' '' \<in> set args then Inl InvalidArguments else Inr args)"

text \<open>\<^verbatim>\<open>str::get(..n)\<close>.\<close>

definition str_get_to :: "str \<Rightarrow> nat \<Rightarrow> str option" where
  "str_get_to s n = (if n \<le> length s \<and> is_char_boundary s n then Some (take n s) else None)"

definition parse_path_arg :: "str \<Rightarrow> str \<Rightarrow> ParseError + (str \<times> str)" where
  "parse_path_arg args prefix =
     and_then
       (case str_get_to args (length prefix) of
          None \<Rightarrow> Inl InvalidArguments
        | Some head \<Rightarrow>
            if eq_ignore_ascii_case head prefix then Inr (trim_start (drop (length prefix) args))
            else Inl InvalidArguments) (\<lambda>rest.
     and_then (ok_or InvalidArguments (strip_prefix ''<'' rest)) (\<lambda>after_open.
     and_then (ok_or InvalidArguments (split_once (CHR ''>'') after_open)) (\<lambda>(path, after_close).
       if CHR ''<'' \<in> set path \<or> CHR ''>'' \<in> set path \<or> CHR '' '' \<in> set path
       then Inl InvalidArguments
       else if after_close \<noteq> [] \<and> \<not> starts_with '' '' after_close then Inl InvalidArguments
       else Inr (path, trim after_close))))"

section \<open>Parameters\<close>

record MailParams =
  mp_size :: "nat option"
  mp_body :: "Body option"
  mp_require_tls :: bool
  mp_ret :: "Ret option"
  mp_envid :: "str option"

definition mail_params_default :: MailParams where
  "mail_params_default =
     \<lparr>mp_size = None, mp_body = None, mp_require_tls = False, mp_ret = None, mp_envid = None\<rparr>"

definition keyword_char :: "char \<Rightarrow> bool" where
  "keyword_char c \<longleftrightarrow> is_ascii_alphanumeric c \<or> c = CHR ''-''"

definition split_parameter :: "str \<Rightarrow> str \<times> str option" where
  "split_parameter p =
     (case split_once (CHR ''='') p of Some (k, v) \<Rightarrow> (k, Some v) | None \<Rightarrow> (p, None))"

fun split_parameters_loop :: "str list \<Rightarrow> ParseError + (str \<times> str option) list" where
  "split_parameters_loop [] = Inr []"
| "split_parameters_loop (p # ps) =
     (let (keyword, v) = split_parameter p in
      if keyword = [] \<or> \<not> list_all keyword_char keyword then Inl InvalidArguments
      else and_then (split_parameters_loop ps) (\<lambda>out. Inr ((keyword, v) # out)))"

definition split_parameters :: "str \<Rightarrow> ParseError + (str \<times> str option) list" where
  "split_parameters params = split_parameters_loop (split_ascii_whitespace params)"

definition parse_body :: "str \<Rightarrow> ParseError + Body" where
  "parse_body v =
     (let u = to_ascii_uppercase v in
      if u = ''7BIT'' then Inr SevenBit else if u = ''8BITMIME'' then Inr EightBitMime
      else Inl InvalidArguments)"

definition parse_ret :: "str \<Rightarrow> ParseError + Ret" where
  "parse_ret v =
     (let u = to_ascii_uppercase v in
      if u = ''FULL'' then Inr Full else if u = ''HDRS'' then Inr Headers
      else Inl InvalidArguments)"

text \<open>One iteration of the loop of \<^verbatim>\<open>parse_mail_parameters\<close>.\<close>

definition mail_parameter :: "MailParams \<Rightarrow> str \<times> str option \<Rightarrow> ParseError + MailParams" where
  "mail_parameter out kv =
     (let (keyword, v) = kv; k = to_ascii_uppercase keyword in
      if k = ''SIZE'' then
        and_then (ok_or InvalidArguments v) (\<lambda>x.
        and_then (ok_or InvalidArguments (parse_unsigned 64 x)) (\<lambda>n.
          if mp_size out \<noteq> None then Inl InvalidArguments else Inr (out\<lparr>mp_size := Some n\<rparr>)))
      else if k = ''BODY'' then
        and_then (ok_or InvalidArguments v) (\<lambda>x.
        and_then (parse_body x) (\<lambda>b.
          if mp_body out \<noteq> None then Inl InvalidArguments else Inr (out\<lparr>mp_body := Some b\<rparr>)))
      else if k = ''REQUIRETLS'' then
        (if v \<noteq> None \<or> mp_require_tls out then Inl InvalidArguments
         else Inr (out\<lparr>mp_require_tls := True\<rparr>))
      else if k = ''SMTPUTF8'' then
        (if v \<noteq> None then Inl InvalidArguments else Inr out)
      else if k = ''RET'' then
        and_then (ok_or InvalidArguments v) (\<lambda>x.
        and_then (parse_ret x) (\<lambda>r.
          if mp_ret out \<noteq> None then Inl InvalidArguments else Inr (out\<lparr>mp_ret := Some r\<rparr>)))
      else if k = ''ENVID'' then
        and_then (ok_or InvalidArguments v) (\<lambda>x.
          if mp_envid out \<noteq> None then Inl InvalidArguments else Inr (out\<lparr>mp_envid := Some x\<rparr>))
      else Inl UnsupportedParameter)"

fun mail_parameters_loop :: "MailParams \<Rightarrow> (str \<times> str option) list \<Rightarrow> ParseError + MailParams" where
  "mail_parameters_loop out [] = Inr out"
| "mail_parameters_loop out (kv # kvs) =
     and_then (mail_parameter out kv) (\<lambda>out'. mail_parameters_loop out' kvs)"

definition parse_mail_parameters :: "str \<Rightarrow> ParseError + MailParams" where
  "parse_mail_parameters params =
     and_then (split_parameters params) (mail_parameters_loop mail_params_default)"

text \<open>The flags \<open>(never, success, failure, delay)\<close> the loop of \<^verbatim>\<open>parse_notify\<close> collects.\<close>

fun notify_loop :: "bool \<times> bool \<times> bool \<times> bool \<Rightarrow> str list \<Rightarrow> ParseError + (bool \<times> bool \<times> bool \<times> bool)" where
  "notify_loop fl [] = Inr fl"
| "notify_loop (n, s, f, d) (token # tokens) =
     (let u = to_ascii_uppercase token in
      if u = ''NEVER'' then notify_loop (True, s, f, d) tokens
      else if u = ''SUCCESS'' then notify_loop (n, True, f, d) tokens
      else if u = ''FAILURE'' then notify_loop (n, s, True, d) tokens
      else if u = ''DELAY'' then notify_loop (n, s, f, True) tokens
      else Inl InvalidArguments)"

definition parse_notify :: "str \<Rightarrow> ParseError + Notify" where
  "parse_notify v =
     and_then (notify_loop (False, False, False, False) (split_on (CHR '','') v)) (\<lambda>(n, s, f, d).
       if n then (if s \<or> f \<or> d then Inl InvalidArguments else Inr Never)
       else Inr (On s f d))"

fun rcpt_parameters_loop ::
  "Notify option \<Rightarrow> str option \<Rightarrow> (str \<times> str option) list \<Rightarrow> ParseError + (Notify option \<times> str option)"
where
  "rcpt_parameters_loop notify orcpt [] = Inr (notify, orcpt)"
| "rcpt_parameters_loop notify orcpt ((keyword, v) # kvs) =
     (let k = to_ascii_uppercase keyword in
      if k = ''NOTIFY'' then
        and_then (ok_or InvalidArguments v) (\<lambda>x.
        and_then (parse_notify x) (\<lambda>n.
          if notify \<noteq> None then Inl InvalidArguments
          else rcpt_parameters_loop (Some n) orcpt kvs))
      else if k = ''ORCPT'' then
        and_then (ok_or InvalidArguments v) (\<lambda>x.
          if orcpt \<noteq> None then Inl InvalidArguments
          else rcpt_parameters_loop notify (Some x) kvs)
      else Inl UnsupportedParameter)"

definition parse_rcpt_parameters :: "str \<Rightarrow> ParseError + (Notify option \<times> str option)" where
  "parse_rcpt_parameters params =
     and_then (split_parameters params) (rcpt_parameters_loop None None)"

section \<open>The line parser\<close>

definition split_verb :: "str \<Rightarrow> str \<times> str" where
  "split_verb line =
     (case split_once (CHR '' '') line of Some (v, args) \<Rightarrow> (v, trim args) | None \<Rightarrow> (line, []))"

definition dispatch_verb :: "str \<Rightarrow> str \<Rightarrow> ParseError + Command" where
  "dispatch_verb v args =
     (if v = ''HELO'' then and_then (parse_domain_arg args) (\<lambda>d. Inr (Helo d))
      else if v = ''EHLO'' then and_then (parse_domain_arg args) (\<lambda>d. Inr (Ehlo d))
      else if v = ''MAIL'' then
        and_then (parse_path_arg args ''FROM:'') (\<lambda>(path, params).
        and_then (parse_mail_parameters params) (\<lambda>m.
          Inr (MailFrom path (mp_size m) (mp_body m) (mp_require_tls m) (mp_ret m) (mp_envid m))))
      else if v = ''RCPT'' then
        and_then (parse_path_arg args ''TO:'') (\<lambda>(path, params).
        and_then (parse_rcpt_parameters params) (\<lambda>(notify, orcpt).
          Inr (RcptTo path notify orcpt)))
      else if v = ''DATA'' then parse_no_args args Data
      else if v = ''BDAT'' then parse_bdat args
      else if v = ''RSET'' then parse_no_args args Rset
      else if v = ''NOOP'' then Inr Noop
      else if v = ''QUIT'' then parse_no_args args Quit
      else if v = ''VRFY'' then Inr Vrfy
      else if v = ''STARTTLS'' then parse_no_args args StartTls
      else if v = ''AUTH'' then parse_auth args
      else Inl UnknownCommand)"

definition parse_command :: "str \<Rightarrow> ParseError + Command" where
  "parse_command line =
     (if length line > MAX_COMMAND_LINE then Inl LineTooLong
      else if list_ex is_control (chars line) then Inl InvalidCharacters
      else (let (verb, args) = split_verb line
            in dispatch_verb (to_ascii_uppercase verb) args))"


section \<open>A reference printer\<close>

text \<open>
  The line a client sends for a command, with its parameters in a fixed order. \<open>wf_command\<close> holds
  of the commands that have such a line: paths with no delimiter of their own, parameter values of
  graphic characters, numbers of 64 bits.
\<close>

definition size_words :: "nat option \<Rightarrow> str list" where
  "size_words s = (case s of None \<Rightarrow> [] | Some n \<Rightarrow> [''SIZE='' @ show_nat n])"

definition body_words :: "Body option \<Rightarrow> str list" where
  "body_words b =
     (case b of None \<Rightarrow> [] | Some SevenBit \<Rightarrow> [''BODY=7BIT''] | Some EightBitMime \<Rightarrow> [''BODY=8BITMIME''])"

definition tls_words :: "bool \<Rightarrow> str list" where
  "tls_words r = (if r then [''REQUIRETLS''] else [])"

definition ret_words :: "Ret option \<Rightarrow> str list" where
  "ret_words r =
     (case r of None \<Rightarrow> [] | Some Full \<Rightarrow> [''RET=FULL''] | Some Headers \<Rightarrow> [''RET=HDRS''])"

definition value_words :: "str \<Rightarrow> str option \<Rightarrow> str list" where
  "value_words k v = (case v of None \<Rightarrow> [] | Some x \<Rightarrow> [k @ ''='' @ x])"

definition notify_tokens :: "Notify \<Rightarrow> str" where
  "notify_tokens n =
     (case n of
        Never \<Rightarrow> ''NEVER''
      | On s f d \<Rightarrow>
          (if s then ''SUCCESS'' @ (if f \<or> d then '','' else []) else [])
          @ (if f then ''FAILURE'' @ (if d then '','' else []) else [])
          @ (if d then ''DELAY'' else []))"

definition print_params :: "str list \<Rightarrow> str" where
  "print_params ps = concat (map (\<lambda>p. CHR '' '' # p) ps)"

definition mail_words ::
  "nat option \<Rightarrow> Body option \<Rightarrow> bool \<Rightarrow> Ret option \<Rightarrow> str option \<Rightarrow> str list" where
  "mail_words sz body rtls ret envid =
     size_words sz @ body_words body @ tls_words rtls @ ret_words ret @ value_words ''ENVID'' envid"

definition rcpt_words :: "Notify option \<Rightarrow> str option \<Rightarrow> str list" where
  "rcpt_words notify orcpt =
     value_words ''NOTIFY'' (map_option notify_tokens notify) @ value_words ''ORCPT'' orcpt"

fun print_command :: "Command \<Rightarrow> str" where
  "print_command (Helo d) = ''HELO '' @ d"
| "print_command (Ehlo d) = ''EHLO '' @ d"
| "print_command (MailFrom p sz body rtls ret envid) =
     ''MAIL FROM:<'' @ p @ ''>'' @ print_params (mail_words sz body rtls ret envid)"
| "print_command (RcptTo p notify orcpt) =
     ''RCPT TO:<'' @ p @ ''>'' @ print_params (rcpt_words notify orcpt)"
| "print_command Data = ''DATA''"
| "print_command (Bdat n lst) = ''BDAT '' @ show_nat n @ (if lst then '' LAST'' else [])"
| "print_command Rset = ''RSET''"
| "print_command Noop = ''NOOP''"
| "print_command Quit = ''QUIT''"
| "print_command Vrfy = ''VRFY''"
| "print_command StartTls = ''STARTTLS''"
| "print_command (Auth m i) =
     ''AUTH '' @ m @
       (case i of None \<Rightarrow> [] | Some r \<Rightarrow> CHR '' '' # (if r = [] then ''='' else r))"

definition wf_path :: "str \<Rightarrow> bool" where
  "wf_path p \<longleftrightarrow> CHR ''<'' \<notin> set p \<and> CHR ''>'' \<notin> set p \<and> CHR '' '' \<notin> set p
     \<and> \<not> list_ex is_control (chars p)"

definition wf_domain_arg :: "str \<Rightarrow> bool" where
  "wf_domain_arg d \<longleftrightarrow> d \<noteq> [] \<and> CHR '' '' \<notin> set d \<and> trim d = d \<and> \<not> list_ex is_control (chars d)"

fun wf_command :: "Command \<Rightarrow> bool" where
  "wf_command (Helo d) \<longleftrightarrow> wf_domain_arg d"
| "wf_command (Ehlo d) \<longleftrightarrow> wf_domain_arg d"
| "wf_command (MailFrom p sz body rtls ret envid) \<longleftrightarrow>
     wf_path p \<and> pred_option (\<lambda>n. n < 2 ^ 64) sz \<and> pred_option (list_all graphic) envid"
| "wf_command (RcptTo p notify orcpt) \<longleftrightarrow>
     wf_path p \<and> notify \<noteq> Some (On False False False) \<and> pred_option (list_all graphic) orcpt"
| "wf_command (Bdat n lst) \<longleftrightarrow> n < 2 ^ 64"
| "wf_command (Auth m i) \<longleftrightarrow>
     m \<noteq> [] \<and> list_all mech_char m \<and> to_ascii_uppercase m = m
     \<and> pred_option (\<lambda>r. list_all graphic r \<and> r \<noteq> ''='') i"
| "wf_command _ \<longleftrightarrow> True"

section \<open>Parsing what the printer prints\<close>

lemma split_print_params:
  assumes "p \<noteq> []" "list_all graphic p" "list_all (\<lambda>w. w \<noteq> [] \<and> list_all graphic w) ps"
  shows "split_ascii_whitespace (p @ print_params ps) = p # ps"
  using assms
proof (induction ps arbitrary: p)
  case Nil
  then show ?case
    using split_ascii_whitespace_word(1) [of p]
    by (simp add: print_params_def list_all_iff graphic_not_whitespace)
next
  case (Cons q ps)
  have sp: "is_ascii_whitespace (CHR '' '')" by code_simp
  have "split_ascii_whitespace (p @ CHR '' '' # (q @ print_params ps))
      = p # split_ascii_whitespace (q @ print_params ps)"
    using Cons.prems sp
    by (intro split_ascii_whitespace_word(2)) (auto simp: list_all_iff graphic_not_whitespace)
  then show ?case
    using Cons by (simp add: print_params_def)
qed

lemma print_params_ends:
  assumes "list_all (\<lambda>w. w \<noteq> [] \<and> list_all graphic w) ps" "list_all graphic p" "p \<noteq> []"
  shows "\<exists>m d. p @ print_params ps = m @ [d] \<and> graphic d"
proof (cases ps rule: rev_cases)
  case Nil
  then show ?thesis
    using assms by (auto simp: print_params_def list_all_iff intro!: exI [of _ "butlast p"] exI [of _ "last p"])
next
  case (snoc qs q)
  then have "p @ print_params ps = (p @ print_params qs @ CHR '' '' # butlast q) @ [last q]" "graphic (last q)"
    using assms by (auto simp: print_params_def list_all_iff)
  then show ?thesis by blast
qed

lemma print_params_printable:
  "list_all (list_all graphic) ps \<Longrightarrow> list_all printable (print_params ps)"
  by (induction ps) (auto simp: print_params_def list_all_iff graphic_def printable_def)

lemma trim_print_params:
  assumes "list_all (\<lambda>w. w \<noteq> [] \<and> list_all graphic w) ps"
  shows "split_ascii_whitespace (trim (print_params ps)) = ps"
proof (cases ps)
  case Nil
  then show ?thesis by (simp add: print_params_def split_ascii_whitespace_def)
next
  case (Cons p qs)
  then have p: "p \<noteq> []" "list_all graphic p" and qs: "list_all (\<lambda>w. w \<noteq> [] \<and> list_all graphic w) qs"
    using assms by auto
  have pr: "list_all printable (p @ print_params qs)"
    using print_params_printable [of qs] p qs by (auto simp: list_all_iff graphic_printable)
  have "graphic (hd (p @ print_params qs))" "graphic (last (p @ print_params qs))"
    using p print_params_ends [OF qs p(2,1)] by (auto simp: list_all_iff)
  then have "trim (p @ print_params qs) = p @ print_params qs"
    by (intro trim_ascii_id)
       (auto simp: printable_ascii [OF pr] graphic_not_whitespace simp del: is_whitespace.simps)
  then show ?thesis
    using Cons split_print_params [OF p qs] trim_space [of "p @ print_params qs"]
    by (simp add: print_params_def)
qed


lemma split_parameter_value:
  "CHR ''='' \<notin> set k \<Longrightarrow> split_parameter (k @ CHR ''='' # v) = (k, Some v)"
  by (simp add: split_parameter_def split_once_SomeI)

lemma split_parameter_flag: "CHR ''='' \<notin> set k \<Longrightarrow> split_parameter k = (k, None)"
  using split_once_None_iff [of "CHR ''=''" k] by (simp add: split_parameter_def)

definition word_ok :: "str \<Rightarrow> bool" where
  "word_ok w \<longleftrightarrow> w \<noteq> [] \<and> list_all graphic w
     \<and> fst (split_parameter w) \<noteq> [] \<and> list_all keyword_char (fst (split_parameter w))"

lemma word_ok_value:
  assumes "k \<noteq> []" "list_all keyword_char k" "list_all graphic v"
  shows "word_ok (k @ CHR ''='' # v)"
proof -
  have "CHR ''='' \<notin> set k"
    using assms(2) by (auto simp: list_all_iff keyword_char_def ascii_simps)
  then show ?thesis
    using assms
    by (auto simp: word_ok_def split_parameter_value list_all_iff keyword_char_def graphic_def
        ascii_simps)
qed

lemma split_parameters_loop_words:
  "list_all word_ok ws \<Longrightarrow> split_parameters_loop ws = Inr (map split_parameter ws)"
  by (induction ws) (auto simp: word_ok_def split: prod.splits)

lemma split_parameters_print:
  "list_all word_ok ws \<Longrightarrow> split_parameters (trim (print_params ws)) = Inr (map split_parameter ws)"
  unfolding split_parameters_def
  by (subst trim_print_params) (auto simp: list_all_iff word_ok_def intro!: split_parameters_loop_words)

lemma mail_parameters_loop_append:
  "mail_parameters_loop out (xs @ ys)
   = and_then (mail_parameters_loop out xs) (\<lambda>o'. mail_parameters_loop o' ys)"
proof (induction xs arbitrary: out)
  case (Cons x xs)
  then show ?case by (cases "mail_parameter out x") simp_all
qed simp

lemma keyword_words:
  "list_all keyword_char ''SIZE''" "list_all keyword_char ''ENVID''"
  "list_all keyword_char ''NOTIFY''" "list_all keyword_char ''ORCPT''"
  by code_simp+

lemma words_ok:
  "list_all word_ok (size_words sz)" "list_all word_ok (body_words b)"
  "list_all word_ok (tls_words r)" "list_all word_ok (ret_words t)"
  "k \<noteq> [] \<Longrightarrow> list_all keyword_char k \<Longrightarrow> pred_option (list_all graphic) v
    \<Longrightarrow> list_all word_ok (value_words k v)"
proof -
  show "list_all word_ok (size_words sz)"
    using word_ok_value [of "''SIZE''"] show_nat_graphic keyword_words
    by (simp add: size_words_def split: option.split)
  have "word_ok ''BODY=7BIT''" "word_ok ''BODY=8BITMIME''" "word_ok ''REQUIRETLS''"
    "word_ok ''RET=FULL''" "word_ok ''RET=HDRS''"
    by code_simp+
  then show "list_all word_ok (body_words b)" "list_all word_ok (tls_words r)"
    "list_all word_ok (ret_words t)"
    by (simp_all add: body_words_def tls_words_def ret_words_def split: option.split Body.split Ret.split)
  show "k \<noteq> [] \<Longrightarrow> list_all keyword_char k \<Longrightarrow> pred_option (list_all graphic) v
    \<Longrightarrow> list_all word_ok (value_words k v)"
    by (cases v) (simp_all add: value_words_def word_ok_value)
qed

lemma upper_keywords:
  "to_ascii_uppercase ''SIZE'' = ''SIZE''" "to_ascii_uppercase ''ENVID'' = ''ENVID''"
  "to_ascii_uppercase ''NOTIFY'' = ''NOTIFY''" "to_ascii_uppercase ''ORCPT'' = ''ORCPT''"
  "to_ascii_uppercase ''BODY'' = ''BODY''" "to_ascii_uppercase ''RET'' = ''RET''"
  "to_ascii_uppercase ''REQUIRETLS'' = ''REQUIRETLS''"
  by code_simp+

lemma loop_size:
  assumes "mp_size out = None" "pred_option (\<lambda>n. n < 2 ^ 64) sz"
  shows "mail_parameters_loop out (map split_parameter (size_words sz)) = Inr (out\<lparr>mp_size := sz\<rparr>)"
proof (cases sz)
  case (Some n)
  then show ?thesis
    using assms parse_unsigned_show_nat [of n 64] split_parameter_value [of "''SIZE''" "show_nat n"]
    by (simp add: size_words_def mail_parameter_def upper_keywords Let_def)
qed (use assms in \<open>cases out; simp add: size_words_def\<close>)

lemma loop_body:
  assumes "mp_body out = None"
  shows "mail_parameters_loop out (map split_parameter (body_words b)) = Inr (out\<lparr>mp_body := b\<rparr>)"
proof (cases b)
  case (Some x)
  have "split_parameter ''BODY=7BIT'' = (''BODY'', Some ''7BIT'')"
    "split_parameter ''BODY=8BITMIME'' = (''BODY'', Some ''8BITMIME'')"
    "parse_body ''7BIT'' = Inr SevenBit" "parse_body ''8BITMIME'' = Inr EightBitMime"
    by code_simp+
  then show ?thesis
    using assms Some
    by (cases x) (simp_all add: body_words_def mail_parameter_def upper_keywords Let_def)
qed (use assms in \<open>cases out; simp add: body_words_def\<close>)

lemma loop_tls:
  assumes "\<not> mp_require_tls out"
  shows "mail_parameters_loop out (map split_parameter (tls_words r)) = Inr (out\<lparr>mp_require_tls := r\<rparr>)"
  using assms split_parameter_flag [of "''REQUIRETLS''"]
  by (cases out) (simp add: tls_words_def mail_parameter_def upper_keywords Let_def)

lemma loop_ret:
  assumes "mp_ret out = None"
  shows "mail_parameters_loop out (map split_parameter (ret_words t)) = Inr (out\<lparr>mp_ret := t\<rparr>)"
proof (cases t)
  case (Some x)
  have "split_parameter ''RET=FULL'' = (''RET'', Some ''FULL'')"
    "split_parameter ''RET=HDRS'' = (''RET'', Some ''HDRS'')"
    "parse_ret ''FULL'' = Inr Full" "parse_ret ''HDRS'' = Inr Headers"
    by code_simp+
  then show ?thesis
    using assms Some
    by (cases x) (simp_all add: ret_words_def mail_parameter_def upper_keywords Let_def)
qed (use assms in \<open>cases out; simp add: ret_words_def\<close>)

lemma loop_envid:
  assumes "mp_envid out = None"
  shows "mail_parameters_loop out (map split_parameter (value_words ''ENVID'' e)) = Inr (out\<lparr>mp_envid := e\<rparr>)"
proof (cases e)
  case (Some x)
  then show ?thesis
    using assms split_parameter_value [of "''ENVID''" x]
    by (simp add: value_words_def mail_parameter_def upper_keywords Let_def)
qed (use assms in \<open>cases out; simp add: value_words_def\<close>)


lemma parse_mail_parameters_print:
  assumes "pred_option (\<lambda>n. n < 2 ^ 64) sz" "pred_option (list_all graphic) e"
  shows "parse_mail_parameters (trim (print_params (mail_words sz b r t e)))
    = Inr \<lparr>mp_size = sz, mp_body = b, mp_require_tls = r, mp_ret = t, mp_envid = e\<rparr>"
proof -
  have "list_all word_ok (mail_words sz b r t e)"
    using words_ok assms keyword_words by (simp add: mail_words_def)
  then show ?thesis
    using assms
    by (simp add: parse_mail_parameters_def split_parameters_print mail_words_def
        mail_parameters_loop_append loop_size loop_body loop_tls loop_ret loop_envid
        mail_params_default_def)
qed

lemma parse_notify_tokens:
  "n \<noteq> On False False False \<Longrightarrow>
     parse_notify (notify_tokens n) = Inr n \<and> list_all graphic (notify_tokens n)"
proof (cases n)
  case Never
  show ?thesis unfolding Never by code_simp
next
  case (On s f d)
  moreover assume "n \<noteq> On False False False"
  ultimately show ?thesis
    by (cases s; cases f; cases d; simp only: simp_thms) code_simp+
qed

lemma parse_rcpt_parameters_print:
  assumes "notify \<noteq> Some (On False False False)" "pred_option (list_all graphic) orcpt"
  shows "list_all word_ok (rcpt_words notify orcpt)
    \<and> parse_rcpt_parameters (trim (print_params (rcpt_words notify orcpt))) = Inr (notify, orcpt)"
proof
  have n: "pred_option (\<lambda>n. parse_notify (notify_tokens n) = Inr n \<and> list_all graphic (notify_tokens n)) notify"
    using assms(1) parse_notify_tokens by (cases notify) auto
  then show ok: "list_all word_ok (rcpt_words notify orcpt)"
    using words_ok(5) [of "''NOTIFY''" "map_option notify_tokens notify"] words_ok(5) [of "''ORCPT''" orcpt]
      assms(2) keyword_words
    by (cases notify) (simp_all add: rcpt_words_def)
  have "parse_rcpt_parameters (trim (print_params (rcpt_words notify orcpt)))
      = rcpt_parameters_loop None None (map split_parameter (rcpt_words notify orcpt))"
    by (simp add: parse_rcpt_parameters_def split_parameters_print [OF ok])
  also have "\<dots> = Inr (notify, orcpt)"
    using n split_parameter_value [of "''NOTIFY''"] split_parameter_value [of "''ORCPT''"]
    by (cases notify; cases orcpt) (simp_all add: rcpt_words_def value_words_def upper_keywords)
  finally show "parse_rcpt_parameters (trim (print_params (rcpt_words notify orcpt))) = Inr (notify, orcpt)" .
qed

lemma parse_path_print:
  assumes "wf_path p" "pre \<noteq> []"
  shows "parse_path_arg (pre @ ''<'' @ p @ ''>'' @ print_params ws) pre
    = Inr (p, trim (print_params ws))"
proof -
  let ?a = "pre @ ''<'' @ p @ ''>'' @ print_params ws"
  have g: "str_get_to ?a (length pre) = Some pre"
    by (simp add: str_get_to_def is_char_boundary_def is_continuation_def nth_append)
  have t: "trim_start (drop (length pre) ?a) = ''<'' @ p @ ''>'' @ print_params ws"
    by (simp add: trim_start_ascii_hd is_ascii_char_def)
  have s: "split_once (CHR ''>'') (p @ ''>'' @ print_params ws) = Some (p, print_params ws)"
    using assms split_once_SomeI [of "CHR ''>''" p] by (simp add: wf_path_def)
  have sp: "print_params ws = [] \<or> starts_with '' '' (print_params ws)"
    by (cases ws) (simp_all add: print_params_def starts_with_def)
  show ?thesis
    unfolding parse_path_arg_def g
    using s sp t assms
    by (auto simp: eq_ignore_ascii_case_def wf_path_def)
qed

lemma path_line:
  assumes p: "wf_path p" and ws: "list_all word_ok ws" and v: "CHR '' '' \<notin> set v"
    and pre: "graphic c" "list_all printable v" "list_all printable pre"
  shows "split_verb (v @ '' '' @ (c # pre) @ ''<'' @ p @ ''>'' @ print_params ws)
      = (v, (c # pre) @ ''<'' @ p @ ''>'' @ print_params ws)
    \<and> \<not> list_ex is_control (chars (v @ '' '' @ (c # pre) @ ''<'' @ p @ ''>'' @ print_params ws))"
proof
  have ws': "list_all (\<lambda>w. w \<noteq> [] \<and> list_all graphic w) ws"
    using ws by (auto simp: list_all_iff word_ok_def)
  obtain m d where md: "''>'' @ print_params ws = m @ [d]" "graphic d"
    using print_params_ends [OF ws', of "''>''"] by (auto simp: graphic_def)
  have "trim ((c # pre) @ ''<'' @ p @ m @ [d]) = (c # pre) @ ''<'' @ p @ m @ [d]"
    using trim_ascii_ends [of c d "pre @ ''<'' @ p @ m"] pre(1) md(2) graphic_not_whitespace by simp
  then show "split_verb (v @ '' '' @ (c # pre) @ ''<'' @ p @ ''>'' @ print_params ws)
      = (v, (c # pre) @ ''<'' @ p @ ''>'' @ print_params ws)"
    using v split_once_SomeI [of "CHR '' ''" v "(c # pre) @ ''<'' @ p @ ''>'' @ print_params ws"]
    by (simp add: split_verb_def md(1) [simplified])
  have "list_all printable (''>'' @ print_params ws)"
    using print_params_printable [of ws] ws' by (auto simp: list_all_iff printable_def)
  then have "\<not> list_ex is_control (chars (p @ ''>'' @ print_params ws))"
    using p control_append_printable [of "CHR ''>''" "print_params ws" p] by (simp add: wf_path_def)
  moreover have "list_all printable (v @ '' '' @ (c # pre) @ ''<'')"
    using pre graphic_printable by (simp add: printable_def)
  ultimately show "\<not> list_ex is_control (chars (v @ '' '' @ (c # pre) @ ''<'' @ p @ ''>'' @ print_params ws))"
    using control_printable_append [of "v @ '' '' @ (c # pre) @ ''<''"] by simp
qed


lemma upper_verbs:
  "to_ascii_uppercase ''HELO'' = ''HELO''" "to_ascii_uppercase ''EHLO'' = ''EHLO''"
  "to_ascii_uppercase ''MAIL'' = ''MAIL''" "to_ascii_uppercase ''RCPT'' = ''RCPT''"
  "to_ascii_uppercase ''BDAT'' = ''BDAT''" "to_ascii_uppercase ''AUTH'' = ''AUTH''"
  by code_simp+

lemma split_verb_arg:
  "CHR '' '' \<notin> set v \<Longrightarrow> trim a = a \<Longrightarrow> split_verb (v @ CHR '' '' # a) = (v, a)"
  by (simp add: split_verb_def split_once_SomeI)

lemma words_line:
  assumes "list_all graphic w" "w \<noteq> []" "list_all (\<lambda>w. w \<noteq> [] \<and> list_all graphic w) ws"
  shows "trim (w @ print_params ws) = w @ print_params ws
    \<and> list_all printable (w @ print_params ws)
    \<and> split_ascii_whitespace (w @ print_params ws) = w # ws"
proof (intro conjI)
  show pr: "list_all printable (w @ print_params ws)"
    using print_params_printable [of ws] assms by (auto simp: list_all_iff graphic_printable)
  have "graphic (hd (w @ print_params ws))" "graphic (last (w @ print_params ws))"
    using assms print_params_ends [OF assms(3,1,2)] by (auto simp: list_all_iff)
  then show "trim (w @ print_params ws) = w @ print_params ws"
    by (intro trim_ascii_id)
       (auto simp: printable_ascii [OF pr] graphic_not_whitespace simp del: is_whitespace.simps)
qed (rule split_print_params [OF assms(2,1,3)])

lemma parse_print_domain:
  assumes "wf_domain_arg d" "length (''HELO '' @ d) \<le> MAX_COMMAND_LINE"
  shows "parse_command (''HELO '' @ d) = Inr (Helo d) \<and> parse_command (''EHLO '' @ d) = Inr (Ehlo d)"
proof -
  have pr: "list_all printable ''HELO ''" "list_all printable ''EHLO ''"
    by code_simp+
  show ?thesis
    using assms control_printable_append [OF pr(1), of d] control_printable_append [OF pr(2), of d]
      split_verb_arg [of "''HELO''" d] split_verb_arg [of "''EHLO''" d]
    by (simp add: wf_domain_arg_def parse_command_def dispatch_verb_def upper_verbs parse_domain_arg_def)
qed

lemma parse_print_mail:
  assumes "wf_command (MailFrom p sz b r t e)"
    and "length (print_command (MailFrom p sz b r t e)) \<le> MAX_COMMAND_LINE"
  shows "parse_command (print_command (MailFrom p sz b r t e)) = Inr (MailFrom p sz b r t e)"
proof -
  let ?ws = "mail_words sz b r t e"
  have ok: "list_all word_ok ?ws"
    using words_ok assms(1) keyword_words by (simp add: mail_words_def)
  have l: "split_verb (print_command (MailFrom p sz b r t e)) = (''MAIL'', ''FROM:<'' @ p @ ''>'' @ print_params ?ws)
    \<and> \<not> list_ex is_control (chars (print_command (MailFrom p sz b r t e)))"
    using path_line [of p ?ws "''MAIL''" "CHR ''F''" "''ROM:''"] assms(1) ok
    by (simp add: graphic_def printable_def)
  have "parse_path_arg (''FROM:<'' @ p @ ''>'' @ print_params ?ws) ''FROM:'' = Inr (p, trim (print_params ?ws))"
    using parse_path_print [of p "''FROM:''" ?ws] assms(1) by simp
  then have "dispatch_verb ''MAIL'' (''FROM:<'' @ p @ ''>'' @ print_params ?ws) = Inr (MailFrom p sz b r t e)"
    using assms(1) parse_mail_parameters_print [of sz e b r t] by (simp add: dispatch_verb_def)
  then show ?thesis
    unfolding parse_command_def using l assms(2) by (simp add: upper_verbs)
qed

lemma parse_print_rcpt:
  assumes "wf_command (RcptTo p n r)" and "length (print_command (RcptTo p n r)) \<le> MAX_COMMAND_LINE"
  shows "parse_command (print_command (RcptTo p n r)) = Inr (RcptTo p n r)"
proof -
  let ?ws = "rcpt_words n r"
  have ok: "list_all word_ok ?ws" and ps: "parse_rcpt_parameters (trim (print_params ?ws)) = Inr (n, r)"
    using parse_rcpt_parameters_print [of n r] assms(1) by auto
  have l: "split_verb (print_command (RcptTo p n r)) = (''RCPT'', ''TO:<'' @ p @ ''>'' @ print_params ?ws)
    \<and> \<not> list_ex is_control (chars (print_command (RcptTo p n r)))"
    using path_line [of p ?ws "''RCPT''" "CHR ''T''" "''O:''"] assms(1) ok
    by (simp add: graphic_def printable_def)
  have "parse_path_arg (''TO:<'' @ p @ ''>'' @ print_params ?ws) ''TO:'' = Inr (p, trim (print_params ?ws))"
    using parse_path_print [of p "''TO:''" ?ws] assms(1) by simp
  then have "dispatch_verb ''RCPT'' (''TO:<'' @ p @ ''>'' @ print_params ?ws) = Inr (RcptTo p n r)"
    using ps by (simp add: dispatch_verb_def)
  then show ?thesis
    unfolding parse_command_def using l assms(2) by (simp add: upper_verbs)
qed


lemma parse_print_words:
  assumes "list_all graphic w" "w \<noteq> []" "list_all (\<lambda>w. w \<noteq> [] \<and> list_all graphic w) ws"
    and v: "CHR '' '' \<notin> set v" "list_all printable v"
    and "length (v @ CHR '' '' # w @ print_params ws) \<le> MAX_COMMAND_LINE"
  shows "parse_command (v @ CHR '' '' # w @ print_params ws)
    = dispatch_verb (to_ascii_uppercase v) (w @ print_params ws)"
proof -
  note wl = words_line [OF assms(1-3)]
  have "list_all printable (v @ CHR '' '' # w @ print_params ws)"
    using wl v by (simp add: printable_def)
  from control_printable [OF this] show ?thesis
    using wl split_verb_arg [OF v(1)] assms(6) by (simp add: parse_command_def)
qed

lemma parse_print_bdat:
  assumes "n < 2 ^ 64"
    and "length (print_command (Bdat n lst)) \<le> MAX_COMMAND_LINE"
  shows "parse_command (print_command (Bdat n lst)) = Inr (Bdat n lst)"
proof -
  let ?ws = "if lst then [''LAST''] else []"
  have ws: "list_all (\<lambda>w. w \<noteq> [] \<and> list_all graphic w) ?ws"
    by (simp add: graphic_def)
  have ne: "show_nat n \<noteq> []" using show_nat_digits by blast
  have pc: "print_command (Bdat n lst) = ''BDAT'' @ CHR '' '' # show_nat n @ print_params ?ws"
    by (simp add: print_params_def)
  have sp: "split_ascii_whitespace (show_nat n @ print_params ?ws) = show_nat n # ?ws"
    using words_line [OF show_nat_graphic ne ws] by blast
  have "parse_bdat (show_nat n @ print_params ?ws) = Inr (Bdat n lst)"
    unfolding parse_bdat_def sp
    using parse_unsigned_show_nat [OF assms(1)] by (simp add: eq_ignore_ascii_case_def)
  then show ?thesis
    unfolding pc using assms(2)
    by (subst parse_print_words [OF show_nat_graphic ne ws])
       (simp_all only: pc upper_verbs, simp_all add: dispatch_verb_def printable_def)
qed

lemma mech_graphic: "mech_char c \<Longrightarrow> graphic c"
  by (auto simp: mech_char_def graphic_def ascii_simps)

lemma parse_print_auth:
  assumes wf: "wf_command (Auth m i)"
    and len: "length (print_command (Auth m i)) \<le> MAX_COMMAND_LINE"
  shows "parse_command (print_command (Auth m i)) = Inr (Auth m i)"
proof -
  let ?ws = "case i of None \<Rightarrow> [] | Some r \<Rightarrow> [if r = [] then ''='' else r]"
  have m: "m \<noteq> []" "list_all graphic m" and mc: "list_all mech_char m" "to_ascii_uppercase m = m"
    using wf mech_graphic by (auto simp: list_all_iff)
  have ws: "list_all (\<lambda>w. w \<noteq> [] \<and> list_all graphic w) ?ws"
    using wf by (auto simp: graphic_def split: option.splits)
  have pc: "print_command (Auth m i) = ''AUTH'' @ CHR '' '' # m @ print_params ?ws"
    by (simp add: print_params_def split: option.splits)
  have sp: "split_ascii_whitespace (m @ print_params ?ws) = m # ?ws"
    using words_line [OF m(2,1) ws] by blast
  have "parse_auth (m @ print_params ?ws) = Inr (Auth m i)"
    unfolding parse_auth_def sp using mc wf by (auto split: option.splits)
  then show ?thesis
    unfolding pc using len
    by (subst parse_print_words [OF m(2,1) ws])
       (simp_all only: pc upper_verbs, simp_all add: dispatch_verb_def printable_def)
qed

text \<open>C27. Parsing reads back what a client means: the line printed for any well-formed command of
  the protocol, with all its parameters, parses to exactly that command when it fits the command
  line limit.\<close>

theorem parse_print_command:
  assumes "wf_command c" and "length (print_command c) \<le> MAX_COMMAND_LINE"
  shows "parse_command (print_command c) = Inr c"
proof (cases c)
  case (MailFrom p sz b r t e)
  then show ?thesis using parse_print_mail assms by blast
next
  case (RcptTo p n r)
  then show ?thesis using parse_print_rcpt assms by blast
next
  case (Bdat n lst)
  then show ?thesis using parse_print_bdat assms by auto
next
  case (Auth m i)
  then show ?thesis using parse_print_auth assms by blast
next
  case (Helo d)
  then show ?thesis using parse_print_domain assms by simp
next
  case (Ehlo d)
  then show ?thesis using parse_print_domain assms by simp
qed (simp_all only: print_command.simps, code_simp+)

theorem parse_print_command_witness:
  "parse_command ''MAIL FROM:<a@b.c> SIZE=512 BODY=8BITMIME REQUIRETLS RET=HDRS ENVID=x1''
   = Inr (MailFrom ''a@b.c'' (Some 512) (Some EightBitMime) True (Some Headers) (Some ''x1''))"
proof -
  let ?c = "MailFrom ''a@b.c'' (Some 512) (Some EightBitMime) True (Some Headers) (Some ''x1'')"
  have wf: "wf_command ?c"
    by (simp add: wf_path_def graphic_def chars_ascii is_ascii_def is_ascii_char_def)
  have pc: "print_command ?c = ''MAIL FROM:<a@b.c> SIZE=512 BODY=8BITMIME REQUIRETLS RET=HDRS ENVID=x1''"
    by code_simp
  have "length (print_command ?c) \<le> MAX_COMMAND_LINE"
    unfolding pc by code_simp
  from parse_print_command [OF wf this] show ?thesis
    unfolding pc .
qed


section \<open>What an accepted line guarantees\<close>

definition clean_octets :: "str \<Rightarrow> bool" where
  "clean_octets s \<longleftrightarrow> list_all (\<lambda>x. 32 \<le> code x \<and> code x \<noteq> 127) s"

definition clean_word :: "str \<Rightarrow> bool" where
  "clean_word s \<longleftrightarrow> list_all (\<lambda>x. 33 \<le> code x \<and> code x \<noteq> 127) s"

fun safe_command :: "Command \<Rightarrow> bool" where
  "safe_command (Helo d) \<longleftrightarrow> d \<noteq> [] \<and> clean_word d"
| "safe_command (Ehlo d) \<longleftrightarrow> d \<noteq> [] \<and> clean_word d"
| "safe_command (MailFrom p sz body rtls ret envid) \<longleftrightarrow>
     wf_path p \<and> pred_option (\<lambda>n. n < 2 ^ 64) sz \<and> pred_option clean_word envid"
| "safe_command (RcptTo p notify orcpt) \<longleftrightarrow>
     wf_path p \<and> notify \<noteq> Some (On False False False) \<and> pred_option clean_word orcpt"
| "safe_command (Bdat n lst) \<longleftrightarrow> n < 2 ^ 64"
| "safe_command (Auth m i) \<longleftrightarrow>
     m \<noteq> [] \<and> list_all mech_char m \<and> list_all (\<lambda>c. \<not> is_ascii_lowercase c) m \<and> pred_option clean_word i"
| "safe_command _ \<longleftrightarrow> True"

lemma clean_octets_line: "\<not> list_ex is_control (chars s) \<Longrightarrow> clean_octets s"
  using no_control_no_low_octet [of s] by (simp add: clean_octets_def list_all_iff)

lemma clean_octets_subset: "clean_octets s \<Longrightarrow> set t \<subseteq> set s \<Longrightarrow> clean_octets t"
  by (auto simp: clean_octets_def list_all_iff)

lemma clean_word_iff: "clean_word s \<longleftrightarrow> clean_octets s \<and> CHR '' '' \<notin> set s"
proof -
  have "33 \<le> code x \<longleftrightarrow> 32 \<le> code x \<and> x \<noteq> CHR '' ''" for x :: char
    using char_eq_code_iff [of x "CHR '' ''"] by (auto simp del: of_char_eq_iff)
  then show ?thesis
    by (auto simp: clean_word_def clean_octets_def list_all_iff)
qed

lemma split_word_clean:
  assumes "clean_octets s" "w \<in> set (split_ascii_whitespace s)"
  shows "w \<noteq> [] \<and> clean_word w"
proof -
  have "is_ascii_whitespace (CHR '' '')" by code_simp
  then have "CHR '' '' \<notin> set w" and "w \<noteq> []"
    using split_ascii_whitespace_clean [OF assms(2)] by (auto simp: list_all_iff)
  then show ?thesis
    using clean_octets_subset [OF assms(1) set_split_ascii_whitespace [OF assms(2)]]
    by (simp add: clean_word_iff)
qed

lemma split_parameter_subset: "split_parameter p = (k, Some v) \<Longrightarrow> set v \<subseteq> set p"
  by (auto simp: split_parameter_def split_once_Some_iff split: option.splits)

lemma split_parameters_values:
  "list_all clean_word ps \<Longrightarrow> split_parameters_loop ps = Inr kvs \<Longrightarrow>
     list_all (\<lambda>(k, v). pred_option clean_word v) kvs"
proof (induction ps arbitrary: kvs)
  case (Cons p ps)
  obtain k v where kv: "split_parameter p = (k, v)" by fastforce
  have "pred_option clean_word v"
    using Cons.prems(1) split_parameter_subset [of p k] kv
    by (cases v) (auto simp: clean_word_def list_all_iff)
  then show ?case
    using Cons kv by (auto simp: and_then_Inr_iff split: if_splits)
qed simp

lemma split_parameters_clean:
  assumes "clean_octets s" "split_parameters s = Inr kvs"
  shows "list_all (\<lambda>(k, v). pred_option clean_word v) kvs"
proof -
  have "list_all clean_word (split_ascii_whitespace s)"
    using split_word_clean [OF assms(1)] by (simp add: list_all_iff)
  from split_parameters_values [OF this] show ?thesis
    using assms(2) by (simp add: split_parameters_def)
qed

definition mail_params_ok :: "MailParams \<Rightarrow> bool" where
  "mail_params_ok m \<longleftrightarrow> pred_option (\<lambda>n. n < 2 ^ 64) (mp_size m) \<and> pred_option clean_word (mp_envid m)"

lemma mail_parameter_ok:
  assumes "mail_params_ok out" "pred_option clean_word v" "mail_parameter out (k, v) = Inr out'"
  shows "mail_params_ok out'"
  using assms parse_unsigned_bound [of 64]
  by (auto simp: mail_parameter_def Let_def and_then_Inr_iff ok_or_Inr_iff mail_params_ok_def
      split: if_splits)

lemma mail_parameters_loop_ok:
  "mail_params_ok out \<Longrightarrow> list_all (\<lambda>(k, v). pred_option clean_word v) kvs \<Longrightarrow>
     mail_parameters_loop out kvs = Inr out' \<Longrightarrow> mail_params_ok out'"
proof (induction kvs arbitrary: out)
  case (Cons kv kvs)
  obtain o1 where "mail_parameter out kv = Inr o1" "mail_parameters_loop o1 kvs = Inr out'"
    using Cons.prems(3) by (auto simp: and_then_Inr_iff)
  moreover have "mail_params_ok o1"
    using Cons.prems calculation(1) by (cases kv) (auto intro: mail_parameter_ok)
  ultimately show ?case using Cons by simp
qed simp

lemma notify_loop_step:
  assumes "notify_loop (n, s, f, d) (t # ts) = Inr r"
  shows "notify_loop (True, s, f, d) ts = Inr r \<or> notify_loop (n, True, f, d) ts = Inr r
    \<or> notify_loop (n, s, True, d) ts = Inr r \<or> notify_loop (n, s, f, True) ts = Inr r"
proof -
  have if5: "(if a then p else if b then q else if c then u else if e then v else Inl x) = Inr y \<Longrightarrow>
    p = Inr y \<or> q = Inr y \<or> u = Inr y \<or> v = Inr y"
    for a b c e and p q u v and x :: 'x and y :: 'y
    by (simp split: if_split_asm)
  show ?thesis
    using assms unfolding notify_loop.simps Let_def by (rule if5)
qed

lemma notify_loop_keeps:
  "notify_loop (n, s, f, d) ts = Inr (n', s', f', d') \<Longrightarrow> n \<or> s \<or> f \<or> d \<Longrightarrow> n' \<or> s' \<or> f' \<or> d'"
proof (induction ts arbitrary: n s f d)
  case (Cons t ts)
  from notify_loop_step [OF Cons.prems(1)] show ?case
    by (elim disjE) (drule Cons.IH, simp, assumption)+
qed simp

lemma notify_loop_some:
  assumes "notify_loop (n, s, f, d) ts = Inr (n', s', f', d')" "ts \<noteq> []"
  shows "n' \<or> s' \<or> f' \<or> d'"
proof (cases ts)
  case (Cons t us)
  from notify_loop_step [OF assms(1) [unfolded Cons]] show ?thesis
    by (elim disjE) (drule notify_loop_keeps, simp, assumption)+
qed (use assms in simp)

lemma parse_notify_ok: "parse_notify v = Inr x \<Longrightarrow> x \<noteq> On False False False"
  by (auto simp: parse_notify_def and_then_Inr_iff split: if_splits dest: notify_loop_some)


lemma rcpt_parameters_loop_ok:
  "notify \<noteq> Some (On False False False) \<Longrightarrow> pred_option clean_word orcpt \<Longrightarrow>
     list_all (\<lambda>(k, v). pred_option clean_word v) kvs \<Longrightarrow>
     rcpt_parameters_loop notify orcpt kvs = Inr (n, r) \<Longrightarrow>
     n \<noteq> Some (On False False False) \<and> pred_option clean_word r"
proof (induction notify orcpt kvs rule: rcpt_parameters_loop.induct)
  case (2 notify orcpt k v kvs)
  then show ?case
    using parse_notify_ok
    by (auto simp: Let_def and_then_Inr_iff ok_or_Inr_iff split: if_splits)
qed auto

lemma parse_path_arg_shape:
  assumes "parse_path_arg args prefix = Inr (path, params)"
  shows "CHR ''<'' \<notin> set path \<and> CHR ''>'' \<notin> set path \<and> CHR '' '' \<notin> set path
    \<and> set params \<subseteq> set args \<and> (\<exists>a b. args = a @ CHR ''<'' # path @ CHR ''>'' # b)"
proof -
  obtain rest after_open after_close where
    rest: "rest = trim_start (drop (length prefix) args)"
    and o: "rest = CHR ''<'' # after_open" and c: "after_open = path @ CHR ''>'' # after_close"
    and p: "CHR ''<'' \<notin> set path" "CHR ''>'' \<notin> set path" "CHR '' '' \<notin> set path"
    and params: "params = trim after_close"
    using assms
    by (auto simp: parse_path_arg_def and_then_Inr_iff ok_or_Inr_iff strip_prefix_Some_iff
        split_once_Some_iff split: option.splits if_splits)
  obtain b where "drop (length prefix) args = b @ rest"
    using trim_start_suffix rest by blast
  then have a: "args = (take (length prefix) args @ b) @ rest"
    by (metis append.assoc append_take_drop_id)
  have "set params \<subseteq> set rest"
    using set_trim [of after_close] params o c by auto
  then have "set params \<subseteq> set args"
    by (subst a) auto
  moreover have "\<exists>a b. args = a @ CHR ''<'' # path @ CHR ''>'' # b"
    using a o c by blast
  ultimately show ?thesis
    using p by simp
qed

lemma wf_path_delimited:
  assumes "\<not> list_ex is_control (chars (a @ CHR ''<'' # path @ CHR ''>'' # b))"
  shows "\<not> list_ex is_control (chars path)"
  using assms by (simp add: chars_append_ascii is_ascii_char_def)

lemma split_verb_infix:
  assumes "split_verb line = (v, args)" "args \<noteq> []"
  shows "\<exists>a b. line = a @ args @ b"
proof -
  obtain rest where "line = v @ CHR '' '' # rest" "args = trim rest"
    using assms by (auto simp: split_verb_def split_once_Some_iff split: option.splits)
  moreover obtain a b where "rest = a @ trim rest @ b"
    using trim_infix by blast
  ultimately have "line = (v @ CHR '' '' # a) @ args @ b"
    by (metis append.assoc append_Cons)
  then show ?thesis by blast
qed

lemma parse_path_arg_safe:
  assumes nc: "\<not> list_ex is_control (chars line)" and v: "split_verb line = (v, args)"
    and p: "parse_path_arg args prefix = Inr (path, params)"
  shows "wf_path path \<and> clean_octets params"
proof -
  obtain a b where ab: "args = a @ CHR ''<'' # path @ CHR ''>'' # b"
    using parse_path_arg_shape [OF p] by blast
  then obtain c d where "line = c @ args @ d"
    using split_verb_infix [OF v] by auto
  then have l: "line = (c @ a) @ CHR ''<'' # path @ CHR ''>'' # (b @ d)"
    using ab by simp
  have "set params \<subseteq> set line"
    using parse_path_arg_shape [OF p] \<open>line = c @ args @ d\<close> by auto
  then have "clean_octets params"
    using clean_octets_subset [OF clean_octets_line [OF nc]] by blast
  moreover have "\<not> list_ex is_control (chars path)"
    using wf_path_delimited nc unfolding l by blast
  ultimately show ?thesis
    using parse_path_arg_shape [OF p] by (simp add: wf_path_def)
qed

lemma ascii_upper_char_not_lower: "\<not> is_ascii_lowercase (ascii_upper_char c)"
  by (auto simp: is_ascii_lowercase_def code_ascii_upper_char split: if_splits)

lemma mech_char_upper: "mech_char c \<Longrightarrow> mech_char (ascii_upper_char c)"
  by (auto simp: mech_char_def ascii_upper_char_def ascii_simps of_char_of)

lemma parse_auth_safe:
  assumes "clean_octets args" "parse_auth args = Inr c"
  shows "safe_command c"
proof -
  obtain m rest where w: "split_ascii_whitespace args = m # rest" "length rest \<le> 1" "list_all mech_char m"
    and c: "c = Auth (to_ascii_uppercase m) (case rest of [] \<Rightarrow> None | i # _ \<Rightarrow> Some (if i = ''='' then [] else i))"
    using assms(2) by (auto simp: parse_auth_def split: list.splits if_splits)
  have cw: "\<forall>x \<in> set (m # rest). x \<noteq> [] \<and> clean_word x"
    using split_word_clean [OF assms(1)] unfolding w(1) by blast
  have "list_all mech_char (to_ascii_uppercase m)" "list_all (\<lambda>c. \<not> is_ascii_lowercase c) (to_ascii_uppercase m)"
    using w(3) mech_char_upper ascii_upper_char_not_lower by (auto simp: to_ascii_uppercase_def list_all_iff)
  then show ?thesis
    using cw unfolding c by (auto simp: to_ascii_uppercase_def clean_word_def split: list.split)
qed


lemma dispatch_mail_safe:
  assumes "\<not> list_ex is_control (chars line)" "split_verb line = (v, args)"
    and "parse_path_arg args ''FROM:'' = Inr (path, params)" "parse_mail_parameters params = Inr m"
  shows "wf_path path \<and> mail_params_ok m"
proof -
  have safe: "wf_path path \<and> clean_octets params"
    by (rule parse_path_arg_safe [OF assms(1-3)])
  moreover have "mail_params_ok m"
    using assms(4) split_parameters_clean [of params] safe
      mail_parameters_loop_ok [of mail_params_default _ m]
    by (auto simp: parse_mail_parameters_def and_then_Inr_iff mail_params_ok_def mail_params_default_def)
  ultimately show ?thesis by blast
qed

lemma dispatch_rcpt_safe:
  assumes "\<not> list_ex is_control (chars line)" "split_verb line = (v, args)"
    and "parse_path_arg args ''TO:'' = Inr (path, params)" "parse_rcpt_parameters params = Inr (n, r)"
  shows "safe_command (RcptTo path n r)"
proof -
  have safe: "wf_path path \<and> clean_octets params"
    by (rule parse_path_arg_safe [OF assms(1-3)])
  moreover have "n \<noteq> Some (On False False False) \<and> pred_option clean_word r"
    using assms(4) split_parameters_clean [of params] safe
      rcpt_parameters_loop_ok [of None None _ n r]
    by (auto simp: parse_rcpt_parameters_def and_then_Inr_iff)
  ultimately show ?thesis by simp
qed

lemma parse_domain_arg_safe:
  "clean_octets args \<Longrightarrow> parse_domain_arg args = Inr d \<Longrightarrow> d \<noteq> [] \<and> clean_word d"
  by (auto simp: parse_domain_arg_def clean_word_iff split: if_splits)

lemma parse_bdat_safe:
  assumes "parse_bdat args = Inr c"
  shows "safe_command c"
proof (cases "split_ascii_whitespace args")
  case (Cons t rest)
  then obtain n where n: "parse_unsigned 64 t = Some n"
    using assms by (cases "parse_unsigned 64 t") (simp_all add: parse_bdat_def)
  then show ?thesis
    using assms Cons parse_unsigned_bound [OF n]
    by (cases rest) (auto simp: parse_bdat_def split: if_splits)
qed (use assms in \<open>simp add: parse_bdat_def\<close>)

lemma dispatch_verb_safe:
  assumes nc: "\<not> list_ex is_control (chars line)" and v: "split_verb line = (v', args)"
    and d: "dispatch_verb v args = Inr c"
  shows "safe_command c"
proof -
  have "set args \<subseteq> set line"
    using split_verb_infix [OF v] by (cases "args = []") auto
  then have ca: "clean_octets args"
    using clean_octets_subset [OF clean_octets_line [OF nc]] by blast
  have mail: "safe_command c" if "and_then (parse_path_arg args ''FROM:'') (\<lambda>(path, params).
        and_then (parse_mail_parameters params) (\<lambda>m.
          Inr (MailFrom path (mp_size m) (mp_body m) (mp_require_tls m) (mp_ret m) (mp_envid m)))) = Inr c"
    using that dispatch_mail_safe [OF nc v] by (fastforce simp: and_then_Inr_iff mail_params_ok_def)
  have rcpt: "safe_command c" if "and_then (parse_path_arg args ''TO:'') (\<lambda>(path, params).
        and_then (parse_rcpt_parameters params) (\<lambda>(notify, orcpt). Inr (RcptTo path notify orcpt))) = Inr c"
    using that dispatch_rcpt_safe [OF nc v] by (fastforce simp: and_then_Inr_iff)
  have dom: "safe_command c" if "and_then (parse_domain_arg args) (\<lambda>d. Inr (Helo d)) = Inr c
      \<or> and_then (parse_domain_arg args) (\<lambda>d. Inr (Ehlo d)) = Inr c"
    using that parse_domain_arg_safe [OF ca] by (auto simp: and_then_Inr_iff)
  show ?thesis
    using d mail rcpt dom parse_bdat_safe [of args c] parse_auth_safe [OF ca, of c]
    unfolding dispatch_verb_def
    by (simp only: parse_no_args_def split: if_splits) auto
qed

text \<open>C28. A line the parser accepts carries no injection: whatever octets the client sent, the
  paths of an accepted command have no delimiter, no space and no control character, the other strings no control octet and no space, and the numbers fit 64 bits. \<^verbatim>\<open>NOTIFY\<close>
  never parses to the empty list of conditions.\<close>

theorem parse_command_safe: "parse_command line = Inr c \<Longrightarrow> safe_command c"
  using dispatch_verb_safe [of line]
  by (auto simp: parse_command_def Let_def split: if_splits prod.splits)

theorem parse_command_safe_witness: "safe_command (RcptTo ''a@b.c'' (Some Never) (Some ''rfc822;d@e''))"
proof -
  have "parse_command ''RCPT TO:<a@b.c> NOTIFY=NEVER ORCPT=rfc822;d@e''
    = Inr (RcptTo ''a@b.c'' (Some Never) (Some ''rfc822;d@e''))"
    by code_simp
  then show ?thesis by (rule parse_command_safe)
qed

end
