(* ===== verification/Limits.thy ===== *)
theory Limits
  imports Rust_Prelude
begin

text \<open>
  Admission limits of the SMTP server: the per-account submission limiter
  (\<^verbatim>\<open>src/src/smtp/ratelimit.rs\<close>) and the disk-space guard (\<^verbatim>\<open>src/src/smtp/diskspace.rs\<close>). Both are
  state behind a lock; an operation returns its answer and the new state. The locale
  \<open>window_counter\<close> is the contract of a counter that restarts when its window has elapsed.
\<close>

section \<open>The submission limiter\<close>

record SendLimiter =
  window_secs :: nat
  limiter_state :: "(str, nat \<times> nat) hashmap"

definition new_limiter :: "nat \<Rightarrow> SendLimiter" where
  "new_limiter w = \<lparr>window_secs = max w 1, limiter_state = []\<rparr>"

text \<open>\<^verbatim>\<open>SendLimiter::check\<close>: the answer and the limiter afterwards.\<close>

definition limiter_check :: "SendLimiter \<Rightarrow> str \<Rightarrow> nat \<Rightarrow> nat \<Rightarrow> bool \<times> SendLimiter" where
  "limiter_check lim account limit now =
     (if limit = 0 then (True, lim)
      else
        (let key = to_ascii_lowercase account;
             entry0 = (case get (limiter_state lim) key of Some e \<Rightarrow> e | None \<Rightarrow> (now, 0));
             entry = (if window_secs lim \<le> now - fst entry0 then (now, 0) else entry0) in
         if limit \<le> snd entry
         then (False, lim\<lparr>limiter_state := hm_insert key entry (limiter_state lim)\<rparr>)
         else (True, lim\<lparr>limiter_state :=
                 hm_insert key (fst entry, snd entry + 1) (limiter_state lim)\<rparr>)))"

section \<open>The disk-space guard\<close>

text \<open>Times are those of the monotonic clock, in nanoseconds; the probe's result is an argument.\<close>

definition CACHE_TTL :: nat where
  "CACHE_TTL = 5000000000"

record CachedSample =
  sample_bytes :: nat
  sample_at :: nat

record DiskGuard =
  guard_cache :: "CachedSample option"

definition new_guard :: DiskGuard where
  "new_guard = \<lparr>guard_cache = None\<rparr>"

definition guard_refresh :: "DiskGuard \<Rightarrow> nat option \<Rightarrow> nat \<Rightarrow> nat option \<times> DiskGuard" where
  "guard_refresh g probe now =
     (case probe of
        Some bytes \<Rightarrow> (Some bytes, g\<lparr>guard_cache := Some \<lparr>sample_bytes = bytes, sample_at = now\<rparr>\<rparr>)
      | None \<Rightarrow> (None, g))"

definition guard_sample :: "DiskGuard \<Rightarrow> nat option \<Rightarrow> nat \<Rightarrow> nat option \<times> DiskGuard" where
  "guard_sample g probe now =
     (case guard_cache g of
        Some s \<Rightarrow> if now - sample_at s < CACHE_TTL then (Some (sample_bytes s), g)
                  else guard_refresh g probe now
      | None \<Rightarrow> guard_refresh g probe now)"

definition has_room :: "DiskGuard \<Rightarrow> nat \<Rightarrow> nat option \<Rightarrow> nat \<Rightarrow> bool \<times> DiskGuard" where
  "has_room g required probe now =
     (case guard_sample g probe now of
        (Some bytes, g') \<Rightarrow> (required \<le> bytes, g')
      | (None, g') \<Rightarrow> (True, g'))"

text \<open>\<^verbatim>\<open>default_probe\<close>: the result of \<^verbatim>\<open>statvfs\<close>, saturating at 64 bits.\<close>

definition default_probe :: "(nat \<times> nat) option \<Rightarrow> nat option" where
  "default_probe stat = map_option (\<lambda>(bavail, frsize). min (bavail * frsize) (2 ^ 64 - 1)) stat"

section \<open>Counters that restart with their window\<close>

fun accepted :: "('s \<Rightarrow> 'e \<Rightarrow> bool \<times> 's) \<Rightarrow> 's \<Rightarrow> 'e list \<Rightarrow> 'e list" where
  "accepted step s [] = []"
| "accepted step s (e # es) =
     (let (ok, s') = step s e in (if ok then [e] else []) @ accepted step s' es)"

text \<open>
  The contract: \<open>mine\<close> are the events counted against one account, \<open>entry\<close> its window start and
  count. An event of the account restarts an elapsed window, counts below the limit and is refused
  at the limit; other events leave the entry alone.
\<close>

locale window_counter =
  fixes window limit :: nat
    and inv :: "'s \<Rightarrow> bool"
    and step :: "'s \<Rightarrow> 'e \<Rightarrow> bool \<times> 's"
    and entry :: "'s \<Rightarrow> (nat \<times> nat) option"
    and mine :: "'e \<Rightarrow> bool"
    and at :: "'e \<Rightarrow> nat"
    and admissible :: "'e \<Rightarrow> bool"
  assumes window_pos: "0 < window" and limit_pos: "0 < limit"
    and inv_step: "inv s \<Longrightarrow> inv (snd (step s e))"
    and other: "inv s \<Longrightarrow> \<not> mine e \<Longrightarrow> entry (snd (step s e)) = entry s"
    and first: "inv s \<Longrightarrow> mine e \<Longrightarrow> admissible e \<Longrightarrow> entry s = None \<Longrightarrow>
      fst (step s e) \<and> entry (snd (step s e)) = Some (at e, 1)"
    and restart: "inv s \<Longrightarrow> mine e \<Longrightarrow> admissible e \<Longrightarrow> entry s = Some (st, c) \<Longrightarrow> window \<le> at e - st \<Longrightarrow>
      fst (step s e) \<and> entry (snd (step s e)) = Some (at e, 1)"
    and counted: "inv s \<Longrightarrow> mine e \<Longrightarrow> admissible e \<Longrightarrow> entry s = Some (st, c) \<Longrightarrow> at e - st < window \<Longrightarrow>
      c < limit \<Longrightarrow> fst (step s e) \<and> entry (snd (step s e)) = Some (st, c + 1)"
    and refused: "inv s \<Longrightarrow> mine e \<Longrightarrow> admissible e \<Longrightarrow> entry s = Some (st, c) \<Longrightarrow> at e - st < window \<Longrightarrow>
      limit \<le> c \<Longrightarrow> \<not> fst (step s e) \<and> entry (snd (step s e)) = Some (st, c)"
begin

text \<open>The times of the account's accepted events so far are \<open>A\<close>; \<open>n lo hi\<close> counts those in
  \<open>[lo, hi)\<close>.\<close>

definition cnt :: "nat list \<Rightarrow> nat \<Rightarrow> nat \<Rightarrow> nat" where
  "cnt A lo hi = length (filter (\<lambda>t. lo \<le> t \<and> t < hi) A)"

definition J :: "nat list \<Rightarrow> (nat \<times> nat) option \<Rightarrow> bool" where
  "J A en \<longleftrightarrow>
     (case en of
        None \<Rightarrow> A = []
      | Some (st, c) \<Rightarrow>
          0 < c \<and> c \<le> limit \<and> (\<forall>t \<in> set A. t < st + window)
          \<and> length (filter (\<lambda>t. st \<le> t) A) \<le> c
          \<and> length (filter (\<lambda>t. st < t) A) < c
          \<and> (\<forall>lo. st < lo + window \<longrightarrow> cnt A lo st < limit)
          \<and> (\<forall>lo. cnt A lo (lo + window) < 2 * limit))"

lemma cnt_snoc: "cnt (A @ [t]) lo hi = cnt A lo hi + (if lo \<le> t \<and> t < hi then 1 else 0)"
  by (simp add: cnt_def)

lemma cnt_split: "cnt A lo hi \<le> cnt A lo m + length (filter (\<lambda>t. m \<le> t) A)"
  by (induction A) (auto simp: cnt_def)

lemma cnt_from: "m < lo \<Longrightarrow> cnt A lo hi \<le> length (filter (\<lambda>t. m < t) A)"
  by (induction A) (auto simp: cnt_def)

lemma J_first: "J [] None \<Longrightarrow> J [t] (Some (t, 1))"
  using window_pos limit_pos by (auto simp: J_def cnt_def)

lemma J_counted:
  assumes J: "J A (Some (st, c))" and t: "st \<le> t" "t - st < window" and c: "c < limit"
  shows "J (A @ [t]) (Some (st, c + 1))"
proof -
  have "cnt (A @ [t]) lo (lo + window) < 2 * limit" for lo
  proof (cases "lo \<le> t \<and> t < lo + window")
    case True
    then have "cnt A lo st < limit"
      using J t by (auto simp: J_def)
    moreover have "length (filter (\<lambda>t. st \<le> t) A) \<le> c"
      using J by (simp add: J_def)
    ultimately show ?thesis
      using cnt_split [of A lo "lo + window" st] c True by (simp add: cnt_snoc)
  next
    case False
    then show ?thesis
      using J by (auto simp: J_def cnt_snoc)
  qed
  then show ?thesis
    using J t c by (auto simp: J_def cnt_snoc)
qed

lemma J_restart:
  assumes J: "J A (Some (st, c))" and t: "st + window \<le> t"
  shows "J (A @ [t]) (Some (t, 1))"
proof -
  have c: "length (filter (\<lambda>t. st < t) A) < limit" and small: "\<forall>x \<in> set A. x < st + window"
    using J by (auto simp: J_def)
  have none: "filter (\<lambda>x. t \<le> x) A = []" "filter (\<lambda>x. t < x) A = []"
    using small t by (auto simp: filter_empty_conv)
  have before: "cnt A lo hi < limit" if "t < lo + window" for lo hi
    using cnt_from [of st lo A hi] c that t by simp
  have "cnt (A @ [t]) lo (lo + window) < 2 * limit" for lo
  proof (cases "lo \<le> t \<and> t < lo + window")
    case True
    then show ?thesis
      using before [of lo "lo + window"] limit_pos by (simp add: cnt_snoc)
  next
    case False
    then show ?thesis
      using J by (auto simp: J_def cnt_snoc)
  qed
  then show ?thesis
    using none before small t limit_pos window_pos by (auto simp: J_def cnt_snoc)
qed

text \<open>One event of the account: the invariant goes on with the event's time added when it was
  accepted.\<close>

lemma J_step:
  assumes i: "inv s" "mine e" "admissible e" and J: "J A (entry s)"
    and le: "\<And>st c. entry s = Some (st, c) \<Longrightarrow> st \<le> at e"
  shows "J (A @ (if fst (step s e) then [at e] else [])) (entry (snd (step s e)))
    \<and> (\<exists>st c. entry (snd (step s e)) = Some (st, c) \<and> st \<le> at e)"
proof (cases "entry s")
  case None
  then show ?thesis
    using first [OF i None] J J_first [of "at e"] by (simp add: J_def)
next
  case (Some sc)
  obtain st c where sc: "sc = (st, c)" by fastforce
  with Some have en: "entry s = Some (st, c)" by simp
  show ?thesis
  proof (cases "window \<le> at e - st")
    case True
    then show ?thesis
      using restart [OF i en True] J_restart [of A st c "at e"] J le [OF en] unfolding en by simp
  next
    case False
    then have lt: "at e - st < window" by simp
    show ?thesis
    proof (cases "c < limit")
      case True
      then show ?thesis
        using counted [OF i en lt True] J_counted [of A st c "at e"] J le [OF en] lt unfolding en by simp
    next
      case False
      then show ?thesis
        using refused [OF i en lt] J le [OF en] unfolding en by simp
    qed
  qed
qed

lemma J_bound: "J A en \<Longrightarrow> cnt A lo (lo + window) < 2 * limit"
  using limit_pos by (cases en) (auto simp: J_def cnt_def)

lemma accepted_bound_from:
  assumes "inv s" "J A (entry s)" "sorted (map at es)" "\<And>e. e \<in> set es \<Longrightarrow> mine e \<Longrightarrow> admissible e"
    and "\<And>st c e. entry s = Some (st, c) \<Longrightarrow> e \<in> set es \<Longrightarrow> st \<le> at e"
  shows "cnt (A @ map at (filter mine (accepted step s es))) lo (lo + window) < 2 * limit"
  using assms
proof (induction es arbitrary: s A)
  case Nil
  then show ?case using J_bound by simp
next
  case (Cons e es)
  obtain ok s' where st: "step s e = (ok, s')" by fastforce
  have i': "inv s'" using inv_step [OF Cons.prems(1), of e] st by simp
  show ?case
  proof (cases "mine e")
    case False
    then have "entry s' = entry s" using other [OF Cons.prems(1) False] st by simp
    then show ?thesis
      using Cons.IH [OF i', of A] Cons.prems False st by simp
  next
    case True
    have js: "J (A @ (if ok then [at e] else [])) (entry s') \<and> (\<exists>t c. entry s' = Some (t, c) \<and> t \<le> at e)"
      using J_step [OF Cons.prems(1) True] Cons.prems(2,4,5) True st by simp
    then have "\<And>t c x. entry s' = Some (t, c) \<Longrightarrow> x \<in> set es \<Longrightarrow> t \<le> at x"
      using Cons.prems(3) by force
    then show ?thesis
      using Cons.IH [OF i', of "A @ (if ok then [at e] else [])"] js Cons.prems(3,4) True st
      by (cases ok) simp_all
  qed
qed

lemma accepted_bound:
  assumes "inv s" "entry s = None" "sorted (map at es)" "\<And>e. e \<in> set es \<Longrightarrow> mine e \<Longrightarrow> admissible e"
  shows "cnt (map at (filter mine (accepted step s es))) lo (lo + window) < 2 * limit"
  using accepted_bound_from [of s "[]" es lo] assms by (simp add: J_def)

end


section \<open>The submission limiter meets the contract\<close>

lemma limiter_check_window [simp]: "window_secs (snd (limiter_check lim a n t)) = window_secs lim"
  by (simp add: limiter_check_def Let_def split: option.split)

type_synonym send_call = "str \<times> nat \<times> nat"

definition call_account :: "send_call \<Rightarrow> str" where
  "call_account c = to_ascii_lowercase (fst c)"

definition call_limit :: "send_call \<Rightarrow> nat" where
  "call_limit c = fst (snd c)"

definition call_time :: "send_call \<Rightarrow> nat" where
  "call_time c = snd (snd c)"

definition check_call :: "SendLimiter \<Rightarrow> send_call \<Rightarrow> bool \<times> SendLimiter" where
  "check_call lim c = limiter_check lim (fst c) (call_limit c) (call_time c)"

lemmas call_defs = call_account_def call_limit_def call_time_def check_call_def

interpretation sender: window_counter "Suc w" "Suc l" "\<lambda>lim. window_secs lim = Suc w" check_call
  "\<lambda>lim. get (limiter_state lim) acct" "\<lambda>c. call_account c = acct" call_time "\<lambda>c. call_limit c = Suc l"
  for w l acct
  by unfold_locales (auto simp: call_defs limiter_check_def Let_def split: option.splits if_splits)



lemma limiter_burst:
  assumes "get (limiter_state lim) (to_ascii_lowercase a) = Some (st, c)" "c + k \<le> n" "t - st < window_secs lim"
  shows "\<exists>lim'. accepted check_call lim (replicate k (a, n, t) @ es)
      = replicate k (a, n, t) @ accepted check_call lim' es
    \<and> get (limiter_state lim') (to_ascii_lowercase a) = Some (st, c + k) \<and> window_secs lim' = window_secs lim"
  using assms
proof (induction k arbitrary: lim c)
  case 0
  then show ?case by auto
next
  case (Suc k)
  let ?lim = "snd (check_call lim (a, n, t))"
  have step: "fst (check_call lim (a, n, t))"
    "get (limiter_state ?lim) (to_ascii_lowercase a) = Some (st, Suc c)" "window_secs ?lim = window_secs lim"
    using Suc.prems by (auto simp: call_defs limiter_check_def Let_def)
  obtain lim' where "accepted check_call ?lim (replicate k (a, n, t) @ es)
      = replicate k (a, n, t) @ accepted check_call lim' es"
    "get (limiter_state lim') (to_ascii_lowercase a) = Some (st, Suc c + k)" "window_secs lim' = window_secs lim"
    using Suc.IH [OF step(2)] Suc.prems step(3) by auto
  then show ?case
    using step(1) by (cases "check_call lim (a, n, t)") auto
qed

lemma limiter_restart:
  assumes "0 < n" "case get (limiter_state lim) (to_ascii_lowercase a) of
      None \<Rightarrow> True | Some (st, c) \<Rightarrow> window_secs lim \<le> t - st" "0 < window_secs lim"
  shows "\<exists>lim'. accepted check_call lim ((a, n, t) # es) = (a, n, t) # accepted check_call lim' es
    \<and> get (limiter_state lim') (to_ascii_lowercase a) = Some (t, 1) \<and> window_secs lim' = window_secs lim"
  using assms
  by (intro exI [of _ "snd (check_call lim (a, n, t))"])
     (auto simp: call_defs limiter_check_def Let_def split: option.splits)

text \<open>The window is a fixed one, not a sliding one: for every limit \<open>n > 0\<close> and window of at
  least two seconds there is a sequence of calls of one account with \<open>2 n - 1\<close> of them let
  through within one window length, so the bound above is the best possible.\<close>

lemma limiter_not_sliding:
  assumes "0 < n" and "2 \<le> w"
  shows "\<exists>calls lo. sorted (map call_time calls)
    \<and> (\<forall>c \<in> set calls. call_account c = ''bob'' \<and> call_limit c = n)
    \<and> length (filter (\<lambda>c. lo \<le> call_time c \<and> call_time c < lo + w)
        (accepted check_call (new_limiter w) calls)) = 2 * n - 1"
proof -
  let ?b = "\<lambda>k t. replicate k (''bob'', n, t)" and ?k = "to_ascii_lowercase ''bob''"
  let ?c3 = "?b (n - 1) w @ []"
  let ?c2 = "(''bob'', n, w) # ?c3"
  let ?c1 = "?b (n - 1) (w - 1) @ ?c2"
  let ?calls = "(''bob'', n, 0) # ?c1"
  have low: "?k = ''bob''" by code_simp
  have "\<exists>l1. accepted check_call (new_limiter w) ?calls = (''bob'', n, 0) # accepted check_call l1 ?c1
    \<and> get (limiter_state l1) ?k = Some (0, 1) \<and> window_secs l1 = window_secs (new_limiter w)"
    by (rule limiter_restart) (use assms in \<open>simp_all add: new_limiter_def\<close>)
  then obtain l1 where 1: "accepted check_call (new_limiter w) ?calls = (''bob'', n, 0) # accepted check_call l1 ?c1"
    and s1: "get (limiter_state l1) ?k = Some (0, 1)" "window_secs l1 = window_secs (new_limiter w)"
    by blast
  have "\<exists>l2. accepted check_call l1 ?c1 = ?b (n - 1) (w - 1) @ accepted check_call l2 ?c2
    \<and> get (limiter_state l2) ?k = Some (0, 1 + (n - 1)) \<and> window_secs l2 = window_secs l1"
    by (rule limiter_burst) (use assms s1 in \<open>simp_all add: new_limiter_def del: to_ascii_lowercase_Cons\<close>)
  then obtain l2 where 2: "accepted check_call l1 ?c1 = ?b (n - 1) (w - 1) @ accepted check_call l2 ?c2"
    and s2: "get (limiter_state l2) ?k = Some (0, 1 + (n - 1))" "window_secs l2 = window_secs l1"
    by blast
  have "\<exists>l3. accepted check_call l2 ?c2 = (''bob'', n, w) # accepted check_call l3 ?c3
    \<and> get (limiter_state l3) ?k = Some (w, 1) \<and> window_secs l3 = window_secs l2"
    by (rule limiter_restart)
       (use assms s1 s2 in \<open>simp_all add: new_limiter_def del: to_ascii_lowercase_Cons\<close>)
  then obtain l3 where 3: "accepted check_call l2 ?c2 = (''bob'', n, w) # accepted check_call l3 ?c3"
    and s3: "get (limiter_state l3) ?k = Some (w, 1)" "window_secs l3 = window_secs l2"
    by blast
  have "\<exists>l4. accepted check_call l3 ?c3 = ?b (n - 1) w @ accepted check_call l4 []
    \<and> get (limiter_state l4) ?k = Some (w, 1 + (n - 1)) \<and> window_secs l4 = window_secs l3"
    by (rule limiter_burst)
       (use assms s1 s2 s3 in \<open>simp_all add: new_limiter_def del: to_ascii_lowercase_Cons\<close>)
  then have 4: "accepted check_call l3 ?c3 = ?c3"
    by (auto simp del: to_ascii_lowercase_Cons)
  have run: "accepted check_call (new_limiter w) ?calls = ?calls"
    by (simp only: 1 2 3 4)
  show ?thesis
  proof (intro exI [of _ ?calls] exI [of _ "w - 1"] conjI)
    show "sorted (map call_time ?calls)"
      by (auto simp: call_time_def sorted_append sorted_replicate)
    show "\<forall>c \<in> set ?calls. call_account c = ''bob'' \<and> call_limit c = n"
      using low by (auto simp: call_account_def call_limit_def)
    show "length (filter (\<lambda>c. w - 1 \<le> call_time c \<and> call_time c < (w - 1) + w)
        (accepted check_call (new_limiter w) ?calls)) = 2 * n - 1"
      unfolding run using assms by (auto simp: call_time_def filter_replicate)
  qed
qed

end
