(* ===== verification/Sasl_Mechanisms.thy ===== *)
theory Sasl_Mechanisms
  imports Rust_Prelude
begin

text \<open>
  The SASL mechanisms SMTP and IMAP share (\<^verbatim>\<open>src/src/sasl.rs\<close>): names, parsing, and which
  mechanisms are offered under which preconditions.
\<close>

datatype Mechanism = External | ScramSha256Plus | ScramSha256 | Plain | Login | OauthBearer | Xoauth2

fun mech_name :: "Mechanism \<Rightarrow> str" where
  "mech_name External = ''EXTERNAL''"
| "mech_name ScramSha256Plus = ''SCRAM-SHA-256-PLUS''"
| "mech_name ScramSha256 = ''SCRAM-SHA-256''"
| "mech_name Plain = ''PLAIN''"
| "mech_name Login = ''LOGIN''"
| "mech_name OauthBearer = ''OAUTHBEARER''"
| "mech_name Xoauth2 = ''XOAUTH2''"

definition all_mechanisms :: "Mechanism list" where
  "all_mechanisms = [External, ScramSha256Plus, ScramSha256, Plain, Login, OauthBearer, Xoauth2]"

definition parse_mechanism :: "str \<Rightarrow> Mechanism option" where
  "parse_mechanism name =
     (let upper = to_ascii_uppercase name in find (\<lambda>m. mech_name m = upper) all_mechanisms)"

definition available_mechs :: "bool \<Rightarrow> bool \<Rightarrow> bool \<Rightarrow> Mechanism list" where
  "available_mechs external channel_binding oauth =
     (if external then [External] else [])
     @ (if channel_binding then [ScramSha256Plus] else [])
     @ [ScramSha256, Plain, Login]
     @ (if oauth then [OauthBearer, Xoauth2] else [])"

definition is_available :: "Mechanism \<Rightarrow> bool \<Rightarrow> bool \<Rightarrow> bool \<Rightarrow> bool" where
  "is_available m external channel_binding oauth \<longleftrightarrow>
     m \<in> set (available_mechs external channel_binding oauth)"

lemma parse_mech_name: "parse_mechanism (mech_name m) = Some m"
  by (cases m; simp only: mech_name.simps) code_simp+

lemma is_available_iff:
  "is_available m e c oa \<longleftrightarrow>
     (m = External \<longrightarrow> e) \<and> (m = ScramSha256Plus \<longrightarrow> c) \<and> (m = OauthBearer \<or> m = Xoauth2 \<longrightarrow> oa)"
  by (cases m) (simp_all add: is_available_def available_mechs_def)

end
