(* ===== verification/Domain_Name.thy ===== *)
theory Domain_Name
  imports Crates
begin

text \<open>
  Domain normalisation (\<^verbatim>\<open>src/src/domain/mod.rs\<close>): every domain becomes a lowercase ASCII
  A-label or is rejected. The IDNA conversion and the Unicode security tables are parameters
  (\<open>crates\<close>); the label checks and the DNS shape check are the source's own.
\<close>

datatype DomainError = Invalid | Confusable

definition MAX_DOMAIN :: nat where
  "MAX_DOMAIN = 253"

definition MAX_LABEL :: nat where
  "MAX_LABEL = 63"

text \<open>The body of the loop of \<^verbatim>\<open>check_confusables\<close> once the Unicode form of a label is known.\<close>

definition check_unicode_label :: "crates \<Rightarrow> str \<Rightarrow> DomainError + unit" where
  "check_unicode_label K unicode =
     (if \<not> is_single_script K unicode then Inl Confusable
      else if \<not> is_ascii unicode \<and> is_ascii (skeleton K unicode) then Inl Confusable
      else Inr ())"

fun check_labels :: "crates \<Rightarrow> str list \<Rightarrow> DomainError + unit" where
  "check_labels K [] = Inr ()"
| "check_labels K (label # labels) =
     (if label = [] then check_labels K labels
      else
        (case strip_prefix ''xn--'' (to_ascii_lowercase label) of
           Some body \<Rightarrow>
             (case punycode_decode K body of
                None \<Rightarrow> Inl Invalid
              | Some unicode \<Rightarrow>
                  (case check_unicode_label K unicode of
                     Inl e \<Rightarrow> Inl e
                   | Inr _ \<Rightarrow> check_labels K labels))
         | None \<Rightarrow>
             if is_ascii label then check_labels K labels
             else
               (case check_unicode_label K label of
                  Inl e \<Rightarrow> Inl e
                | Inr _ \<Rightarrow> check_labels K labels)))"

definition check_confusables :: "crates \<Rightarrow> str \<Rightarrow> DomainError + unit" where
  "check_confusables K raw = check_labels K (split_on (CHR ''.'') raw)"

definition label_byte_ok :: "char \<Rightarrow> bool" where
  "label_byte_ok b \<longleftrightarrow> is_ascii_lowercase b \<or> is_ascii_digit b \<or> b = CHR ''-''"

definition label_ok :: "str \<Rightarrow> bool" where
  "label_ok label \<longleftrightarrow>
     \<not> (label = [] \<or> length label > MAX_LABEL \<or> hd label = CHR ''-'' \<or> last label = CHR ''-''
        \<or> \<not> list_all label_byte_ok label)"

definition check_dns_shape :: "str \<Rightarrow> DomainError + unit" where
  "check_dns_shape ascii =
     (if CHR ''.'' \<notin> set ascii \<or> length ascii > MAX_DOMAIN then Inl Invalid
      else if \<exists>label \<in> set (split_on (CHR ''.'') ascii). \<not> label_ok label then Inl Invalid
      else Inr ())"

definition normalize :: "crates \<Rightarrow> str \<Rightarrow> DomainError + str" where
  "normalize K raw =
     (if raw = [] \<or> list_ex is_ascii_whitespace raw \<or> list_ex is_control (chars raw)
      then Inl Invalid
      else
        (case check_confusables K raw of
           Inl e \<Rightarrow> Inl e
         | Inr _ \<Rightarrow>
             (case domain_to_ascii_strict K raw of
                None \<Rightarrow> Inl Invalid
              | Some ascii \<Rightarrow>
                  (let ascii = to_ascii_lowercase ascii in
                   case check_dns_shape ascii of
                     Inl e \<Rightarrow> Inl e
                   | Inr _ \<Rightarrow> Inr ascii))))"

section \<open>The shape of a normalised domain\<close>

definition dns_shape :: "str \<Rightarrow> bool" where
  "dns_shape d \<longleftrightarrow> CHR ''.'' \<in> set d \<and> length d \<le> MAX_DOMAIN \<and>
     (\<forall>label \<in> set (split_on (CHR ''.'') d). label_ok label)"

lemma check_dns_shape_ok: "check_dns_shape d = Inr u \<longleftrightarrow> dns_shape d"
  by (auto simp: check_dns_shape_def dns_shape_def)

lemma normalize_shape:
  assumes "normalize K raw = Inr d"
  shows "dns_shape d" and "to_ascii_lowercase d = d"
  using assms
  by (auto simp: normalize_def Let_def check_dns_shape_ok split: if_splits sum.splits option.splits)

lemma dns_shape_octets:
  assumes "dns_shape d" and "c \<in> set d"
  shows "label_byte_ok c \<or> c = CHR ''.''"
proof (cases "c = CHR ''.''")
  case False
  with assms(2) obtain w where w: "w \<in> set (split_on (CHR ''.'') d)" "c \<in> set w"
    using mem_split_on_cover by metis
  with assms(1) have "list_all label_byte_ok w" by (auto simp: dns_shape_def label_ok_def)
  with w show ?thesis by (simp add: list_all_iff)
qed simp

lemma label_byte_ok_code:
  "label_byte_ok c \<Longrightarrow> (97 \<le> code c \<and> code c \<le> 122) \<or> (48 \<le> code c \<and> code c \<le> 57) \<or> code c = 45"
  by (auto simp: label_byte_ok_def ascii_simps)

lemma dns_shape_code:
  assumes "dns_shape d" and "c \<in> set d"
  shows "(97 \<le> code c \<and> code c \<le> 122) \<or> (48 \<le> code c \<and> code c \<le> 57) \<or> code c = 45 \<or> code c = 46"
  using dns_shape_octets [OF assms] label_byte_ok_code by auto

lemma dns_shape_ascii: "dns_shape d \<Longrightarrow> is_ascii d"
  using dns_shape_code by (fastforce simp: is_ascii_def list_all_iff is_ascii_char_def)

lemma dns_shape_lowercase: "dns_shape d \<Longrightarrow> to_ascii_lowercase d = d"
  by (rule to_ascii_lowercase_id)
     (use dns_shape_code in \<open>fastforce simp: list_all_iff is_ascii_uppercase_def\<close>)

lemma dns_shape_nonempty: "dns_shape d \<Longrightarrow> d \<noteq> []"
  by (auto simp: dns_shape_def)

lemma check_labels_ascii:
  assumes "\<forall>l \<in> set ls. is_ascii l \<and> strip_prefix ''xn--'' (to_ascii_lowercase l) = None"
  shows "check_labels K ls = Inr ()"
  using assms by (induction ls) auto

text \<open>A domain none of whose labels is an encoded (\<^verbatim>\<open>xn--\<close>) label.\<close>

definition no_ace :: "str \<Rightarrow> bool" where
  "no_ace d \<longleftrightarrow> (\<forall>l \<in> set (split_on (CHR ''.'') d).
     strip_prefix ''xn--'' (to_ascii_lowercase l) = None)"

lemma normalize_ascii:
  assumes "is_ascii d" and "no_ace d" and "dns_shape (to_ascii_lowercase d)"
    and "domain_to_ascii_strict K d = Some (to_ascii_lowercase d)"
  shows "normalize K d = Inr (to_ascii_lowercase d)"
proof -
  have code: "code c \<notin> {9, 10, 12, 13, 32} \<and> 32 \<le> code c \<and> code c \<noteq> 127" if "c \<in> set d" for c
  proof -
    have "ascii_lower_char c \<in> set (to_ascii_lowercase d)"
      using that by (simp add: to_ascii_lowercase_def)
    from dns_shape_code [OF assms(3) this] show ?thesis
      by (auto simp: code_ascii_lower_char is_ascii_uppercase_def split: if_splits)
  qed
  have ne: "d \<noteq> []" using dns_shape_nonempty [OF assms(3)] by auto
  have ws: "\<not> list_ex is_ascii_whitespace d"
    using code by (auto simp: list_ex_iff is_ascii_whitespace_def)
  have ctl: "\<not> list_ex is_control (chars d)"
    using code assms(1) by (force simp: list_ex_iff chars_ascii)
  have "check_confusables K d = Inr ()"
    unfolding check_confusables_def
    using assms(1,2) set_split_on
    by (intro check_labels_ascii) (fastforce simp: no_ace_def is_ascii_def list_all_iff)
  moreover have "check_dns_shape (to_ascii_lowercase d) = Inr ()"
    using assms(3) by (simp add: check_dns_shape_ok)
  ultimately show ?thesis
    using ne ws ctl assms(4) by (simp add: normalize_def)
qed

end
