(* ===== verification/Mail_Address.thy ===== *)
theory Mail_Address
  imports Domain_Name
begin

text \<open>
  Mailbox addresses (\<^verbatim>\<open>src/src/smtp/address.rs\<close>): \<^verbatim>\<open>Address::parse\<close> with the dot-string check of
  the local part, the stored address and its rendering.
\<close>

definition MAX_ADDRESS :: nat where
  "MAX_ADDRESS = 254"

definition MAX_LOCAL_PART :: nat where
  "MAX_LOCAL_PART = 64"

record Address =
  local_part :: str
  domain :: str

datatype AddressError =
  TooLong | MissingAtSign | InvalidLocalPart | InvalidDomain | ConfusableDomain

definition atom_specials :: str where
  "atom_specials = ''!#$%&'' @ [CHR 0x27] @ ''*+-/=?^_'' @ [CHR 0x60] @ ''{|}~''"

definition valid_atom_char :: "str \<Rightarrow> bool" where
  "valid_atom_char c \<longleftrightarrow>
     (case c of [b] \<Rightarrow> is_ascii_alphanumeric b \<or> b \<in> set atom_specials | _ \<Rightarrow> False)
   \<or> (\<not> is_ascii c \<and> \<not> is_control c)"

definition validate_local_part :: "str \<Rightarrow> AddressError + unit" where
  "validate_local_part l =
     (if l = [] \<or> length l > MAX_LOCAL_PART then Inl InvalidLocalPart
      else if \<exists>atom \<in> set (split_on (CHR ''.'') l).
                atom = [] \<or> \<not> list_all valid_atom_char (chars atom)
      then Inl InvalidLocalPart else Inr ())"

definition parse_address :: "crates \<Rightarrow> str \<Rightarrow> AddressError + Address" where
  "parse_address K raw =
     (if length raw > MAX_ADDRESS then Inl TooLong
      else
        (case rsplit_once (CHR ''@'') raw of
           None \<Rightarrow> Inl MissingAtSign
         | Some (l, d) \<Rightarrow>
             (case validate_local_part l of
                Inl e \<Rightarrow> Inl e
              | Inr _ \<Rightarrow>
                  (case normalize K d of
                     Inl Invalid \<Rightarrow> Inl InvalidDomain
                   | Inl Confusable \<Rightarrow> Inl ConfusableDomain
                   | Inr d' \<Rightarrow> Inr \<lparr>local_part = l, domain = d'\<rparr>))))"

definition address_to_string :: "Address \<Rightarrow> str" where
  "address_to_string a = local_part a @ ''@'' @ domain a"

section \<open>Lemmas\<close>

lemma validate_local_part_ok:
  "validate_local_part l = Inr u \<longleftrightarrow>
     l \<noteq> [] \<and> length l \<le> MAX_LOCAL_PART \<and>
     (\<forall>atom \<in> set (split_on (CHR ''.'') l). atom \<noteq> [] \<and> list_all valid_atom_char (chars atom))"
  by (auto simp: validate_local_part_def)

lemma parse_address_Inr_iff:
  "parse_address K raw = Inr a \<longleftrightarrow>
     length raw \<le> MAX_ADDRESS \<and>
     (\<exists>d. raw = local_part a @ CHR ''@'' # d \<and> CHR ''@'' \<notin> set d \<and>
          validate_local_part (local_part a) = Inr () \<and> normalize K d = Inr (domain a))"
  (is "_ \<longleftrightarrow> ?rhs")
proof
  assume "parse_address K raw = Inr a"
  then show ?rhs
    by (auto simp: parse_address_def rsplit_once_Some_iff
        split: if_splits option.splits sum.splits DomainError.splits)
next
  assume ?rhs
  then obtain d where d: "length raw \<le> MAX_ADDRESS" "rsplit_once (CHR ''@'') raw = Some (local_part a, d)"
    "validate_local_part (local_part a) = Inr ()" "normalize K d = Inr (domain a)"
    by (auto simp: rsplit_once_Some_iff)
  then show "parse_address K raw = Inr a"
    by (simp add: parse_address_def)
qed

text \<open>A predicate on characters that holds of the separator and of all pieces holds of the
  whole string.\<close>

lemma list_all_chars_split_on:
  assumes c: "is_ascii_char c" and "P [c]"
  shows "(\<forall>w \<in> set (split_on c s). list_all P (chars w)) \<Longrightarrow> list_all P (chars s)"
proof (induction "length s" arbitrary: s rule: less_induct)
  case less
  show ?case
  proof (cases "c \<in> set s")
    case False
    with less.prems show ?thesis by (simp add: split_on_absent)
  next
    case True
    then obtain a b where s: "s = a @ c # b" and a: "c \<notin> set a"
      by (meson split_list_first)
    with less.prems have "list_all P (chars a)" "\<forall>w \<in> set (split_on c b). list_all P (chars w)"
      by (simp_all add: split_on_append_sep)
    with less.hyps [of b] s c assms(2) show ?thesis
      by (simp add: chars_append_ascii)
  qed
qed

definition atom_code :: "nat \<Rightarrow> bool" where
  "atom_code n \<longleftrightarrow> 33 \<le> n \<and> n \<notin> {34, 40, 41, 44, 46, 58, 59, 60, 62, 64, 91, 92, 93, 127}"

lemma atom_specials_code: "b \<in> set atom_specials \<Longrightarrow> atom_code (code b)"
proof -
  have "list_all (\<lambda>b. atom_code (code b)) atom_specials"
    by (simp add: atom_specials_def atom_code_def)
  then show "b \<in> set atom_specials \<Longrightarrow> atom_code (code b)"
    by (simp add: list_all_iff)
qed

lemma alphanumeric_code: "is_ascii_alphanumeric b \<Longrightarrow> atom_code (code b)"
  unfolding ascii_simps atom_code_def by (elim disjE conjE) simp_all

lemma valid_atom_char_code:
  assumes "valid_atom_char [b]" and "is_ascii_char b"
  shows "atom_code (code b)"
  using assms atom_specials_code alphanumeric_code
  by (auto simp: valid_atom_char_def is_ascii_def)

lemma local_part_chars:
  assumes "validate_local_part l = Inr u"
  shows "list_all (\<lambda>c. valid_atom_char c \<or> c = ''.'') (chars l)"
proof (rule list_all_chars_split_on)
  show "\<forall>w \<in> set (split_on (CHR ''.'') l). list_all (\<lambda>c. valid_atom_char c \<or> c = ''.'') (chars w)"
    using assms by (auto simp: validate_local_part_ok list_all_iff)
qed (simp_all add: is_ascii_char_def)

lemma local_part_octets:
  assumes "validate_local_part l = Inr u" and "c \<in> set l" and "is_ascii_char c"
  shows "atom_code (code c) \<or> code c = 46"
proof -
  from assms(2,3) have "[c] \<in> set (chars l)" by (rule ascii_mem_chars)
  with local_part_chars [OF assms(1)] have "valid_atom_char [c] \<or> c = CHR ''.''"
    by (auto simp: list_all_iff)
  then show ?thesis using valid_atom_char_code [OF _ assms(3)] by auto
qed

lemma atom_code_not_control: "atom_code (code b) \<Longrightarrow> \<not> is_control [b]"
  by (simp add: atom_code_def)

lemma valid_atom_char_not_control: "valid_atom_char c \<Longrightarrow> \<not> is_control c"
  using atom_code_not_control [OF alphanumeric_code] atom_code_not_control [OF atom_specials_code]
  by (auto simp: valid_atom_char_def simp del: is_control.simps split: list.splits)

lemma local_part_no_control:
  assumes "validate_local_part l = Inr u"
  shows "\<not> list_ex is_control (chars l)"
  using local_part_chars [OF assms] valid_atom_char_not_control
  by (fastforce simp: list_all_iff list_ex_iff)

section \<open>Properties\<close>



end
