(* ===== verification/Credentials.thy ===== *)
theory Credentials
  imports Crates Net_Cidr
begin

text \<open>
  Password credentials: the SASL PLAIN message and password verification
  (\<^verbatim>\<open>src/src/smtp/auth.rs\<close>) and app passwords with their expiry and CIDR allowlist
  (\<^verbatim>\<open>src/src/directory_store/app_passwords.rs\<close>).
\<close>

section \<open>SASL PLAIN\<close>

record PlainCredentials =
  authcid :: str
  password :: str

datatype PlainError = BadEncoding | BadFormat | AuthzidMismatch

definition parse_plain :: "crates \<Rightarrow> str \<Rightarrow> PlainError + PlainCredentials" where
  "parse_plain K encoded =
     and_then (ok_or BadEncoding (b64_decode K (trim encoded))) (\<lambda>decoded.
     and_then (ok_or BadFormat (from_utf8 decoded)) (\<lambda>text.
     (case split_on NUL text of
        [authzid, authc, pw] \<Rightarrow>
          if authc = [] \<or> pw = [] then Inl BadFormat
          else if authzid \<noteq> [] \<and> authzid \<noteq> authc then Inl AuthzidMismatch
          else Inr \<lparr>authcid = authc, password = pw\<rparr>
      | _ \<Rightarrow> Inl BadFormat)))"

definition verify_password :: "crates \<Rightarrow> str \<Rightarrow> str \<Rightarrow> bool" where
  "verify_password K phc_hash pw \<longleftrightarrow> phc_parses K phc_hash \<and> argon2_verify K pw phc_hash"

text \<open>\<^verbatim>\<open>hash_password\<close>: the salt (or its failure) and the hashing function are arguments.\<close>

definition hash_password :: "(str \<Rightarrow> bytes \<Rightarrow> str + str) \<Rightarrow> bytes option \<Rightarrow> str \<Rightarrow> str + str" where
  "hash_password argon2_hash salt pw =
     and_then (ok_or ''cannot gather salt entropy'' salt) (\<lambda>s. argon2_hash pw s)"

section \<open>App passwords\<close>

record AppPassword =
  ap_label :: str
  ap_hash :: str
  ap_expires_at :: "nat option"
  ap_ip_cidr :: "str option"

definition admits :: "crates \<Rightarrow> AppPassword \<Rightarrow> str \<Rightarrow> IpAddr option \<Rightarrow> nat \<Rightarrow> bool" where
  "admits K ap pw client_ip now =
     (let hash_ok = verify_password K (ap_hash ap) pw;
          time_ok = (case ap_expires_at ap of None \<Rightarrow> True | Some expiry \<Rightarrow> now < expiry);
          ip_ok = (case ap_ip_cidr ap of
                     None \<Rightarrow> True
                   | Some spec \<Rightarrow>
                       (case (parse_cidr spec, client_ip) of
                          (Some cidr, Some ip) \<Rightarrow> cidr_contains cidr ip
                        | _ \<Rightarrow> False))
      in hash_ok \<and> time_ok \<and> ip_ok)"

section \<open>The PLAIN message\<close>

text \<open>The message a client sends for an identity and a password, as RFC 4616 has it.\<close>

definition plain_message :: "str \<Rightarrow> str \<Rightarrow> str \<Rightarrow> bytes" where
  "plain_message authzid authc pw = authzid @ NUL # authc @ NUL # pw"

lemma split_plain_message:
  assumes "NUL \<notin> set z" "NUL \<notin> set a" "NUL \<notin> set p"
  shows "split_on NUL (plain_message z a p) = [z, a, p]"
  using assms by (simp add: plain_message_def split_on_append_sep split_on_absent)

lemma split_three: "split_on NUL s = [z, a, p] \<Longrightarrow> s = plain_message z a p"
proof -
  have join: "s = concat (map (\<lambda>w. w @ [NUL]) (butlast (split_on NUL s))) @ last (split_on NUL s)" for s
  proof (induction s)
    case (Cons x xs)
    then show ?case
      by (cases "split_on NUL xs") (auto simp: butlast_append)
  qed simp
  assume "split_on NUL s = [z, a, p]"
  then show ?thesis
    using join [of s] by (simp add: plain_message_def)
qed

text \<open>What \<^verbatim>\<open>parse_plain\<close> accepts is exactly a PLAIN message for a non-empty identity and
  password, without another authorization identity.\<close>

lemma parse_plain_Inr_iff:
  "parse_plain K enc = Inr c \<longleftrightarrow>
     (\<exists>z bs. b64_decode K (trim enc) = Some bs \<and> from_utf8 bs = Some bs
        \<and> bs = plain_message z (authcid c) (password c) \<and> (z = [] \<or> z = authcid c)
        \<and> authcid c \<noteq> [] \<and> password c \<noteq> []
        \<and> NUL \<notin> set (authcid c) \<and> NUL \<notin> set (password c) \<and> c = \<lparr>authcid = authcid c, password = password c\<rparr>)"
  (is "?l \<longleftrightarrow> ?r")
proof
  assume ?l
  then obtain bs where bs: "b64_decode K (trim enc) = Some bs" "from_utf8 bs = Some bs"
    and c: "(case split_on NUL bs of
        [authzid, authc, pw] \<Rightarrow>
          if authc = [] \<or> pw = [] then Inl BadFormat
          else if authzid \<noteq> [] \<and> authzid \<noteq> authc then Inl AuthzidMismatch
          else Inr \<lparr>authcid = authc, password = pw\<rparr>
      | _ \<Rightarrow> Inl BadFormat) = Inr c"
    by (auto simp: parse_plain_def and_then_Inr_iff ok_or_Inr_iff dest: from_utf8_SomeD)
  then obtain z a p where s: "split_on NUL bs = [z, a, p]" and r: "c = \<lparr>authcid = a, password = p\<rparr>"
    "a \<noteq> []" "p \<noteq> []" "z = [] \<or> z = a"
    by (auto split: list.splits if_splits)
  have "bs = plain_message z a p" using split_three [OF s] .
  moreover have "NUL \<notin> set a" "NUL \<notin> set p"
    using split_on_no_sep [of _ NUL bs] s by auto
  ultimately show ?r
    using bs r by auto
next
  assume ?r
  then obtain z bs where r: "b64_decode K (trim enc) = Some bs" "from_utf8 bs = Some bs"
    "bs = plain_message z (authcid c) (password c)" "z = [] \<or> z = authcid c" "authcid c \<noteq> []" "password c \<noteq> []"
    "NUL \<notin> set (authcid c)" "NUL \<notin> set (password c)" "c = \<lparr>authcid = authcid c, password = password c\<rparr>"
    by blast
  then have "split_on NUL bs = [z, authcid c, password c]"
    using split_plain_message [of z "authcid c" "password c"] by auto
  then show ?l
    using r by (auto simp: parse_plain_def)
qed

end
