(* ===== verification/Mail_Directory.thy ===== *)
theory Mail_Directory
  imports Mail_Address Credentials Scram
begin

text \<open>
  The account directory (\<^verbatim>\<open>src/src/smtp/directory.rs\<close>): the immutable lookup table, its builder
  methods, recipient resolution, sender ownership, and authentication with its TOTP, app-password,
  LDAP and protocol-allowlist steps. The live LDAP bind is a function field; the wall clock is an
  argument. Maps are association lists in the iteration order of the hash map.
\<close>

section \<open>The table\<close>

text \<open>\<^verbatim>\<open>Protocol\<close> of \<^verbatim>\<open>src/src/config/listener.rs\<close>.\<close>

datatype Protocol = Smtp | Submission | Submissions | Api | Imaps | Imap | Pop3s | ManageSieve | WebDav

datatype Resolution = NotLocal | UnknownUser | Account str | Alias "str list"

record AliasSpec =
  alias_members_of :: "str list"
  alias_senders :: "str list"
  alias_hidden :: bool
  alias_list_id :: "str option"

record Directory =
  domains :: "str list"
  accounts_by_address :: "(str, str) hashmap"
  password_hashes :: "(str, str) hashmap"
  subaddress_separators :: "str list"
  catch_all :: "(str, str) hashmap"
  domain_aliases :: "(str, str) hashmap"
  scram :: "(str, ScramStored) hashmap"
  totp_secrets :: "(str, str) hashmap"
  disabled :: "str list"
  account_quotas :: "(str, nat) hashmap"
  domain_quotas :: "(str, nat) hashmap"
  domain_submission_limits :: "(str, nat) hashmap"
  dir_forwards :: "(str, str list \<times> bool) hashmap"
  aliases :: "(str, AliasSpec) hashmap"
  app_passwords :: "(str, AppPassword list) hashmap"
  ldap :: "(str \<Rightarrow> str \<Rightarrow> str option) option"
  masked_by_address :: "(str, str) hashmap"
  allowed_protocols :: "(str, Protocol list) hashmap"

text \<open>\<^verbatim>\<open>collect\<close> of pairs whose key is lowercased.\<close>

definition lower_keys :: "(str \<times> 'v) list \<Rightarrow> (str, 'v) hashmap" where
  "lower_keys kvs = hm_collect (map (\<lambda>(k, v). (to_ascii_lowercase k, v)) kvs)"

definition new_directory :: "str list \<Rightarrow> (str \<times> str) list \<Rightarrow> Directory" where
  "new_directory ds address_accounts =
     \<lparr>domains = map to_ascii_lowercase ds,
      accounts_by_address = lower_keys address_accounts,
      password_hashes = [], subaddress_separators = [''+''], catch_all = [], domain_aliases = [],
      scram = [], totp_secrets = [], disabled = [], account_quotas = [], domain_quotas = [],
      domain_submission_limits = [], dir_forwards = [], aliases = [], app_passwords = [],
      ldap = None, masked_by_address = [], allowed_protocols = []\<rparr>"

text \<open>\<^verbatim>\<open>Directory::default()\<close>: every field empty, also the separators.\<close>

definition default_directory :: Directory where
  "default_directory = (new_directory [] [])\<lparr>subaddress_separators := []\<rparr>"

section \<open>Builders\<close>

definition with_ldap :: "(str \<Rightarrow> str \<Rightarrow> str option) option \<Rightarrow> Directory \<Rightarrow> Directory" where
  "with_ldap l d = d\<lparr>ldap := l\<rparr>"

definition add_app_password ::
  "str \<times> AppPassword \<Rightarrow> (str, AppPassword list) hashmap \<Rightarrow> (str, AppPassword list) hashmap" where
  "add_app_password entry m =
     (let (account, ap) = entry; k = to_ascii_lowercase account
      in hm_insert k ((case get m k of Some l \<Rightarrow> l | None \<Rightarrow> []) @ [ap]) m)"

definition with_app_passwords :: "(str \<times> AppPassword) list \<Rightarrow> Directory \<Rightarrow> Directory" where
  "with_app_passwords entries d =
     d\<lparr>app_passwords := fold add_app_password entries (app_passwords d)\<rparr>"

definition with_masked :: "(str \<times> str) list \<Rightarrow> Directory \<Rightarrow> Directory" where
  "with_masked entries d = d\<lparr>masked_by_address := lower_keys entries\<rparr>"

definition with_aliases :: "(str \<times> AliasSpec) list \<Rightarrow> Directory \<Rightarrow> Directory" where
  "with_aliases entries d = d\<lparr>aliases := lower_keys entries\<rparr>"

definition with_totp :: "(str \<times> str) list \<Rightarrow> Directory \<Rightarrow> Directory" where
  "with_totp entries d = d\<lparr>totp_secrets := lower_keys entries\<rparr>"

definition with_disabled :: "str list \<Rightarrow> Directory \<Rightarrow> Directory" where
  "with_disabled names d = d\<lparr>disabled := map to_ascii_lowercase names\<rparr>"

definition with_allowed_protocols :: "(str \<times> Protocol list) list \<Rightarrow> Directory \<Rightarrow> Directory" where
  "with_allowed_protocols entries d = d\<lparr>allowed_protocols := lower_keys entries\<rparr>"

definition with_account_quotas :: "(str \<times> nat) list \<Rightarrow> Directory \<Rightarrow> Directory" where
  "with_account_quotas entries d = d\<lparr>account_quotas := lower_keys entries\<rparr>"

definition with_domain_quotas :: "(str \<times> nat) list \<Rightarrow> Directory \<Rightarrow> Directory" where
  "with_domain_quotas entries d = d\<lparr>domain_quotas := lower_keys entries\<rparr>"

definition with_domain_submission_limits :: "(str \<times> nat) list \<Rightarrow> Directory \<Rightarrow> Directory" where
  "with_domain_submission_limits entries d = d\<lparr>domain_submission_limits := lower_keys entries\<rparr>"

definition with_forwards :: "(str \<times> (str list \<times> bool)) list \<Rightarrow> Directory \<Rightarrow> Directory" where
  "with_forwards entries d = d\<lparr>dir_forwards := lower_keys entries\<rparr>"

definition with_scram :: "(str \<times> ScramStored) list \<Rightarrow> Directory \<Rightarrow> Directory" where
  "with_scram entries d = d\<lparr>scram := lower_keys entries\<rparr>"

definition with_domain_aliases :: "(str \<times> str) list \<Rightarrow> Directory \<Rightarrow> Directory" where
  "with_domain_aliases entries d =
     d\<lparr>domain_aliases :=
         hm_collect (map (\<lambda>(a, t). (to_ascii_lowercase a, to_ascii_lowercase t)) entries)\<rparr>"

definition with_catch_all :: "(str \<times> str) list \<Rightarrow> Directory \<Rightarrow> Directory" where
  "with_catch_all entries d = d\<lparr>catch_all := lower_keys entries\<rparr>"

definition with_subaddress_separators :: "str list \<Rightarrow> Directory \<Rightarrow> Directory" where
  "with_subaddress_separators seps d = d\<lparr>subaddress_separators := seps\<rparr>"

definition with_password_hashes :: "(str \<times> str) list \<Rightarrow> Directory \<Rightarrow> Directory" where
  "with_password_hashes hashes d = d\<lparr>password_hashes := hm_collect hashes\<rparr>"

section \<open>Lookups\<close>

definition alias_members :: "Directory \<Rightarrow> str \<Rightarrow> str list option" where
  "alias_members d address =
     (case get (aliases d) (to_ascii_lowercase address) of
        None \<Rightarrow> None
      | Some spec \<Rightarrow> if \<not> alias_hidden spec then Some (alias_members_of spec) else None)"

definition list_headers :: "Directory \<Rightarrow> str \<Rightarrow> str option" where
  "list_headers d address =
     (case get (aliases d) (to_ascii_lowercase address) of
        None \<Rightarrow> None
      | Some spec \<Rightarrow>
          (case alias_list_id spec of
             None \<Rightarrow> None
           | Some list_id \<Rightarrow>
               Some (''List-Id: <'' @ list_id @ ''>'' @ crlf
                 @ ''List-Post: <mailto:'' @ address @ ''>'' @ crlf
                 @ ''List-Unsubscribe: <mailto:'' @ address @ ''?subject=unsubscribe>'' @ crlf)))"

definition is_disabled :: "Directory \<Rightarrow> str \<Rightarrow> bool" where
  "is_disabled d account \<longleftrightarrow> to_ascii_lowercase account \<in> set (disabled d)"

definition is_protocol_allowed :: "Directory \<Rightarrow> str \<Rightarrow> Protocol \<Rightarrow> bool" where
  "is_protocol_allowed d account protocol =
     (case get (allowed_protocols d) (to_ascii_lowercase account) of
        None \<Rightarrow> True
      | Some ps \<Rightarrow> protocol \<in> set ps)"

definition forwards_of :: "Directory \<Rightarrow> str \<Rightarrow> (str list \<times> bool) option" where
  "forwards_of d account = get (dir_forwards d) (to_ascii_lowercase account)"

text \<open>The domains of the account's addresses, in iteration order.\<close>

definition account_domains :: "Directory \<Rightarrow> str \<Rightarrow> str list" where
  "account_domains d account =
     List.map_filter (\<lambda>(addr, _). map_option snd (rsplit_once (CHR ''@'') addr))
       (filter (\<lambda>(_, name). eq_ignore_ascii_case name account) (accounts_by_address d))"

definition quota_for :: "Directory \<Rightarrow> str \<Rightarrow> nat option" where
  "quota_for d account0 =
     (let account = to_ascii_lowercase account0 in
      case get (account_quotas d) account of
        Some bytes \<Rightarrow> Some bytes
      | None \<Rightarrow>
          if domain_quotas d = [] then None
          else find_map (get (domain_quotas d)) (account_domains d account))"

definition submission_limit_for :: "Directory \<Rightarrow> str \<Rightarrow> nat option" where
  "submission_limit_for d account =
     (if domain_submission_limits d = [] then None
      else find_map (get (domain_submission_limits d)) (account_domains d account))"

definition addresses_for :: "Directory \<Rightarrow> str \<Rightarrow> str list" where
  "addresses_for d account =
     map fst (filter (\<lambda>(_, owner). eq_ignore_ascii_case owner account) (accounts_by_address d))"

section \<open>Resolution\<close>

definition strip_subaddress :: "Directory \<Rightarrow> str \<Rightarrow> str \<Rightarrow> str option" where
  "strip_subaddress d local dm =
     (case List.map_filter (\<lambda>sep. find_str sep local) (subaddress_separators d) of
        [] \<Rightarrow> None
      | c # cs \<Rightarrow>
          let cut = fold min cs c in
          if cut = 0 then None
          else Some (to_ascii_lowercase (take cut local @ ''@'' @ dm)))"

definition effective_domain :: "Directory \<Rightarrow> str \<Rightarrow> str" where
  "effective_domain d dm = (case get (domain_aliases d) dm of Some t \<Rightarrow> t | None \<Rightarrow> dm)"

definition resolve :: "Directory \<Rightarrow> Address \<Rightarrow> Resolution" where
  "resolve d address =
     (let local = local_part address; dm = effective_domain d (domain address) in
      if dm \<notin> set (domains d) then NotLocal
      else
        (let key = to_ascii_lowercase (local @ ''@'' @ dm) in
         case get (accounts_by_address d) key of
           Some account \<Rightarrow> Account account
         | None \<Rightarrow>
         (case get (aliases d) key of
           Some spec \<Rightarrow>
             Alias (List.map_filter (\<lambda>m. get (accounts_by_address d) (to_ascii_lowercase m))
               (alias_members_of spec))
         | None \<Rightarrow>
         (case get (masked_by_address d) key of
           Some account \<Rightarrow> Account account
         | None \<Rightarrow>
         (case Option.bind (strip_subaddress d local dm) (get (accounts_by_address d)) of
           Some account \<Rightarrow> Account account
         | None \<Rightarrow>
         (case get (catch_all d) dm of
           Some account \<Rightarrow> Account account
         | None \<Rightarrow> UnknownUser))))))"

definition owns_address :: "Directory \<Rightarrow> str \<Rightarrow> Address \<Rightarrow> bool" where
  "owns_address d account address =
     (let key = to_ascii_lowercase (address_to_string address) in
      case get (accounts_by_address d) key of
        Some owner \<Rightarrow> owner = account
      | None \<Rightarrow>
      (case get (aliases d) key of
        Some spec \<Rightarrow>
          let permitted = (if alias_senders spec = [] then alias_members_of spec else alias_senders spec)
          in list_ex (\<lambda>addr. get (accounts_by_address d) (to_ascii_lowercase addr) = Some account) permitted
      | None \<Rightarrow>
      (case get (masked_by_address d) key of
        Some owner \<Rightarrow> owner = account
      | None \<Rightarrow> False)))"

section \<open>Authentication\<close>

text \<open>The account a login names: the account name itself, or one of its addresses.\<close>

definition login_account :: "crates \<Rightarrow> Directory \<Rightarrow> str \<Rightarrow> str option" where
  "login_account K d login =
     (case parse_address K login of
        Inl _ \<Rightarrow> None
      | Inr address \<Rightarrow> (case resolve d address of Account account \<Rightarrow> Some account | _ \<Rightarrow> None))"

definition credentials :: "crates \<Rightarrow> Directory \<Rightarrow> str \<Rightarrow> (str \<times> str) option" where
  "credentials K d login =
     Option.bind
       (if CHR ''@'' \<in> set login then login_account K d login
        else (let l = to_ascii_lowercase login in
              if get (password_hashes d) l = None then None else Some l)) (\<lambda>account.
     Option.bind (get (password_hashes d) account) (\<lambda>hash. Some (account, hash)))"

definition scram_credentials :: "crates \<Rightarrow> Directory \<Rightarrow> str \<Rightarrow> ScramCredentials option" where
  "scram_credentials K d login =
     Option.bind
       (if CHR ''@'' \<in> set login then login_account K d login else Some (to_ascii_lowercase login))
       (\<lambda>account. Option.bind (get (scram d) account) (to_credentials K))"

definition totp_strip :: "crates \<Rightarrow> nat \<Rightarrow> str \<Rightarrow> str \<Rightarrow> str option" where
  "totp_strip K now pw secret =
     (if length pw < 7 \<or> \<not> list_all is_ascii_digit (drop (length pw - 6) pw) then None
      else
        (let split = length pw - 6; pass = take split pw; otp = drop split pw in
         Option.bind (parse_unsigned 32 otp) (\<lambda>c.
         Option.bind (decode_base32_secret secret) (\<lambda>secret_bytes.
           if verify_totp K secret_bytes c now then Some pass else None))))"

definition authenticate_local ::
  "crates \<Rightarrow> Directory \<Rightarrow> nat \<Rightarrow> str \<Rightarrow> str \<Rightarrow> IpAddr option \<Rightarrow> str option" where
  "authenticate_local K d now login pw ip =
     (case credentials K d login of
        None \<Rightarrow> None
      | Some (account, hash) \<Rightarrow>
          if account \<in> set (disabled d) then None
          else
            (let primary = (case get (totp_secrets d) account of
                              Some secret \<Rightarrow> totp_strip K now pw secret
                            | None \<Rightarrow> Some pw) in
             if (case primary of Some p \<Rightarrow> verify_password K hash p | None \<Rightarrow> False)
             then Some account
             else if list_ex (\<lambda>app. admits K app pw ip now)
                       (case get (app_passwords d) account of Some l \<Rightarrow> l | None \<Rightarrow> [])
             then Some account
             else None))"

definition authenticate_with_ip ::
  "crates \<Rightarrow> Directory \<Rightarrow> nat \<Rightarrow> str \<Rightarrow> str \<Rightarrow> IpAddr option \<Rightarrow> Protocol \<Rightarrow> str option" where
  "authenticate_with_ip K d now login pw ip protocol =
     Option.bind
       (case authenticate_local K d now login pw ip of
          Some account \<Rightarrow> Some account
        | None \<Rightarrow> Option.bind (ldap d) (\<lambda>bind_as. bind_as login pw))
       (\<lambda>account. if is_protocol_allowed d account protocol then Some account else None)"

definition authenticate :: "crates \<Rightarrow> Directory \<Rightarrow> nat \<Rightarrow> str \<Rightarrow> str \<Rightarrow> Protocol \<Rightarrow> str option" where
  "authenticate K d now login pw protocol = authenticate_with_ip K d now login pw None protocol"

text \<open>\<^verbatim>\<open>record_auth_outcome\<close>: the audit event of an attempt.\<close>

datatype AuditEvent = LoginSucceeded | LoginFailed

definition record_auth_outcome ::
  "str \<Rightarrow> str option \<Rightarrow> IpAddr option \<Rightarrow> Protocol \<Rightarrow> AuditEvent \<times> str \<times> str option \<times> IpAddr option \<times> Protocol" where
  "record_auth_outcome login outcome ip protocol =
     ((case outcome of Some _ \<Rightarrow> LoginSucceeded | None \<Rightarrow> LoginFailed), login, outcome, ip, protocol)"


section \<open>Who may authenticate\<close>

text \<open>
  The specification: an app password grants access when its hash verifies, it has not expired and
  the client is in its network; the primary password does when it verifies after a current TOTP
  code has been taken off its end, if the account has a TOTP secret.
\<close>

definition app_grants :: "crates \<Rightarrow> AppPassword \<Rightarrow> str \<Rightarrow> IpAddr option \<Rightarrow> nat \<Rightarrow> bool" where
  "app_grants K app pw ip now \<longleftrightarrow>
     verify_password K (ap_hash app) pw
     \<and> (\<forall>e. ap_expires_at app = Some e \<longrightarrow> now < e)
     \<and> (\<forall>spec. ap_ip_cidr app = Some spec \<longrightarrow>
          (\<exists>c i. parse_cidr spec = Some c \<and> ip = Some i \<and> cidr_contains c i))"

definition primary_grants :: "crates \<Rightarrow> nat \<Rightarrow> str option \<Rightarrow> str \<Rightarrow> str \<Rightarrow> bool" where
  "primary_grants K now totp_secret hash pw \<longleftrightarrow>
     (case totp_secret of
        None \<Rightarrow> verify_password K hash pw
      | Some secret \<Rightarrow>
          (\<exists>p otp sb step. pw = p @ otp \<and> p \<noteq> [] \<and> length otp = 6 \<and> list_all is_ascii_digit otp
             \<and> decode_base32_secret secret = Some sb
             \<and> now div 30 - 1 \<le> step \<and> step \<le> now div 30 + 1
             \<and> digits_value otp = hotp K sb step DIGITS \<and> verify_password K hash p))"

definition local_grants ::
  "crates \<Rightarrow> Directory \<Rightarrow> nat \<Rightarrow> str \<Rightarrow> str \<Rightarrow> IpAddr option \<Rightarrow> str \<Rightarrow> bool" where
  "local_grants K d now login pw ip account \<longleftrightarrow>
     (\<exists>hash. credentials K d login = Some (account, hash) \<and> account \<notin> set (disabled d)
        \<and> (primary_grants K now (get (totp_secrets d) account) hash pw
           \<or> (\<exists>apps app. get (app_passwords d) account = Some apps \<and> app \<in> set apps \<and> app_grants K app pw ip now)))"

lemma admits_iff: "admits K app pw ip now \<longleftrightarrow> app_grants K app pw ip now"
  by (auto simp: admits_def app_grants_def Let_def split: option.splits)

lemma digits6_less: "length ds = 6 \<Longrightarrow> list_all is_ascii_digit ds \<Longrightarrow> digits_value ds < 2 ^ 32"
proof -
  have bound: "list_all is_ascii_digit ds \<Longrightarrow> digits_value ds < 10 ^ length ds" for ds
  proof (induction ds rule: rev_induct)
    case (snoc x xs)
    then have "digit_value x \<le> 9" by (auto simp: digit_value_def is_ascii_digit_def)
    then show ?case using snoc by simp
  qed simp
  assume "length ds = 6" "list_all is_ascii_digit ds"
  then show ?thesis using bound [of ds] by simp
qed

lemma parse_digits:
  assumes "length ds = 6" "list_all is_ascii_digit ds"
  shows "parse_unsigned 32 ds = Some (digits_value ds)"
proof -
  obtain x xs where "ds = x # xs" using assms(1) by (cases ds) auto
  moreover have "strip_prefix ''+'' ds = None"
    using assms(2) calculation by (auto simp: is_ascii_digit_def)
  ultimately show ?thesis
    using assms digits6_less [OF assms] by (simp add: parse_unsigned_def)
qed

lemma totp_strip_Some_iff:
  "totp_strip K now pw secret = Some p \<longleftrightarrow>
     (\<exists>otp sb step. pw = p @ otp \<and> p \<noteq> [] \<and> length otp = 6 \<and> list_all is_ascii_digit otp
        \<and> decode_base32_secret secret = Some sb \<and> now div 30 - 1 \<le> step \<and> step \<le> now div 30 + 1
        \<and> digits_value otp = hotp K sb step DIGITS)"
  (is "?l \<longleftrightarrow> ?r")
proof
  assume ?l
  then have len: "7 \<le> length pw" and dig: "list_all is_ascii_digit (drop (length pw - 6) pw)"
    and p: "p = take (length pw - 6) pw"
    by (auto simp: totp_strip_def Let_def bind_eq_Some_conv split: if_splits)
  then have l6: "length (drop (length pw - 6) pw) = 6" by simp
  obtain sb where sb: "decode_base32_secret secret = Some sb"
    and "verify_totp K sb (digits_value (drop (length pw - 6) pw)) now"
    using \<open>?l\<close> len dig parse_digits [OF l6 dig]
    by (auto simp: totp_strip_def Let_def bind_eq_Some_conv split: if_splits)
  then obtain step where "now div 30 - 1 \<le> step" "step \<le> now div 30 + 1"
    "digits_value (drop (length pw - 6) pw) = hotp K sb step DIGITS"
    using verify_totp_iff by blast
  moreover have "pw = p @ drop (length pw - 6) pw" "p \<noteq> []"
    using p len by auto
  ultimately show ?r using sb l6 dig by blast
next
  assume ?r
  then obtain otp sb step where r: "pw = p @ otp" "p \<noteq> []" "length otp = 6" "list_all is_ascii_digit otp"
    "decode_base32_secret secret = Some sb" "now div 30 - 1 \<le> step" "step \<le> now div 30 + 1"
    "digits_value otp = hotp K sb step DIGITS" by blast
  then have "verify_totp K sb (digits_value otp) now" using verify_totp_iff by blast
  moreover have "7 \<le> length pw" using r(1-3) by (cases p) auto
  ultimately show ?l
    using r parse_digits [OF r(3,4)] by (simp add: totp_strip_def)
qed


lemma authenticate_local_iff:
  "authenticate_local K d now login pw ip = Some account \<longleftrightarrow> local_grants K d now login pw ip account"
proof (cases "credentials K d login")
  case None
  then show ?thesis by (simp add: authenticate_local_def local_grants_def)
next
  case (Some ah)
  obtain acc hash where ah: "ah = (acc, hash)" by (cases ah)
  have app: "(case get (app_passwords d) acc of None \<Rightarrow> False
      | Some apps \<Rightarrow> list_ex (\<lambda>a. admits K a pw ip now) apps) \<longleftrightarrow>
      (\<exists>apps a. get (app_passwords d) acc = Some apps \<and> a \<in> set apps \<and> app_grants K a pw ip now)"
    by (auto simp: list_ex_iff admits_iff split: option.splits)
  have primary: "(case get (totp_secrets d) acc of None \<Rightarrow> verify_password K hash pw
      | Some secret \<Rightarrow> (case totp_strip K now pw secret of None \<Rightarrow> False
          | Some p \<Rightarrow> verify_password K hash p)) \<longleftrightarrow>
      primary_grants K now (get (totp_secrets d) acc) hash pw"
  proof (cases "get (totp_secrets d) acc")
    case None
    then show ?thesis by (simp add: primary_grants_def)
  next
    case (Some secret)
    have "(case totp_strip K now pw secret of None \<Rightarrow> False | Some p \<Rightarrow> verify_password K hash p)
        \<longleftrightarrow> (\<exists>p. totp_strip K now pw secret = Some p \<and> verify_password K hash p)"
      by (simp split: option.splits)
    then show ?thesis
      unfolding Some primary_grants_def totp_strip_Some_iff option.case by blast
  qed
  show ?thesis
    using Some ah app primary
    by (auto simp: authenticate_local_def local_grants_def Let_def split: option.splits)
qed

text \<open>C13. Authentication lets in exactly these logins, always subject to the protocol allowlist of
  the account: a local account that is not disabled whose primary password (with a TOTP code of the
  current 30 second window appended when the account has a TOTP secret) or one of whose unexpired,
  network-matching app passwords verifies; or, only when no local account is granted, the account
  the LDAP bind of that login and password names.\<close>

theorem authenticate_iff:
  "authenticate_with_ip K d now login pw ip protocol = Some account \<longleftrightarrow>
     is_protocol_allowed d account protocol
     \<and> (local_grants K d now login pw ip account
        \<or> (\<nexists>a. local_grants K d now login pw ip a)
           \<and> (\<exists>bind_as. ldap d = Some bind_as \<and> bind_as login pw = Some account))"
proof (cases "authenticate_local K d now login pw ip")
  case None
  then have "\<not> local_grants K d now login pw ip a" for a
    using authenticate_local_iff [of K d now login pw ip a] by simp
  then show ?thesis
    using None by (auto simp: authenticate_with_ip_def bind_eq_Some_conv)
next
  case (Some acc)
  then have "local_grants K d now login pw ip a \<longleftrightarrow> a = acc" for a
    using authenticate_local_iff [of K d now login pw ip a] by auto
  then show ?thesis
    using Some by (auto simp: authenticate_with_ip_def)
qed

text \<open>C39. The disabled flag does not stop the LDAP fallback: whenever the bind of the login
  succeeds for a disabled account, that account is authenticated, without its TOTP code.\<close>

theorem disabled_ldap_admitted:
  assumes "credentials K d login = Some (account, hash)" "account \<in> set (disabled d)"
    "ldap d = Some bind_as" "bind_as login pw = Some account" "is_protocol_allowed d account protocol"
  shows "authenticate_with_ip K d now login pw ip protocol = Some account"
  using assms by (simp add: authenticate_with_ip_def authenticate_local_def)

definition sample_directory :: Directory where
  "sample_directory = with_password_hashes [(''bob'', ''pw'')]
     (with_subaddress_separators [''+'']
       (new_directory [''b.org''] [(''Bob@b.org'', ''bob'')]))"

theorem disabled_ldap_admitted_witness:
  "authenticate_with_ip sample_crates
     (with_ldap (Some (\<lambda>login pw. if pw = ''ldap'' then Some login else None)) (with_disabled [''bob''] sample_directory))
     0 ''bob'' ''ldap'' None Imap = Some ''bob''"
proof (rule disabled_ldap_admitted [where hash = "''pw''" and
        bind_as = "\<lambda>login pw. if pw = ''ldap'' then Some login else None"])
qed (simp add: with_ldap_def | code_simp)+

section \<open>Resolution and ownership\<close>

lemma find_str_single:
  "find_str [c] s = (if c \<in> set s then Some (length (takeWhile (\<lambda>x. x \<noteq> c) s)) else None)"
  by (induction s) (auto simp: starts_with_def)

text \<open>Sub-addressing: with the single separator \<^verbatim>\<open>+\<close>, mail to \<^verbatim>\<open>local+tag\<close> of a served domain
  goes to the account of \<^verbatim>\<open>local\<close> whatever the tag and the letter case, unless the full address is
  itself an account, alias or masked address.\<close>

lemma subaddress_delivered:
  assumes "effective_domain d dm \<in> set (domains d)" "subaddress_separators d = [''+'']"
    "CHR ''+'' \<notin> set local" "local \<noteq> []"
    "get (accounts_by_address d) (to_ascii_lowercase (local @ ''@'' @ effective_domain d dm)) = Some account"
    "\<forall>m \<in> {accounts_by_address d, masked_by_address d}.
       get m (to_ascii_lowercase (local @ ''+'' @ tg @ ''@'' @ effective_domain d dm)) = None"
    "get (aliases d) (to_ascii_lowercase (local @ ''+'' @ tg @ ''@'' @ effective_domain d dm)) = None"
  shows "resolve d \<lparr>local_part = local @ ''+'' @ tg, domain = dm\<rparr> = Account account"
proof -
  have "takeWhile (\<lambda>x. x \<noteq> CHR ''+'') (local @ ''+'' @ tg) = local"
    using assms(3) by (subst takeWhile_append2) auto
  then have "strip_subaddress d (local @ ''+'' @ tg) (effective_domain d dm)
      = Some (to_ascii_lowercase (local @ ''@'' @ effective_domain d dm))"
    using assms(2,4) by (simp add: strip_subaddress_def find_str_single List.map_filter_def Let_def)
  then show ?thesis
    using assms by (simp add: resolve_def Let_def)
qed

text \<open>Sender ownership agrees with delivery: an address of a served, unaliased domain that an
  account may send from is one whose mail is delivered to that account, or an alias.\<close>

lemma owned_address_resolves:
  assumes "owns_address d account a" "domain a \<in> set (domains d)" "get (domain_aliases d) (domain a) = None"
  shows "resolve d a = Account account \<or> (\<exists>members. resolve d a = Alias members)"
  using assms
  by (auto simp: owns_address_def resolve_def Let_def effective_domain_def address_to_string_def
      split: option.splits)

end
