(* ===== verification/Smtp_Session.thy ===== *)
theory Smtp_Session
  imports Smtp_Command Smtp_Reply Limits Sasl_Mechanisms Mail_Directory
begin

text \<open>
  The SMTP session state machine (\<^verbatim>\<open>src/src/smtp/session/\<close>): its value types, configuration, the
  command handlers, the AUTH exchanges (PLAIN, LOGIN, EXTERNAL, OAUTHBEARER, SCRAM), DATA and BDAT.
  Every method takes the session and returns the action for the network layer and the session
  afterwards. What a step reads from outside (time of day, monotonic clock, randomness, free disk
  space) is the record \<open>Env\<close>.

  The contents of the shared \<^verbatim>\<open>Arc\<close>s a session writes to (rate limiter, disk guard) are fields of
  the session record; the network layer's model says how they are shared.
\<close>

section \<open>Value types: \<^verbatim>\<open>types.rs\<close>\<close>

text \<open>Fields of \<open>ReceivingData\<close>: reverse path, recipients, recipients without DSN, size, body,
  REQUIRETLS, whether a BDAT chunk has begun.\<close>

datatype State =
    Connected
  | Greeted
  | ReceivingRecipients str bool
  | ReceivingData str "str list" "str list" nat bytes bool bool

record AcceptedMessage =
  reverse_path :: str
  recipients :: "str list"
  msg_data :: bytes
  require_tls :: bool
  mailbox :: "str option"
  no_dsn :: "str list"

datatype Action =
    Continue Reply
  | CollectData Reply
  | CollectChunk nat bool
  | Deliver Reply AcceptedMessage
  | UpgradeTls Reply
  | CollectAuthResponse Reply
  | Close Reply

section \<open>The session\<close>

definition MAX_MESSAGE_SIZE :: nat where "MAX_MESSAGE_SIZE = 25 * 1024 * 1024"

definition MAX_RECIPIENTS :: nat where "MAX_RECIPIENTS = 100"

datatype PendingScram =
    ClientFirst ChannelBinding
  | ClientFinal ScramServer ScramCredentials str

text \<open>\<open>oauth\<close> is the token verifier; of the per-tenant limits, which no method of the session
  reads, only whether they are attached is kept.\<close>

record Session =
  hostname :: str
  state :: State
  tls_available :: bool
  tls_active :: bool
  authenticated :: "str option"
  auth_failures :: "8 word"
  helo_domain :: "str option"
  esmtp :: bool
  directory :: Directory
  pending_scram :: "PendingScram option"
  pending_login :: "str option option"
  scram_nonce :: "str option"
  oauth :: "(str \<Rightarrow> nat \<Rightarrow> str option) option"
  cbind_data :: "bytes option"
  send_limiter :: "SendLimiter option"
  global_submission_rate_limit_per_min :: "nat option"
  tenant_limits :: bool
  client_identity :: "str option"
  pending_external :: bool
  peer_ip :: "IpAddr option"
  disk_guard :: "DiskGuard option"
  auth_protocol :: Protocol

text \<open>What a step reads from outside: seconds since the epoch, the monotonic clock of the disk
  guard, 18 octets of the random generator (or its failure), the free-space probe.\<close>

record Env =
  env_now :: nat
  env_instant :: nat
  env_random :: "bytes option"
  env_probe :: "nat option"

definition new_session :: "str \<Rightarrow> Session" where
  "new_session host =
     \<lparr>hostname = host, state = Connected, tls_available = False, tls_active = False,
      authenticated = None, auth_failures = 0, helo_domain = None, esmtp = False,
      directory = default_directory, pending_scram = None, pending_login = None,
      scram_nonce = None, oauth = None, cbind_data = None, send_limiter = None,
      global_submission_rate_limit_per_min = None, tenant_limits = False,
      client_identity = None, pending_external = False, peer_ip = None, disk_guard = None,
      auth_protocol = Submission\<rparr>"

definition with_auth_protocol :: "Protocol \<Rightarrow> Session \<Rightarrow> Session" where
  "with_auth_protocol p s = s\<lparr>auth_protocol := p\<rparr>"

definition set_client_identity :: "str option \<Rightarrow> Session \<Rightarrow> Session" where
  "set_client_identity i s = s\<lparr>client_identity := i\<rparr>"

definition set_peer_ip :: "IpAddr option \<Rightarrow> Session \<Rightarrow> Session" where
  "set_peer_ip ip s = s\<lparr>peer_ip := ip\<rparr>"

definition with_send_limiter :: "SendLimiter \<Rightarrow> Session \<Rightarrow> Session" where
  "with_send_limiter l s = s\<lparr>send_limiter := Some l\<rparr>"

definition with_global_submission_rate_limit :: "nat option \<Rightarrow> Session \<Rightarrow> Session" where
  "with_global_submission_rate_limit l s = s\<lparr>global_submission_rate_limit_per_min := l\<rparr>"

definition with_tenant_limits :: "Session \<Rightarrow> Session" where
  "with_tenant_limits s = s\<lparr>tenant_limits := True\<rparr>"

definition with_session_binding :: "bytes \<Rightarrow> Session \<Rightarrow> Session" where
  "with_session_binding h s = s\<lparr>cbind_data := Some h\<rparr>"

definition with_disk_guard :: "DiskGuard \<Rightarrow> Session \<Rightarrow> Session" where
  "with_disk_guard g s = s\<lparr>disk_guard := Some g\<rparr>"

definition with_tls_active :: "Session \<Rightarrow> Session" where
  "with_tls_active s = s\<lparr>tls_active := True\<rparr>"

definition with_directory :: "Directory \<Rightarrow> Session \<Rightarrow> Session" where
  "with_directory d s = s\<lparr>directory := d\<rparr>"

definition with_tls_available :: "Session \<Rightarrow> Session" where
  "with_tls_available s = s\<lparr>tls_available := True\<rparr>"

definition with_oauth :: "(str \<Rightarrow> nat \<Rightarrow> str option) \<Rightarrow> Session \<Rightarrow> Session" where
  "with_oauth v s = s\<lparr>oauth := Some v\<rparr>"

definition with_scram_nonce :: "str \<Rightarrow> Session \<Rightarrow> Session" where
  "with_scram_nonce n s = s\<lparr>scram_nonce := Some n\<rparr>"

definition tls_started :: "Session \<Rightarrow> Session" where
  "tls_started s =
     s\<lparr>state := Connected, tls_available := False, tls_active := True, helo_domain := None,
       esmtp := False\<rparr>"

definition greeting :: "Session \<Rightarrow> Reply" where
  "greeting s = single 220 (hostname s @ '' ESMTP ready'')"

text \<open>\<^verbatim>\<open>reset\<close>: drop the transaction, keep the greeting.\<close>

definition reset :: "Session \<Rightarrow> Session" where
  "reset s = (if state s \<noteq> Connected then s\<lparr>state := Greeted\<rparr> else s)"

section \<open>AUTH outcomes\<close>

definition fail_reply :: Reply where
  "fail_reply = single 535 ''5.7.8 authentication credentials invalid''"

definition auth_fail :: "Session \<Rightarrow> Action \<times> Session" where
  "auth_fail s =
     (let s' = s\<lparr>auth_failures := auth_failures s + 1\<rparr> in
      if auth_failures s' \<ge> 3 then (Close fail_reply, s') else (Continue fail_reply, s'))"

definition auth_success :: "Session \<Rightarrow> str \<Rightarrow> Action \<times> Session" where
  "auth_success s account =
     (Continue (single 235 ''2.7.0 authentication successful''), s\<lparr>authenticated := Some account\<rparr>)"

section \<open>PLAIN, LOGIN, EXTERNAL: \<^verbatim>\<open>login.rs\<close>\<close>

definition verify_plain :: "crates \<Rightarrow> Env \<Rightarrow> Session \<Rightarrow> str \<Rightarrow> Action \<times> Session" where
  "verify_plain K env s encoded =
     (case parse_plain K encoded of
        Inl _ \<Rightarrow> auth_fail s
      | Inr cred \<Rightarrow>
          (case authenticate_with_ip K (directory s) (env_now env) (authcid cred) (password cred)
                  (peer_ip s) (auth_protocol s) of
             Some account \<Rightarrow> auth_success s account
           | None \<Rightarrow> auth_fail s))"

definition login_username :: "crates \<Rightarrow> Session \<Rightarrow> str \<Rightarrow> Action \<times> Session" where
  "login_username K s encoded =
     (case b64_decode K (trim encoded) of
        None \<Rightarrow> auth_fail s
      | Some bs \<Rightarrow>
          (CollectAuthResponse (single 334 ''UGFzc3dvcmQ6''),
           s\<lparr>pending_login := Some (Some (from_utf8_lossy bs))\<rparr>))"

definition login_password :: "crates \<Rightarrow> Env \<Rightarrow> Session \<Rightarrow> str \<Rightarrow> str \<Rightarrow> Action \<times> Session" where
  "login_password K env s user encoded =
     (case b64_decode K (trim encoded) of
        None \<Rightarrow> auth_fail s
      | Some bs \<Rightarrow>
          (case authenticate_with_ip K (directory s) (env_now env) user (from_utf8_lossy bs)
                  (peer_ip s) (auth_protocol s) of
             Some account \<Rightarrow> auth_success s account
           | None \<Rightarrow> auth_fail s))"

definition verify_external :: "crates \<Rightarrow> Session \<Rightarrow> str \<Rightarrow> Action \<times> Session" where
  "verify_external K s encoded =
     (case client_identity s of
        None \<Rightarrow> auth_fail s
      | Some identity \<Rightarrow>
          let trimmed = trim encoded in
          (case (if trimmed = [] \<or> trimmed = ''='' then Some []
                 else map_option from_utf8_lossy (b64_decode K trimmed)) of
             None \<Rightarrow> auth_fail s
           | Some authzid \<Rightarrow>
               if authzid \<noteq> [] \<and> authzid \<noteq> identity then auth_fail s
               else
                 (case parse_address K identity of
                    Inl _ \<Rightarrow> auth_fail s
                  | Inr address \<Rightarrow>
                      (case resolve (directory s) address of
                         Account account \<Rightarrow>
                           if \<not> is_protocol_allowed (directory s) account (auth_protocol s)
                           then auth_fail s
                           else auth_success s account
                       | _ \<Rightarrow> auth_fail s))))"

section \<open>OAUTHBEARER and XOAUTH2: \<^verbatim>\<open>oauth.rs\<close>\<close>

definition auth_capability :: "Session \<Rightarrow> str" where
  "auth_capability s =
     ''AUTH'' @ concat (map (\<lambda>m. CHR '' '' # mech_name m)
       (available_mechs (client_identity s \<noteq> None) (cbind_data s \<noteq> None) (oauth s \<noteq> None)))"

definition parse_bearer :: "crates \<Rightarrow> str \<Rightarrow> str option" where
  "parse_bearer K encoded =
     Option.bind (b64_decode K encoded) (\<lambda>decoded.
     Option.bind (from_utf8 decoded) (\<lambda>t.
     Option.bind (split_str_nth1 ''auth=Bearer '' t) (\<lambda>rest.
       (let token = trim (hd (split_on (CHR 0x01) rest)) in
        if token = [] then None else Some token))))"

definition resolve_account :: "crates \<Rightarrow> Session \<Rightarrow> str \<Rightarrow> str option" where
  "resolve_account K s email =
     (case parse_address K email of
        Inl _ \<Rightarrow> None
      | Inr address \<Rightarrow>
          (case resolve (directory s) address of Account account \<Rightarrow> Some account | _ \<Rightarrow> None))"

text \<open>\<^verbatim>\<open>oauth_failure\<close> counts and replies as \<^verbatim>\<open>auth_fail\<close> does.\<close>

definition oauth_failure :: "Session \<Rightarrow> Action \<times> Session" where
  "oauth_failure s = auth_fail s"

definition oauth_bearer :: "crates \<Rightarrow> Env \<Rightarrow> Session \<Rightarrow> str option \<Rightarrow> Action \<times> Session" where
  "oauth_bearer K env s initial =
     (case oauth s of
        None \<Rightarrow> (Continue (single 504 ''5.5.4 mechanism not supported''), s)
      | Some verifier \<Rightarrow>
          (case Option.bind (Option.bind (Option.bind (Option.bind initial (parse_bearer K))
                  (\<lambda>token. verifier token (env_now env)))
                  (resolve_account K s))
                  (\<lambda>account. if is_protocol_allowed (directory s) account (auth_protocol s)
                             then Some account else None) of
             Some account \<Rightarrow> auth_success s account
           | None \<Rightarrow> oauth_failure s))"

section \<open>SCRAM: \<^verbatim>\<open>session/scram.rs\<close>\<close>

definition scram_binding :: "Session \<Rightarrow> bool \<Rightarrow> ChannelBinding" where
  "scram_binding s is_plus =
     (case cbind_data s of
        Some h \<Rightarrow> if is_plus then Required h else Supported
      | None \<Rightarrow> Unsupported)"

definition scram_decode :: "crates \<Rightarrow> str \<Rightarrow> str option" where
  "scram_decode K encoded = Option.bind (b64_decode K encoded) from_utf8"

definition fresh_nonce :: "crates \<Rightarrow> Env \<Rightarrow> Session \<Rightarrow> str option" where
  "fresh_nonce K env s =
     (case scram_nonce s of
        Some nonce \<Rightarrow> Some nonce
      | None \<Rightarrow> map_option (b64_encode K) (env_random env))"

definition scram_failure :: "Session \<Rightarrow> Action \<times> Session" where
  "scram_failure s = auth_fail (s\<lparr>pending_scram := None\<rparr>)"

definition scram_client_first ::
  "crates \<Rightarrow> Env \<Rightarrow> Session \<Rightarrow> str \<Rightarrow> ChannelBinding \<Rightarrow> Action \<times> Session" where
  "scram_client_first K env s encoded binding =
     (case scram_decode K encoded of
        None \<Rightarrow> scram_failure s
      | Some client_first \<Rightarrow>
     (case username_of client_first of
        None \<Rightarrow> scram_failure s
      | Some username \<Rightarrow>
     (case scram_credentials K (directory s) username of
        None \<Rightarrow> scram_failure s
      | Some cred \<Rightarrow>
     (case credentials K (directory s) username of
        None \<Rightarrow> scram_failure s
      | Some (account, _) \<Rightarrow>
          if \<not> is_protocol_allowed (directory s) account (auth_protocol s) then scram_failure s
          else
     (case fresh_nonce K env s of
        None \<Rightarrow> scram_failure s
      | Some nonce \<Rightarrow>
     (case scram_first K (with_channel_binding (new_scram_server nonce) binding) client_first cred of
        (Inl _, _) \<Rightarrow> scram_failure s
      | (Inr (_, sfirst), server) \<Rightarrow>
          (CollectAuthResponse (single 334 (b64_encode K sfirst)),
           s\<lparr>pending_scram := Some (ClientFinal server cred account)\<rparr>)))))))"

definition scram_client_final ::
  "crates \<Rightarrow> Session \<Rightarrow> str \<Rightarrow> ScramServer \<Rightarrow> ScramCredentials \<Rightarrow> str \<Rightarrow> Action \<times> Session" where
  "scram_client_final K s encoded server cred account =
     (case scram_decode K encoded of
        None \<Rightarrow> scram_failure s
      | Some client_final \<Rightarrow>
          (case scram_finish K server client_final cred of
             Inr server_final \<Rightarrow>
               (Continue (single 235 (''2.7.0 '' @ b64_encode K server_final)),
                s\<lparr>authenticated := Some account\<rparr>)
           | Inl _ \<Rightarrow> scram_failure s))"

definition scram_begin :: "crates \<Rightarrow> Env \<Rightarrow> Session \<Rightarrow> str option \<Rightarrow> bool \<Rightarrow> Action \<times> Session" where
  "scram_begin K env s initial is_plus =
     (let binding = scram_binding s is_plus in
      case initial of
        Some client_first \<Rightarrow> scram_client_first K env s client_first binding
      | None \<Rightarrow>
          (CollectAuthResponse (single 334 []), s\<lparr>pending_scram := Some (ClientFirst binding)\<rparr>))"

section \<open>AUTH\<close>

definition auth :: "crates \<Rightarrow> Env \<Rightarrow> Session \<Rightarrow> str \<Rightarrow> str option \<Rightarrow> Action \<times> Session" where
  "auth K env s mechanism initial =
     (let unsupported = (Continue (single 504 ''5.5.4 mechanism not supported''), s) in
      if \<not> tls_active s then (Continue (single 538 ''5.7.11 encryption required for auth''), s)
      else if authenticated s \<noteq> None then (Continue bad_sequence, s)
      else if state s \<noteq> Greeted then (Continue bad_sequence, s)
      else
        (case parse_mechanism mechanism of
           None \<Rightarrow> unsupported
         | Some parsed \<Rightarrow>
             if \<not> is_available parsed (client_identity s \<noteq> None) (cbind_data s \<noteq> None) (oauth s \<noteq> None)
             then unsupported
             else
               (case parsed of
                  External \<Rightarrow>
                    (case initial of
                       Some response \<Rightarrow> verify_external K s response
                     | None \<Rightarrow> (CollectAuthResponse (single 334 []), s\<lparr>pending_external := True\<rparr>))
                | Plain \<Rightarrow>
                    (case initial of
                       Some response \<Rightarrow> verify_plain K env s response
                     | None \<Rightarrow> (CollectAuthResponse (single 334 []), s))
                | ScramSha256 \<Rightarrow> scram_begin K env s initial False
                | ScramSha256Plus \<Rightarrow> scram_begin K env s initial True
                | OauthBearer \<Rightarrow> oauth_bearer K env s initial
                | Xoauth2 \<Rightarrow> oauth_bearer K env s initial
                | Login \<Rightarrow>
                    (case initial of
                       Some user \<Rightarrow> login_username K s user
                     | None \<Rightarrow>
                         (CollectAuthResponse (single 334 ''VXNlcm5hbWU6''),
                          s\<lparr>pending_login := Some None\<rparr>)))))"

definition auth_line :: "crates \<Rightarrow> Env \<Rightarrow> Session \<Rightarrow> str \<Rightarrow> Action \<times> Session" where
  "auth_line K env s line =
     (if line = ''*'' then
        (Continue (single 501 ''5.7.0 authentication cancelled''),
         s\<lparr>pending_scram := None, pending_login := None, pending_external := False\<rparr>)
      else if pending_external s then verify_external K (s\<lparr>pending_external := False\<rparr>) line
      else
        (case pending_login s of
           Some None \<Rightarrow> login_username K (s\<lparr>pending_login := None\<rparr>) line
         | Some (Some user) \<Rightarrow> login_password K env (s\<lparr>pending_login := None\<rparr>) user line
         | None \<Rightarrow>
             (case pending_scram s of
                Some (ClientFirst binding) \<Rightarrow>
                  scram_client_first K env (s\<lparr>pending_scram := None\<rparr>) line binding
              | Some (ClientFinal server cred account) \<Rightarrow>
                  scram_client_final K (s\<lparr>pending_scram := None\<rparr>) line server cred account
              | None \<Rightarrow> verify_plain K env s line)))"

section \<open>Commands\<close>

definition greet :: "Session \<Rightarrow> str \<Rightarrow> bool \<Rightarrow> Action \<times> Session" where
  "greet s dm es =
     (let s' = s\<lparr>state := Greeted, helo_domain := Some dm, esmtp := es\<rparr> in
      if \<not> es then (Continue (single 250 (hostname s')), s')
      else
        (Continue (multi 250
          ([hostname s', ''PIPELINING'', ''ENHANCEDSTATUSCODES'', ''8BITMIME'', ''SMTPUTF8'',
            ''CHUNKING'', ''DSN'', ''SIZE '' @ show_nat MAX_MESSAGE_SIZE,
            ''LIMITS RCPTMAX='' @ show_nat MAX_RECIPIENTS]
           @ (if tls_available s' then [''STARTTLS''] else [])
           @ (if tls_active s' \<and> authenticated s' = None then [auth_capability s'] else [])
           @ (if tls_active s' then [''REQUIRETLS''] else []))), s'))"

definition start_tls :: "Session \<Rightarrow> Action" where
  "start_tls s =
     (if \<not> tls_available s then Continue (single 454 ''4.7.0 TLS not available'')
      else if state s = Greeted then UpgradeTls (single 220 ''ready to start TLS'')
      else Continue bad_sequence)"

text \<open>\<^verbatim>\<open>mail_from\<close>: the sender check, the submission rate limit with the limiter afterwards, and the
  free-space check with the guard afterwards, each a step of the handler.\<close>

definition sender_rejected :: "crates \<Rightarrow> Session \<Rightarrow> str \<Rightarrow> Reply option" where
  "sender_rejected K s rp =
     (case (authenticated s, parse_address K rp) of
        (Some account, Inr address) \<Rightarrow>
          if \<not> owns_address (directory s) account address
          then Some (single 553 ''5.7.1 sender address not owned by authenticated user'')
          else None
      | (Some _, Inl _) \<Rightarrow> Some (single 553 ''5.1.7 invalid reverse-path'')
      | (None, Inl _) \<Rightarrow>
          if rp \<noteq> [] then Some (single 553 ''5.1.7 invalid reverse-path'') else None
      | (None, Inr _) \<Rightarrow> None)"

definition rate_limited :: "Env \<Rightarrow> Session \<Rightarrow> bool \<times> Session" where
  "rate_limited env s =
     (case (authenticated s, send_limiter s) of
        (Some account, Some limiter) \<Rightarrow>
          (case (case submission_limit_for (directory s) account of
                   Some l \<Rightarrow> Some l
                 | None \<Rightarrow> global_submission_rate_limit_per_min s) of
             Some limit \<Rightarrow>
               (let (ok, limiter') = limiter_check limiter account limit (env_now env)
                in (\<not> ok, s\<lparr>send_limiter := Some limiter'\<rparr>))
           | None \<Rightarrow> (False, s))
      | _ \<Rightarrow> (False, s))"

definition disk_full :: "Env \<Rightarrow> Session \<Rightarrow> bool \<times> Session" where
  "disk_full env s =
     (case disk_guard s of
        Some guard \<Rightarrow>
          (let (room, guard') = has_room guard MAX_MESSAGE_SIZE (env_probe env) (env_instant env)
           in (\<not> room, s\<lparr>disk_guard := Some guard'\<rparr>))
      | None \<Rightarrow> (False, s))"

definition mail_from ::
  "crates \<Rightarrow> Env \<Rightarrow> Session \<Rightarrow> str \<Rightarrow> nat option \<Rightarrow> bool \<Rightarrow> Action \<times> Session" where
  "mail_from K env s rp declared rtls =
     (if state s \<noteq> Greeted then (Continue bad_sequence, s)
      else if rtls \<and> \<not> tls_active s then
        (Continue (single 530 ''5.7.4 REQUIRETLS requires the session to use TLS''), s)
      else
        (case sender_rejected K s rp of
           Some reply \<Rightarrow> (Continue reply, s)
         | None \<Rightarrow>
             let (limited, s1) = rate_limited env s in
             if limited then
               (Continue (single 450 ''4.7.1 sending rate limit exceeded; retry later''), s1)
             else if (case declared of Some n \<Rightarrow> n > MAX_MESSAGE_SIZE | None \<Rightarrow> False) then
               (Continue (single 552 ''5.3.4 message exceeds maximum size''), s1)
             else
               (let (full, s2) = disk_full env s1 in
                if full then
                  (Continue (single 452 ''4.3.1 insufficient system storage; retry later''), s2)
                else (Continue reply_ok250, s2\<lparr>state := ReceivingRecipients rp rtls\<rparr>))))"

definition suppresses_dsn :: "Notify option \<Rightarrow> bool" where
  "suppresses_dsn notify =
     (case notify of
        Some Never \<Rightarrow> True
      | Some (On _ failure _) \<Rightarrow> \<not> failure
      | None \<Rightarrow> False)"

definition rcpt_to :: "crates \<Rightarrow> Session \<Rightarrow> str \<Rightarrow> Notify option \<Rightarrow> Action \<times> Session" where
  "rcpt_to K s forward_path notify =
     (case parse_address K forward_path of
        Inl _ \<Rightarrow> (Continue (single 553 ''5.1.3 invalid recipient address''), s)
      | Inr address \<Rightarrow>
          if resolve (directory s) address = NotLocal \<and> authenticated s = None
          then (Continue (single 550 ''5.7.1 relaying denied''), s)
          else if resolve (directory s) address = UnknownUser
          then (Continue (single 550 ''5.1.1 no such user''), s)
          else
            (let fp = address_to_string address; sup = suppresses_dsn notify in
             case state s of
               ReceivingRecipients rp rtls \<Rightarrow>
                 (Continue reply_ok250,
                  s\<lparr>state := ReceivingData rp [fp] (if sup then [fp] else []) 0 [] rtls False\<rparr>)
             | ReceivingData rp rcpts nodsn n body rtls chunking \<Rightarrow>
                 if body = [] \<and> \<not> chunking then
                   (if length rcpts \<ge> MAX_RECIPIENTS
                    then (Continue (single 452 ''4.5.3 too many recipients''), s)
                    else (Continue reply_ok250,
                          s\<lparr>state := ReceivingData rp (rcpts @ [fp])
                              (if sup then nodsn @ [fp] else nodsn) n body rtls chunking\<rparr>))
                 else (Continue bad_sequence, s)
             | _ \<Rightarrow> (Continue bad_sequence, s)))"

definition data_cmd :: "Session \<Rightarrow> Action" where
  "data_cmd s =
     (case state s of
        ReceivingData _ _ _ _ body _ chunking \<Rightarrow>
          if body = [] \<and> \<not> chunking then CollectData start_mail_input else Continue bad_sequence
      | _ \<Rightarrow> Continue bad_sequence)"

section \<open>Message data\<close>

definition data_line :: "Session \<Rightarrow> bytes \<Rightarrow> Action option \<times> Session" where
  "data_line s line =
     (case state s of
        ReceivingData rp rcpts nodsn n body rtls chunking \<Rightarrow>
          if line = ''.'' then
            (let message = \<lparr>reverse_path = rp, recipients = rcpts, msg_data = body,
                            require_tls = rtls, mailbox = None, no_dsn = nodsn\<rparr>;
                 s' = s\<lparr>state := Greeted\<rparr> in
             if n > MAX_MESSAGE_SIZE
             then (Some (Continue (single 552 ''message exceeds maximum size'')), s')
             else (Some (Deliver reply_ok250 message), s'))
          else
            (let content = (case strip_prefix ''.'' line of Some r \<Rightarrow> r | None \<Rightarrow> line);
                 n' = n + (length content + 2) in
             (None, s\<lparr>state := ReceivingData rp rcpts nodsn n'
                (if n' \<le> MAX_MESSAGE_SIZE then body @ content @ crlf else body) rtls chunking\<rparr>))
      | _ \<Rightarrow> (Some (Continue bad_sequence), reset s))"

definition bdat :: "Session \<Rightarrow> nat \<Rightarrow> bool \<Rightarrow> Action \<times> Session" where
  "bdat s n is_last =
     (if n > MAX_MESSAGE_SIZE then (Close (single 552 ''5.3.4 message exceeds maximum size''), reset s)
      else (CollectChunk n is_last, s))"

definition bdat_chunk :: "Session \<Rightarrow> bytes \<Rightarrow> bool \<Rightarrow> Action \<times> Session" where
  "bdat_chunk s data is_last =
     (case state s of
        ReceivingData rp rcpts nodsn n body rtls chunking \<Rightarrow>
          (let n' = n + length data;
               over = n' > MAX_MESSAGE_SIZE;
               body' = (if over then body else body @ data);
               s' = s\<lparr>state := ReceivingData rp rcpts nodsn n' body' rtls True\<rparr> in
           if over then (Continue (single 552 ''5.3.4 message exceeds maximum size''), reset s')
           else if \<not> is_last then (Continue (single 250 ''2.0.0 chunk received''), s')
           else
             (Deliver reply_ok250
                \<lparr>reverse_path = rp, recipients = rcpts, msg_data = body', require_tls = rtls,
                 mailbox = None, no_dsn = nodsn\<rparr>, s'\<lparr>state := Greeted\<rparr>))
      | _ \<Rightarrow> (Continue bad_sequence, reset s))"

section \<open>Dispatch\<close>

fun apply_command :: "crates \<Rightarrow> Env \<Rightarrow> Session \<Rightarrow> Command \<Rightarrow> Action \<times> Session" where
  "apply_command K env s (Helo dm) = greet s dm False"
| "apply_command K env s (Ehlo dm) = greet s dm True"
| "apply_command K env s (MailFrom rp n _ rtls _ _) = mail_from K env s rp n rtls"
| "apply_command K env s (RcptTo fp notify _) = rcpt_to K s fp notify"
| "apply_command K env s Data = (data_cmd s, s)"
| "apply_command K env s (Bdat n is_last) = bdat s n is_last"
| "apply_command K env s Rset = (Continue reply_ok250, reset s)"
| "apply_command K env s Noop = (Continue reply_ok250, s)"
| "apply_command K env s Quit = (Close reply_closing, s)"
| "apply_command K env s Vrfy = (Continue vrfy_not_disclosed, s)"
| "apply_command K env s StartTls = (start_tls s, s)"
| "apply_command K env s (Auth mechanism initial) = auth K env s mechanism initial"

definition command_line :: "crates \<Rightarrow> Env \<Rightarrow> Session \<Rightarrow> str \<Rightarrow> Action \<times> Session" where
  "command_line K env s line =
     (case parse_command line of
        Inr command \<Rightarrow> apply_command K env s command
      | Inl UnknownCommand \<Rightarrow> (Continue syntax_error, s)
      | Inl LineTooLong \<Rightarrow> (Continue (single 500 ''5.5.2 line too long''), s)
      | Inl InvalidCharacters \<Rightarrow> (Continue syntax_error, s)
      | Inl InvalidArguments \<Rightarrow> (Continue invalid_arguments, s)
      | Inl UnsupportedParameter \<Rightarrow> (Continue (single 555 ''5.5.4 parameter not implemented''), s))"

end
