(* ===== verification/Smtp_Delivery.thy ===== *)
theory Smtp_Delivery
  imports Mail_Trace Greylist Dmarc Smtp_Session
begin

text \<open>
  What the connection loop does with a message the session has accepted: the \<^verbatim>\<open>Action::Deliver\<close> arm of
  \<^verbatim>\<open>smtp/server/run.rs\<close>, with the server configuration of \<^verbatim>\<open>smtp/server/mod.rs\<close> and the decisions of
  \<^verbatim>\<open>antispam/reputation.rs\<close> and \<^verbatim>\<open>antispam/llm.rs\<close> it uses.

  The loop guard, blocklist, greylist, SPF, DKIM and DMARC are the modelled components. What they read
  from outside is in the record \<open>Outside\<close>; the reputation database, the corpus, the scanner, the
  language model and the ARC sealer are functions in the server record. Log lines are left out, the
  other side effects are the list of \<open>Effect\<close>s, in order. A result \<open>None\<close> is a panic.
\<close>

section \<open>Reputation and scanners\<close>

record ReputationScore =
  ham :: int
  spam :: int

datatype Verdict = Unknown | Trusted | Suspect

definition MIN_OBSERVATIONS :: int where "MIN_OBSERVATIONS = 3"

definition verdict :: "ReputationScore \<Rightarrow> Verdict" where
  "verdict r =
     (if ham r + spam r < MIN_OBSERVATIONS then Unknown
      else if spam r > ham r then Suspect else Trusted)"

datatype Screen = ScreenAllow | ScreenReject | ScreenFirstTime

text \<open>The lookup gives \<open>Inl\<close> for a database error.\<close>

definition screen :: "(str \<Rightarrow> unit + ReputationScore option) \<Rightarrow> str \<Rightarrow> Screen" where
  "screen lookup v =
     (case lookup v of
        Inr (Some score) \<Rightarrow>
          (case verdict score of
             Suspect \<Rightarrow> ScreenReject
           | Trusted \<Rightarrow> ScreenAllow
           | Unknown \<Rightarrow> ScreenFirstTime)
      | Inr None \<Rightarrow> ScreenFirstTime
      | Inl _ \<Rightarrow> ScreenAllow)"

datatype HookVerdict = HookAccept | HookReject | HookQuarantine

datatype ConsultOutcome = ConsultVerdict HookVerdict | ConsultFailed

text \<open>Scores are only compared here: a finite \<^verbatim>\<open>f64\<close> is represented by its place in the order of the
  \<^verbatim>\<open>f64\<close> values.\<close>

type_synonym f64 = int

record LlmHook =
  classifier :: "bytes \<Rightarrow> ConsultOutcome"
  low :: f64
  high :: f64

definition is_uncertain :: "LlmHook \<Rightarrow> f64 \<Rightarrow> bool" where
  "is_uncertain h score \<longleftrightarrow> score \<ge> low h \<and> score \<le> high h"

section \<open>The server\<close>

datatype TlsMode = Opportunistic | Implicit

text \<open>Of the TLS acceptor only whether it is configured matters here. The greylist carries its store,
  which the connections share.\<close>

record Server =
  srv_hostname :: str
  srv_tls :: bool
  srv_tls_mode :: TlsMode
  srv_directory :: Directory
  srv_spf :: "dns option"
  srv_dnsbl :: Dnsbl
  srv_reputation :: "(str \<Rightarrow> unit + ReputationScore option) option"
  srv_bayes :: "(str \<Rightarrow> f64 option) option"
  srv_hook :: "(bytes \<Rightarrow> HookVerdict) option"
  srv_llm :: "LlmHook option"
  srv_first_time_delay :: nat
  srv_report_dir :: "str option"
  srv_arc_sealer :: "(bytes \<Rightarrow> str \<Rightarrow> str option) option"
  srv_greylist :: "(MemoryGreylist \<times> nat) option"
  srv_oauth :: "(str \<Rightarrow> nat \<Rightarrow> str option) option"
  srv_cbind_data :: "bytes option"
  srv_send_limiter :: "SendLimiter option"
  srv_global_limit :: "nat option"
  srv_tenant_limits :: bool
  srv_disk_guard :: "DiskGuard option"
  srv_max_connections :: nat
  srv_auth_protocol :: Protocol

definition MAX_CONNECTIONS :: nat where "MAX_CONNECTIONS = 1000"

definition new_server :: "str \<Rightarrow> Server" where
  "new_server host =
     \<lparr>srv_hostname = host, srv_tls = False, srv_tls_mode = Opportunistic, srv_directory = default_directory,
      srv_spf = None, srv_dnsbl = [], srv_reputation = None, srv_bayes = None, srv_hook = None, srv_llm = None,
      srv_first_time_delay = 0, srv_report_dir = None, srv_arc_sealer = None, srv_greylist = None,
      srv_oauth = None, srv_cbind_data = None, srv_send_limiter = None, srv_global_limit = None,
      srv_tenant_limits = False, srv_disk_guard = None, srv_max_connections = MAX_CONNECTIONS,
      srv_auth_protocol = Submission\<rparr>"

definition server_with_max_connections :: "nat \<Rightarrow> Server \<Rightarrow> Server" where
  "server_with_max_connections n srv = (if n > 0 then srv\<lparr>srv_max_connections := n\<rparr> else srv)"

definition server_with_auth_protocol :: "Protocol \<Rightarrow> Server \<Rightarrow> Server" where
  "server_with_auth_protocol p srv = srv\<lparr>srv_auth_protocol := p\<rparr>"

definition server_with_send_limiter :: "SendLimiter \<Rightarrow> Server \<Rightarrow> Server" where
  "server_with_send_limiter l srv = srv\<lparr>srv_send_limiter := Some l\<rparr>"

definition server_with_global_limit :: "nat option \<Rightarrow> Server \<Rightarrow> Server" where
  "server_with_global_limit l srv = srv\<lparr>srv_global_limit := l\<rparr>"

definition server_with_tenant_limits :: "Server \<Rightarrow> Server" where
  "server_with_tenant_limits srv = srv\<lparr>srv_tenant_limits := True\<rparr>"

definition server_with_disk_guard :: "DiskGuard \<Rightarrow> Server \<Rightarrow> Server" where
  "server_with_disk_guard g srv = srv\<lparr>srv_disk_guard := Some g\<rparr>"

definition server_with_channel_binding :: "bytes \<Rightarrow> Server \<Rightarrow> Server" where
  "server_with_channel_binding h srv = srv\<lparr>srv_cbind_data := Some h\<rparr>"

definition server_with_oauth :: "(str \<Rightarrow> nat \<Rightarrow> str option) \<Rightarrow> Server \<Rightarrow> Server" where
  "server_with_oauth v srv = srv\<lparr>srv_oauth := Some v\<rparr>"

definition server_with_arc_sealer :: "(bytes \<Rightarrow> str \<Rightarrow> str option) \<Rightarrow> Server \<Rightarrow> Server" where
  "server_with_arc_sealer sealer srv = srv\<lparr>srv_arc_sealer := Some sealer\<rparr>"

definition server_with_hook :: "(bytes \<Rightarrow> HookVerdict) \<Rightarrow> Server \<Rightarrow> Server" where
  "server_with_hook h srv = srv\<lparr>srv_hook := Some h\<rparr>"

definition server_with_llm :: "LlmHook \<Rightarrow> Server \<Rightarrow> Server" where
  "server_with_llm l srv = srv\<lparr>srv_llm := Some l\<rparr>"

definition server_with_reputation_pool :: "(str \<Rightarrow> unit + ReputationScore option) \<Rightarrow> Server \<Rightarrow> Server" where
  "server_with_reputation_pool pool srv = srv\<lparr>srv_reputation := Some pool\<rparr>"

definition server_with_bayes :: "(str \<Rightarrow> f64 option) \<Rightarrow> Server \<Rightarrow> Server" where
  "server_with_bayes store srv = srv\<lparr>srv_bayes := Some store\<rparr>"

definition server_with_first_time_delay :: "nat \<Rightarrow> Server \<Rightarrow> Server" where
  "server_with_first_time_delay secs srv = srv\<lparr>srv_first_time_delay := secs\<rparr>"

definition server_with_dnsbl :: "Dnsbl \<Rightarrow> Server \<Rightarrow> Server" where
  "server_with_dnsbl zones srv = srv\<lparr>srv_dnsbl := zones\<rparr>"

definition server_with_report_dir :: "str \<Rightarrow> Server \<Rightarrow> Server" where
  "server_with_report_dir dir srv = srv\<lparr>srv_report_dir := Some dir\<rparr>"

definition server_with_tls :: "TlsMode \<Rightarrow> Server \<Rightarrow> Server" where
  "server_with_tls m srv = srv\<lparr>srv_tls := True, srv_tls_mode := m\<rparr>"

definition server_with_greylist :: "MemoryGreylist \<Rightarrow> nat \<Rightarrow> Server \<Rightarrow> Server" where
  "server_with_greylist g delay srv = srv\<lparr>srv_greylist := Some (g, delay)\<rparr>"

definition server_with_spf :: "dns \<Rightarrow> Server \<Rightarrow> Server" where
  "server_with_spf D srv = srv\<lparr>srv_spf := Some D\<rparr>"

definition server_with_directory :: "Directory \<Rightarrow> Server \<Rightarrow> Server" where
  "server_with_directory d srv = srv\<lparr>srv_directory := d\<rparr>"

definition server_session :: "Server \<Rightarrow> Session" where
  "server_session srv =
     (let s = with_auth_protocol (srv_auth_protocol srv) (with_directory (srv_directory srv) (new_session (srv_hostname srv)));
          s = (case srv_oauth srv of Some v \<Rightarrow> with_oauth v s | None \<Rightarrow> s);
          s = (case srv_cbind_data srv of Some h \<Rightarrow> with_session_binding h s | None \<Rightarrow> s);
          s = (case srv_send_limiter srv of Some l \<Rightarrow> with_send_limiter l s | None \<Rightarrow> s);
          s = with_global_submission_rate_limit (srv_global_limit srv) s
      in case srv_disk_guard srv of Some g \<Rightarrow> with_disk_guard g s | None \<Rightarrow> s)"

section \<open>Effects\<close>

datatype RejectReason = RDnsbl | RSpf | RDmarc | RReputation | RScanner | RLoop

record DeliveryRecord =
  rec_timestamp :: nat
  rec_source_ip :: str
  rec_envelope_from :: str
  rec_header_from :: str
  rec_spf :: str
  rec_dkim :: str
  rec_dkim_domain :: str
  rec_dmarc :: str
  rec_disposition :: str
  rec_policy_domain :: str
  rec_published_policy :: str
  rec_pct :: nat

datatype Effect =
    Rejected RejectReason
  | Quarantined
  | LlmConsulted
  | LlmQuarantined
  | LlmFailed
  | Accepted
  | Train bytes bool
  | RecordDelivery DeliveryRecord
  | Sleep nat
  | RecordReputation str bool
  | Stored AcceptedMessage bool

text \<open>\<open>Stored m ok\<close> is the call \<^verbatim>\<open>sink.deliver(m)\<close> and whether it succeeded.\<close>

record Outside =
  out_greylist_now :: nat
  out_dkim_now :: nat
  out_report_now :: nat
  out_received_now :: int
  out_pct :: char
  out_sink :: "AcceptedMessage \<Rightarrow> bool"

definition train_corpus :: "Server \<Rightarrow> bytes \<Rightarrow> bool \<Rightarrow> Effect list" where
  "train_corpus srv data is_spam =
     (case srv_bayes srv of Some _ \<Rightarrow> [Train (from_utf8_lossy data) is_spam] | None \<Rightarrow> [])"

section \<open>The delivery path\<close>

text \<open>A stage either answers the client, ending the delivery, or lets the message go on.\<close>

definition unauthenticated_peer :: "Session \<Rightarrow> IpAddr option \<Rightarrow> IpAddr option" where
  "unauthenticated_peer s peer = (if authenticated s = None then peer else None)"

definition dnsbl_stage :: "Server \<Rightarrow> Session \<Rightarrow> IpAddr option \<Rightarrow> AcceptedMessage \<Rightarrow> (Effect list \<times> Reply) option" where
  "dnsbl_stage srv s peer m =
     (case (srv_spf srv, unauthenticated_peer s peer) of
        (Some D, Some ip) \<Rightarrow>
          if \<not> dnsbl_is_empty (srv_dnsbl srv) then
            (case dnsbl_check (srv_dnsbl srv) ip D of
               Listed zone \<Rightarrow>
                 Some (Rejected RDnsbl # train_corpus srv (msg_data m) True,
                       single 554 ''5.7.1 client host blocked by DNS blocklist'')
             | _ \<Rightarrow> None)
          else None
      | _ \<Rightarrow> None)"

definition greylist_stage ::
  "Server \<Rightarrow> Session \<Rightarrow> IpAddr option \<Rightarrow> Outside \<Rightarrow> AcceptedMessage \<Rightarrow> Reply option \<times> Server" where
  "greylist_stage srv s peer w m =
     (case (srv_greylist srv, unauthenticated_peer s peer, recipients m) of
        (Some (store, delay), Some ip, r # _) \<Rightarrow>
          (let t = \<lparr>client_ip = ip, sender = reverse_path m, recipient = r\<rparr>;
               (d, store') = decide first_seen_at record_seen store t (out_greylist_now w) delay;
               srv' = srv\<lparr>srv_greylist := Some (store', delay)\<rparr>
           in (if d = Defer then Some (single 451 ''4.7.1 greylisted, please retry shortly'') else None, srv'))
      | _ \<Rightarrow> (None, srv))"

definition spf_outcome :: "dns \<Rightarrow> Session \<Rightarrow> IpAddr \<Rightarrow> AcceptedMessage \<Rightarrow> str option \<times> SpfOutcome" where
  "spf_outcome D s ip m =
     (let dm = spf_domain (reverse_path m) (helo_domain s) in
      (dm,
       case dm of
         Some d \<Rightarrow> check_host D ip d (reverse_path m) (case helo_domain s of Some h \<Rightarrow> h | None \<Rightarrow> [])
       | None \<Rightarrow> SpfNone))"

definition delivery_record ::
  "nat \<Rightarrow> IpAddr \<Rightarrow> str option \<Rightarrow> str \<Rightarrow> SpfOutcome \<Rightarrow> DkimResult list \<Rightarrow> DmarcOutcome \<Rightarrow> DeliveryRecord" where
  "delivery_record ts ip dm from_dom outcome dkims dmarc =
     \<lparr>rec_timestamp = ts, rec_source_ip = show_ip ip,
      rec_envelope_from = (case dm of Some d \<Rightarrow> d | None \<Rightarrow> []), rec_header_from = from_dom,
      rec_spf = spf_as_str outcome,
      rec_dkim = (case dkims of r # _ \<Rightarrow> dkim_as_str (dk_outcome r) | [] \<Rightarrow> ''none''),
      rec_dkim_domain = (case dkims of r # _ \<Rightarrow> (case dk_domain r of Some d \<Rightarrow> d | None \<Rightarrow> []) | [] \<Rightarrow> []),
      rec_dmarc = dmarc_as_str dmarc, rec_disposition = (if dmarc = DmarcReject then ''reject'' else ''none''),
      rec_policy_domain = from_dom, rec_published_policy = [], rec_pct = 100\<rparr>"

definition auth_methods :: "str option \<Rightarrow> SpfOutcome \<Rightarrow> DkimResult list \<Rightarrow> str option \<Rightarrow> DmarcOutcome \<Rightarrow> str list" where
  "auth_methods dm outcome dkims from_dom dmarc =
     [''spf='' @ spf_as_str outcome @ (case dm of Some d \<Rightarrow> '' smtp.mailfrom='' @ d | None \<Rightarrow> [])]
     @ (if dkims = [] then [''dkim=none'']
        else map (\<lambda>r. ''dkim='' @ dkim_as_str (dk_outcome r)
                       @ (case dk_domain r of Some d \<Rightarrow> '' header.d='' @ d | None \<Rightarrow> [])) dkims)
     @ [''dmarc='' @ dmarc_as_str dmarc @ (case from_dom of Some f \<Rightarrow> '' header.from='' @ f | None \<Rightarrow> [])]"

text \<open>SPF, DKIM, DMARC and ARC: \<open>Inl\<close> is the refusing reply, \<open>Inr\<close> the trace headers they add.\<close>

definition auth_stage ::
  "crates \<Rightarrow> verifier \<Rightarrow> suffix_list \<Rightarrow> Server \<Rightarrow> Session \<Rightarrow> IpAddr option \<Rightarrow> Outside \<Rightarrow> AcceptedMessage
   \<Rightarrow> Effect list \<times> (Reply + str)" where
  "auth_stage K vf psl srv s peer w m =
     (case (srv_spf srv, unauthenticated_peer s peer) of
        (Some D, Some ip) \<Rightarrow>
          (let (dm, outcome) = spf_outcome D s ip m in
           if outcome = Fail then ([Rejected RSpf], Inl (single 550 ''5.7.23 SPF validation failed''))
           else if outcome = TempError then ([], Inl (single 451 ''4.4.3 SPF check temporarily failed''))
           else
             let dkims = verify_message K vf D (out_dkim_now w) (msg_data m);
                 from_dom = from_domain (msg_data m);
                 dmarc = (case from_dom of
                            Some f \<Rightarrow> evaluate_dmarc psl D (out_pct w) f (outcome, dm) dkims
                          | None \<Rightarrow> DmarcPermError);
                 report = (case (srv_report_dir srv, from_dom) of
                             (Some _, Some f) \<Rightarrow> [RecordDelivery (delivery_record (out_report_now w) ip dm f outcome dkims dmarc)]
                           | _ \<Rightarrow> [])
             in if dmarc = DmarcReject then
                  (report @ Rejected RDmarc # train_corpus srv (msg_data m) True,
                   Inl (single 550 ''5.7.1 rejected by DMARC policy''))
                else if dmarc = DmarcTempError then
                  (report, Inl (single 451 ''4.4.3 DMARC check temporarily failed''))
                else
                  let methods = auth_methods dm outcome dkims from_dom dmarc;
                      arc = (case srv_arc_sealer srv of
                               Some seal \<Rightarrow> (case seal (msg_data m) (join ''; '' methods) of Some h \<Rightarrow> h | None \<Rightarrow> [])
                             | None \<Rightarrow> [])
                  in (report,
                      Inr (''Received-SPF: '' @ spf_as_str outcome @ '' (domain of ''
                           @ (case dm of Some d \<Rightarrow> d | None \<Rightarrow> ''unknown'') @ '') client-ip='' @ show_ip ip @ crlf
                           @ format_auth_results (srv_hostname srv) methods @ arc)))
      | _ \<Rightarrow> ([], Inr []))"

definition stamp :: "Server \<Rightarrow> Session \<Rightarrow> IpAddr option \<Rightarrow> Outside \<Rightarrow> str \<Rightarrow> AcceptedMessage \<Rightarrow> AcceptedMessage" where
  "stamp srv s peer w auth_headers m =
     m\<lparr>msg_data := received_header (helo_domain s) peer (srv_hostname srv) (esmtp s) (tls_active s)
                     (authenticated s \<noteq> None) (out_received_now w) @ auth_headers @ msg_data m\<rparr>"

definition rep_domain :: "AcceptedMessage \<Rightarrow> str option" where
  "rep_domain m = map_option (\<lambda>(_, d). to_ascii_lowercase d) (rsplit_once (CHR ''@'') (reverse_path m))"

definition to_rejects :: "AcceptedMessage \<Rightarrow> AcceptedMessage" where
  "to_rejects m = m\<lparr>mailbox := Some ''Rejects''\<rparr>"

definition reputation_stage :: "Server \<Rightarrow> Session \<Rightarrow> AcceptedMessage \<Rightarrow> Effect list \<times> AcceptedMessage" where
  "reputation_stage srv s m =
     (case (srv_reputation srv, rep_domain m, authenticated s) of
        (Some pool, Some d, None) \<Rightarrow>
          (case screen pool d of
             ScreenReject \<Rightarrow> (train_corpus srv (msg_data m) True @ [Quarantined], to_rejects m)
           | ScreenFirstTime \<Rightarrow> (if srv_first_time_delay srv \<noteq> 0 then [Sleep (srv_first_time_delay srv)] else [], m)
           | ScreenAllow \<Rightarrow> ([], m))
      | _ \<Rightarrow> ([], m))"

definition hook_stage :: "Server \<Rightarrow> Session \<Rightarrow> AcceptedMessage \<Rightarrow> Effect list \<times> (Reply + AcceptedMessage)" where
  "hook_stage srv s m =
     (case (srv_hook srv, authenticated s) of
        (Some hook, None) \<Rightarrow>
          (case hook (msg_data m) of
             HookReject \<Rightarrow> (Rejected RScanner # train_corpus srv (msg_data m) True, Inl (single 550 ''5.7.1 rejected by scanner''))
           | HookQuarantine \<Rightarrow> (Quarantined # train_corpus srv (msg_data m) True, Inr (to_rejects m))
           | HookAccept \<Rightarrow> ([], Inr m))
      | _ \<Rightarrow> ([], Inr m))"

definition llm_stage :: "Server \<Rightarrow> Session \<Rightarrow> AcceptedMessage \<Rightarrow> Effect list \<times> AcceptedMessage" where
  "llm_stage srv s m =
     (case (srv_llm srv, srv_bayes srv, authenticated s) of
        (Some llm, Some score, None) \<Rightarrow>
          (case score (from_utf8_lossy (msg_data m)) of
             Some x \<Rightarrow>
               if is_uncertain llm x then
                 (case classifier llm (msg_data m) of
                    ConsultVerdict HookQuarantine \<Rightarrow>
                      ([LlmConsulted, LlmQuarantined] @ train_corpus srv (msg_data m) True, to_rejects m)
                  | ConsultVerdict _ \<Rightarrow> ([LlmConsulted], m)
                  | ConsultFailed \<Rightarrow> ([LlmConsulted, LlmFailed], m))
               else ([], m)
           | None \<Rightarrow> ([LlmFailed], m))
      | _ \<Rightarrow> ([], m))"

definition sink_stage :: "Server \<Rightarrow> Session \<Rightarrow> Outside \<Rightarrow> str option \<Rightarrow> Reply \<Rightarrow> AcceptedMessage \<Rightarrow> Effect list \<times> Reply" where
  "sink_stage srv s w dm reply m =
     (let ham = (if authenticated s = None \<and> mailbox m = None then train_corpus srv (msg_data m) False else []) in
      if out_sink w m then
        (ham @ [Stored m True, Accepted]
         @ (case (srv_reputation srv, dm, authenticated s) of
              (Some _, Some d, None) \<Rightarrow> [RecordReputation d False] | _ \<Rightarrow> []), reply)
      else (ham @ [Stored m False], single 451 ''4.3.0 temporary storage failure, try again''))"

text \<open>The whole arm: effects, the reply sent to the client, and the server with its greylist store.\<close>

definition deliver_action ::
  "crates \<Rightarrow> verifier \<Rightarrow> suffix_list \<Rightarrow> Server \<Rightarrow> Session \<Rightarrow> IpAddr option \<Rightarrow> Outside \<Rightarrow> Reply \<Rightarrow> AcceptedMessage
   \<Rightarrow> (Effect list \<times> Reply \<times> Server) option" where
  "deliver_action K vf psl srv s peer w reply m =
     (case received_hop_count (msg_data m) of
        None \<Rightarrow> None
      | Some hops \<Rightarrow> Some (
          if hops \<ge> RECEIVED_HOP_LIMIT then
            ([Rejected RLoop], single 554 ''5.4.6 too many hops, this message is looping'', srv)
          else (case dnsbl_stage srv s peer m of
            Some (es, r) \<Rightarrow> (es, r, srv)
          | None \<Rightarrow>
              (let (deferred, srv') = greylist_stage srv s peer w m in
               case deferred of
                 Some r \<Rightarrow> ([], r, srv')
               | None \<Rightarrow>
                   (case auth_stage K vf psl srv' s peer w m of
                      (es, Inl r) \<Rightarrow> (es, r, srv')
                    | (es, Inr auth_headers) \<Rightarrow>
                        (let m1 = stamp srv' s peer w auth_headers m;
                             (es2, m2) = reputation_stage srv' s m1 in
                         case hook_stage srv' s m2 of
                           (es3, Inl r) \<Rightarrow> (es @ es2 @ es3, r, srv')
                         | (es3, Inr m3) \<Rightarrow>
                             (let (es4, m4) = llm_stage srv' s m3;
                                  (es5, r) = sink_stage srv' s w (rep_domain m) reply m4
                              in (es @ es2 @ es3 @ es4 @ es5, r, srv'))))))))"

section \<open>What a delivery does\<close>

lemma train_corpus_effects: "e \<in> set (train_corpus srv d b) \<Longrightarrow> \<exists>t. e = Train t b"
  by (auto simp: train_corpus_def split: option.splits)

definition is_stored :: "Effect \<Rightarrow> bool" where
  "is_stored e \<longleftrightarrow> (\<exists>m ok. e = Stored m ok)"

lemma not_stored [simp]:
  "\<not> is_stored (Rejected x)" "\<not> is_stored Quarantined" "\<not> is_stored LlmConsulted" "\<not> is_stored LlmQuarantined"
  "\<not> is_stored LlmFailed" "\<not> is_stored Accepted" "\<not> is_stored (Train d b)" "\<not> is_stored (RecordDelivery r)"
  "\<not> is_stored (Sleep n)" "\<not> is_stored (RecordReputation d b)" "is_stored (Stored m ok)"
  by (simp_all add: is_stored_def)

lemma filter_train [simp]: "filter is_stored (train_corpus srv d b) = []"
  by (simp add: train_corpus_def split: option.split)

lemma stages_store_nothing:
  "dnsbl_stage srv s peer m = Some (es, r) \<Longrightarrow> filter is_stored es = [] \<and> 400 \<le> reply_code r"
  "auth_stage K vf psl srv s peer w m = (es, Inl r) \<Longrightarrow> filter is_stored es = [] \<and> 400 \<le> reply_code r"
  "auth_stage K vf psl srv s peer w m = (es, Inr h) \<Longrightarrow> filter is_stored es = []"
  "reputation_stage srv s m = (es, m2) \<Longrightarrow> filter is_stored es = []"
  "hook_stage srv s m = (es, Inl r) \<Longrightarrow> filter is_stored es = [] \<and> 400 \<le> reply_code r"
  "hook_stage srv s m = (es, Inr m2) \<Longrightarrow> filter is_stored es = []"
  "llm_stage srv s m = (es, m2) \<Longrightarrow> filter is_stored es = []"
  "greylist_stage srv s peer w m = (Some r, srv') \<Longrightarrow> 400 \<le> reply_code r"
  subgoal by (auto simp: dnsbl_stage_def single_def multi_def split: option.splits if_splits DnsblOutcome.splits)
  subgoal by (auto simp: auth_stage_def single_def multi_def Let_def split: option.splits if_splits prod.splits)
  subgoal by (auto simp: auth_stage_def Let_def split: option.splits if_splits prod.splits)
  subgoal by (auto simp: reputation_stage_def split: option.splits if_splits Screen.splits)
  subgoal by (auto simp: hook_stage_def single_def multi_def split: option.splits HookVerdict.splits)
  subgoal by (auto simp: hook_stage_def split: option.splits HookVerdict.splits)
  subgoal by (auto simp: llm_stage_def split: option.splits if_splits HookVerdict.splits ConsultOutcome.splits)
  subgoal by (auto simp: greylist_stage_def single_def multi_def Let_def split: option.splits list.splits prod.splits if_splits)
  done

lemma sink_stage_stored:
  "sink_stage srv s w dm reply m = (es, r) \<Longrightarrow>
     filter is_stored es = [Stored m (out_sink w m)] \<and> (if out_sink w m then r = reply else 400 \<le> reply_code r)"
  by (auto simp: sink_stage_def Let_def single_def multi_def split: if_splits option.splits)

text \<open>The envelope a stage may not change.\<close>

definition same_mail :: "AcceptedMessage \<Rightarrow> AcceptedMessage \<Rightarrow> bool" where
  "same_mail m m' \<longleftrightarrow> m' = m\<lparr>mailbox := mailbox m'\<rparr>"

lemma stages_same_mail:
  "reputation_stage srv s m = (es, m2) \<Longrightarrow> same_mail m m2"
  "hook_stage srv s m = (es, Inr m2) \<Longrightarrow> same_mail m m2"
  "llm_stage srv s m = (es, m2) \<Longrightarrow> same_mail m m2"
  subgoal by (auto simp: reputation_stage_def same_mail_def to_rejects_def split: option.splits if_splits Screen.splits)
  subgoal by (auto simp: hook_stage_def same_mail_def to_rejects_def split: option.splits HookVerdict.splits)
  subgoal by (auto simp: llm_stage_def same_mail_def to_rejects_def split: option.splits if_splits HookVerdict.splits ConsultOutcome.splits)
  done

lemma same_mail_trans: "same_mail a b \<Longrightarrow> same_mail b c \<Longrightarrow> same_mail a c"
  by (metis AcceptedMessage.surjective AcceptedMessage.update_convs(5) same_mail_def)

text \<open>A delivery either refuses, without touching the sink and with an error reply, or passes every
  check and hands the stamped message to the sink once.\<close>

lemma deliver_action_cases:
  assumes "deliver_action K vf psl srv s peer w reply m = Some (es, r, srv')"
  obtains (refused) "filter is_stored es = []" "400 \<le> reply_code r"
  | (passed) es1 h m4 where "auth_stage K vf psl srv' s peer w m = (es1, Inr h)" "srv_spf srv' = srv_spf srv"
      "same_mail (stamp srv' s peer w h m) m4"
      "filter is_stored es = [Stored m4 (out_sink w m4)]" "if out_sink w m4 then r = reply else 400 \<le> reply_code r"
proof -
  obtain hops where hops: "received_hop_count (msg_data m) = Some hops"
    using assms by (auto simp: deliver_action_def split: option.splits)
  obtain d srv1 where gl: "greylist_stage srv s peer w m = (d, srv1)"
    by (rule prod.exhaust)
  have spf: "srv_spf srv1 = srv_spf srv"
    using gl by (auto simp: greylist_stage_def Let_def split: option.splits list.splits prod.splits)
  note def = assms [unfolded deliver_action_def hops option.case]
  consider (hop) "hops \<ge> RECEIVED_HOP_LIMIT" | (dnsbl) es0 r0 where "\<not> hops \<ge> RECEIVED_HOP_LIMIT" "dnsbl_stage srv s peer m = Some (es0, r0)"
    | (grey) r0 where "\<not> hops \<ge> RECEIVED_HOP_LIMIT" "dnsbl_stage srv s peer m = None" "d = Some r0"
    | (auth) "\<not> hops \<ge> RECEIVED_HOP_LIMIT" "dnsbl_stage srv s peer m = None" "d = None"
    by (cases d; cases "dnsbl_stage srv s peer m") auto
  then show ?thesis
  proof cases
    case hop
    then show ?thesis
      using def by (intro refused) (auto simp: single_def multi_def)
  next
    case dnsbl
    then show ?thesis
      using def stages_store_nothing(1) [of srv s peer m] by (intro refused) auto
  next
    case grey
    then show ?thesis
      using def gl stages_store_nothing(8) [of srv s peer w m] by (intro refused) auto
  next
    case auth
    obtain es1 a where au: "auth_stage K vf psl srv1 s peer w m = (es1, a)"
      by (rule prod.exhaust)
    show ?thesis
    proof (cases a)
      case (Inl r0)
      then show ?thesis
        using def gl auth au stages_store_nothing(2) [of K vf psl srv1 s peer w m] by (intro refused) auto
    next
      case (Inr h)
      let ?m1 = "stamp srv1 s peer w h m"
      obtain es2 m2 where rep: "reputation_stage srv1 s ?m1 = (es2, m2)"
        by (rule prod.exhaust)
      obtain es3 b where hk: "hook_stage srv1 s m2 = (es3, b)"
        by (rule prod.exhaust)
      have none: "filter is_stored es1 = []" "filter is_stored es2 = []"
        using stages_store_nothing(3) [OF au [unfolded Inr]] stages_store_nothing(4) [OF rep] by auto
      show ?thesis
      proof (cases b)
        case (Inl r0)
        then show ?thesis
          using def gl auth au Inr rep hk none stages_store_nothing(5) [of srv1 s m2] by (intro refused) auto
      next
        case b: (Inr m3)
        obtain es4 m4 where llm: "llm_stage srv1 s m3 = (es4, m4)"
          by (rule prod.exhaust)
        obtain es5 r5 where sink: "sink_stage srv1 s w (rep_domain m) reply m4 = (es5, r5)"
          by (rule prod.exhaust)
        have res: "es = es1 @ es2 @ es3 @ es4 @ es5" "r = r5" "srv' = srv1"
          using def gl auth au Inr rep hk b llm sink by auto
        have "same_mail ?m1 m4"
          using stages_same_mail(1) [OF rep] stages_same_mail(2) [OF hk [unfolded b]] stages_same_mail(3) [OF llm]
            same_mail_trans by blast
        then show ?thesis
          using au Inr spf res none stages_store_nothing(6) [OF hk [unfolded b]] stages_store_nothing(7) [OF llm]
            sink_stage_stored [OF sink]
          by (intro passed [of es1 h m4]) simp_all
      qed
    qed
  qed
qed

text \<open>C2. No message is stored that spoofs a protected domain: when a server with SPF checks stores mail of an
  unauthenticated client, and the domain of its only From header publishes an enforced DMARC policy
  for all mail, then a domain aligned with it vouches for the message by a DKIM signature, or the
  envelope sender's domain is aligned with it and authorises the client's address by SPF.\<close>

theorem delivered_not_spoofed:
  assumes "deliver_action K vf psl srv s peer w reply m = Some (es, r, srv')" "Stored m' ok \<in> set es"
    and "srv_spf srv = Some D" "peer = Some ip" "authenticated s = None"
    and "from_domain (msg_data m) = Some f" "fetch_dmarc psl D f = Inr (Some (rec, p))" "p \<noteq> PolicyNone" "dm_pct rec = 100"
  shows "(\<exists>d. aligned psl (dkim_alignment rec) d f \<and> endorsed K vf D (out_dkim_now w) (msg_data m) d) \<or>
         (\<exists>d. aligned psl (spf_alignment rec) d f \<and> spf_domain (reverse_path m) (helo_domain s) = Some d \<and>
            authorizes D ip (reverse_path m) (case helo_domain s of Some h \<Rightarrow> h | None \<Rightarrow> []) d)"
  using assms(1)
proof (cases rule: deliver_action_cases)
  case refused
  then show ?thesis
    using assms(2) by (auto simp: filter_empty_conv)
next
  case (passed es1 h m4)
  let ?dkims = "verify_message K vf D (out_dkim_now w) (msg_data m)"
  obtain dm outcome where so: "spf_outcome D s ip m = (dm, outcome)"
    by (rule prod.exhaust)
  have "evaluate_dmarc psl D (out_pct w) f (outcome, dm) ?dkims \<noteq> DmarcReject"
    using passed(1, 2) assms(3-6) so by (auto simp: auth_stage_def unauthenticated_peer_def Let_def split: if_splits)
  then consider "dkim_aligned psl rec f ?dkims" | "spf_aligned psl rec f (outcome, dm)"
    using assms(7-9) by (auto simp: evaluate_dmarc_def evaluate_inner_def split: Policy.splits if_splits)
  then show ?thesis
  proof cases
    case 1
    then obtain x d where "x \<in> set ?dkims" "dk_outcome x = DkimPass" "dk_domain x = Some d" "aligned psl (dkim_alignment rec) d f"
      by (auto simp: dkim_aligned_def list_ex_iff split: option.splits)
    then show ?thesis
      using verify_message_Pass [of x K vf D "out_dkim_now w" "msg_data m"] by auto
  next
    case 2
    then obtain d where d: "outcome = Pass" "dm = Some d" "aligned psl (spf_alignment rec) d f"
      by (auto simp: spf_aligned_def split: option.splits)
    then have "spf_domain (reverse_path m) (helo_domain s) = Some d"
      "fst (check_host_inner MAX_DEPTH D ip (reverse_path m) (case helo_domain s of Some h \<Rightarrow> h | None \<Rightarrow> []) d (MAX_DNS_MECHANISMS, 0)) = Pass"
      using so by (auto simp: spf_outcome_def check_host_def Let_def split: option.splits)
    then show ?thesis
      using check_host_inner_Pass d(3) by (metis prod.collapse)
  qed
qed

definition stores :: "(Effect list \<times> Reply \<times> Server) option \<Rightarrow> bool" where
  "stores res = (case res of Some (es, _, _) \<Rightarrow> list_ex (\<lambda>e. case e of Stored _ ok \<Rightarrow> ok | _ \<Rightarrow> False) es | None \<Rightarrow> False)"

lemma storesE:
  assumes "stores res"
  obtains es r srv' m' where "res = Some (es, r, srv')" "Stored m' True \<in> set es"
proof -
  obtain es r srv' e where e: "res = Some (es, r, srv')" "e \<in> set es" "case e of Stored _ ok \<Rightarrow> ok | _ \<Rightarrow> False"
    using assms by (auto simp: stores_def list_ex_iff split: option.splits)
  then obtain m' where "e = Stored m' True"
    by (cases e) auto
  then show ?thesis
    using e that by blast
qed

definition sample_outside :: Outside where
  "sample_outside = \<lparr>out_greylist_now = 0, out_dkim_now = 0, out_report_now = 0, out_received_now = 0,
     out_pct = CHR 0x00, out_sink = (\<lambda>_. True)\<rparr>"

definition sample_policy_dns :: dns where
  "sample_policy_dns = \<lparr>
     dns_txt = (\<lambda>n. Some (if n = ''_dmarc.a'' then [''v=DMARC1; p=reject''] else if n = ''a'' then [''v=spf1 +all''] else [])),
     dns_addresses = (\<lambda>_. Some []), dns_mx = (\<lambda>_. Some [])\<rparr>"

definition sample_accepted :: AcceptedMessage where
  "sample_accepted = \<lparr>reverse_path = ''b@a'', recipients = [''c@d''], msg_data = ''From: b@a'' @ crlf @ crlf,
     require_tls = False, mailbox = None, no_dsn = []\<rparr>"

lemma sample_stores:
  "stores (deliver_action sample_crates sample_verifier (\<lambda>_. None) (server_with_spf sample_policy_dns (new_server ''mx''))
     (new_session ''mx'') (Some (V4 1)) sample_outside reply_ok250 sample_accepted)"
  by code_simp

theorem delivered_not_spoofed_witness:
  "(\<exists>d. aligned (\<lambda>_. None) AlignRelaxed d ''a'' \<and> endorsed sample_crates sample_verifier sample_policy_dns 0 (''From: b@a'' @ crlf @ crlf) d) \<or>
   (\<exists>d. aligned (\<lambda>_. None) AlignRelaxed d ''a'' \<and> spf_domain ''b@a'' None = Some d \<and> authorizes sample_policy_dns (V4 1) ''b@a'' [] d)"
proof -
  obtain es r srv' m' where run: "deliver_action sample_crates sample_verifier (\<lambda>_. None) (server_with_spf sample_policy_dns (new_server ''mx''))
      (new_session ''mx'') (Some (V4 1)) sample_outside reply_ok250 sample_accepted = Some (es, r, srv')" "Stored m' True \<in> set es"
    by (rule storesE [OF sample_stores])
  have "from_domain (msg_data sample_accepted) = Some ''a''"
    "fetch_dmarc (\<lambda>_. None) sample_policy_dns ''a'' = Inr (Some (\<lparr>dm_policy = PolicyReject, dm_subdomain_policy = PolicyReject,
       dkim_alignment = AlignRelaxed, spf_alignment = AlignRelaxed, dm_pct = 100, dm_rua = []\<rparr>, PolicyReject))"
    by code_simp+
  then show ?thesis
    using delivered_not_spoofed [OF run(1) run(2), of sample_policy_dns "V4 1" "''a''"
        "\<lparr>dm_policy = PolicyReject, dm_subdomain_policy = PolicyReject, dkim_alignment = AlignRelaxed,
          spf_alignment = AlignRelaxed, dm_pct = 100, dm_rua = []\<rparr>" PolicyReject]
    by (simp add: server_with_spf_def new_session_def sample_accepted_def sample_outside_def)
qed

lemma stored_member:
  "filter is_stored es = [Stored m4 b] \<Longrightarrow> Stored m' ok \<in> set es \<longleftrightarrow> m' = m4 \<and> ok = b"
proof -
  assume "filter is_stored es = [Stored m4 b]"
  moreover have "Stored m' ok \<in> set es \<longleftrightarrow> Stored m' ok \<in> set (filter is_stored es)"
    by simp
  ultimately show ?thesis
    by simp
qed

text \<open>What is offered to the sink is the accepted message with trace headers in front.\<close>

lemma stored_mail:
  assumes "deliver_action K vf psl srv s peer w reply m = Some (es, r, srv')" "Stored m' ok \<in> set es"
  shows "reverse_path m' = reverse_path m \<and> recipients m' = recipients m \<and> require_tls m' = require_tls m \<and>
         no_dsn m' = no_dsn m \<and> (\<exists>trace. msg_data m' = trace @ msg_data m)"
  using assms(1)
proof (cases rule: deliver_action_cases)
  case refused
  then show ?thesis
    using assms(2) by (auto simp: filter_empty_conv)
next
  case (passed es1 h m4)
  have "m' = m4"
    using stored_member [OF passed(4)] assms(2) by blast
  then have m': "m' = (stamp srv' s peer w h m)\<lparr>mailbox := mailbox m'\<rparr>"
    using passed(3) by (simp add: same_mail_def)
  show ?thesis
    by (subst (1 2 3 4 5) m') (simp add: stamp_def flip: append_assoc)
qed

text \<open>C4. A delivery never loses and never alters a message: the client gets a positive reply exactly when the
  sink stored the message, at most one message is offered to the sink, and what is offered has the
  envelope the session accepted and its content with trace headers put in front, whatever the
  scanners said.\<close>

theorem delivery_faithful:
  assumes "deliver_action K vf psl srv s peer w reply m = Some (es, r, srv')" "reply_code reply < 400"
  shows "(reply_code r < 400 \<longleftrightarrow> (\<exists>m'. Stored m' True \<in> set es)) \<and> length (filter is_stored es) \<le> 1 \<and>
         (\<forall>m' ok. Stored m' ok \<in> set es \<longrightarrow>
            reverse_path m' = reverse_path m \<and> recipients m' = recipients m \<and> require_tls m' = require_tls m \<and>
            no_dsn m' = no_dsn m \<and> (\<exists>trace. msg_data m' = trace @ msg_data m))"
proof -
  have "(reply_code r < 400 \<longleftrightarrow> (\<exists>m'. Stored m' True \<in> set es)) \<and> length (filter is_stored es) \<le> 1"
    using assms(1)
  proof (cases rule: deliver_action_cases)
    case refused
    then show ?thesis
      by (auto simp: filter_empty_conv)
  next
    case (passed es1 h m4)
    then show ?thesis
      using assms(2) stored_member [OF passed(4)] by (auto split: if_splits)
  qed
  then show ?thesis
    using stored_mail [OF assms(1)] by blast
qed

theorem delivery_faithful_witness:
  "\<exists>es r srv' m'. deliver_action sample_crates sample_verifier (\<lambda>_. None) (server_with_spf sample_policy_dns (new_server ''mx''))
     (new_session ''mx'') (Some (V4 1)) sample_outside reply_ok250 sample_accepted = Some (es, r, srv') \<and>
     Stored m' True \<in> set es \<and> reply_code r < 400 \<and> recipients m' = [''c@d''] \<and> (\<exists>trace. msg_data m' = trace @ ''From: b@a'' @ crlf @ crlf)"
proof -
  obtain es r srv' m' where run: "deliver_action sample_crates sample_verifier (\<lambda>_. None) (server_with_spf sample_policy_dns (new_server ''mx''))
      (new_session ''mx'') (Some (V4 1)) sample_outside reply_ok250 sample_accepted = Some (es, r, srv')" "Stored m' True \<in> set es"
    by (rule storesE [OF sample_stores])
  have "reply_code r < 400" "recipients m' = recipients sample_accepted" "\<exists>trace. msg_data m' = trace @ msg_data sample_accepted"
    using delivery_faithful [OF run(1)] run(2) by (auto simp: reply_defs)
  then show ?thesis
    using run by (auto simp: sample_accepted_def)
qed

end
