(* ===== verification/State_Machine.thy ===== *)
theory State_Machine
  imports Rust_Prelude
begin

text \<open>
  Deterministic input-driven machines: a step takes a state and an input and gives an output and
  the next state, or is not enabled. The locale holds what every component that is driven this way
  shares: runs, reachability and the induction principle for invariants.
\<close>

fun run_machine :: "('s \<Rightarrow> 'i \<Rightarrow> ('o \<times> 's) option) \<Rightarrow> 's \<Rightarrow> 'i list \<Rightarrow> ('o list \<times> 's) option" where
  "run_machine step s [] = Some ([], s)"
| "run_machine step s (i # is) =
     (case step s i of
        None \<Rightarrow> None
      | Some (x, s') \<Rightarrow> map_option (\<lambda>(xs, s''). (x # xs, s'')) (run_machine step s' is))"

lemma run_machine_append:
  "run_machine step s (is @ js) =
     Option.bind (run_machine step s is) (\<lambda>(xs, s').
       map_option (\<lambda>(ys, s''). (xs @ ys, s'')) (run_machine step s' js))"
proof (induction "is" arbitrary: s)
  case Nil
  show ?case by (simp add: map_option.identity case_prod_beta)
next
  case (Cons i "is")
  show ?case
  proof (cases "step s i")
    case (Some xs')
    then show ?thesis
      by (cases xs') (simp add: Cons.IH map_option_bind bind_map_option case_prod_beta o_def
          map_option.compositionality split: bind_splits)
  qed simp
qed

inductive reachable :: "('s \<Rightarrow> 'i \<Rightarrow> ('o \<times> 's) option) \<Rightarrow> 's \<Rightarrow> 's \<Rightarrow> bool" for step s0 where
  start: "reachable step s0 s0"
| advance: "reachable step s0 s \<Longrightarrow> step s i = Some (x, s') \<Longrightarrow> reachable step s0 s'"

lemma run_machine_reachable:
  "run_machine step s is = Some (xs, s') \<Longrightarrow> reachable step s0 s \<Longrightarrow> reachable step s0 s'"
proof (induction "is" arbitrary: s xs)
  case (Cons i "is")
  then show ?case
    by (auto split: option.splits intro: reachable.advance)
qed simp

lemma reachable_run_machine: "reachable step s0 s \<Longrightarrow> \<exists>is xs. run_machine step s0 is = Some (xs, s)"
proof (induction rule: reachable.induct)
  case start
  have "run_machine step s0 [] = Some ([], s0)" by simp
  then show ?case by blast
next
  case (advance s i x s')
  then obtain "is" xs where "run_machine step s0 is = Some (xs, s)" by blast
  then have "run_machine step s0 (is @ [i]) = Some (xs @ [x], s')"
    using advance by (simp add: run_machine_append)
  then show ?case by blast
qed

locale machine_invariant =
  fixes step :: "'s \<Rightarrow> 'i \<Rightarrow> ('o \<times> 's) option"
    and inv :: "'s \<Rightarrow> bool"
    and good :: "'s \<Rightarrow> 'o \<Rightarrow> bool"
  assumes preserved: "inv s \<Longrightarrow> step s i = Some (x, s') \<Longrightarrow> inv s'"
    and outputs: "inv s \<Longrightarrow> step s i = Some (x, s') \<Longrightarrow> good s x"
begin

lemma reachable_inv: "reachable step s0 s \<Longrightarrow> inv s0 \<Longrightarrow> inv s"
  by (induction rule: reachable.induct) (auto intro: preserved)

lemma reachable_output:
  "reachable step s0 s \<Longrightarrow> inv s0 \<Longrightarrow> step s i = Some (x, s') \<Longrightarrow> good s x"
  using reachable_inv outputs by blast

lemma run_inv: "run_machine step s is = Some (xs, s') \<Longrightarrow> inv s \<Longrightarrow> inv s'"
  using run_machine_reachable [of step s "is" xs s' s] reachable_inv reachable.start by metis

end

end
