(* ===== verification/Session_Runs.thy ===== *)
theory Session_Runs
  imports Smtp_Session State_Machine
begin

text \<open>
  The SMTP session driven by a network layer that does what each action asks
  (\<^verbatim>\<open>Action\<close> in \<^verbatim>\<open>src/src/smtp/session/types.rs\<close>): the protocol between the two, the
  session invariant, and what follows for every message a session ever accepts.
\<close>

section \<open>The driver's protocol\<close>

text \<open>What the network layer feeds next.\<close>

datatype Expect = ExpCommand | ExpData | ExpAuth | ExpChunk nat bool | ExpTls | ExpClosed

fun after_action :: "Action \<Rightarrow> Expect" where
  "after_action (Continue r) = ExpCommand"
| "after_action (CollectData r) = ExpData"
| "after_action (CollectChunk n l) = ExpChunk n l"
| "after_action (Deliver r m) = ExpCommand"
| "after_action (UpgradeTls r) = ExpTls"
| "after_action (CollectAuthResponse r) = ExpAuth"
| "after_action (Close r) = ExpClosed"

text \<open>\<open>InShared\<close> is a write of another connection to the shared limiter and disk guard.\<close>

datatype Input = InLine bytes | InChunk bytes | InTls "str option" | InShared SendLimiter DiskGuard

definition after_step :: "Action \<times> Session \<Rightarrow> (Action option \<times> Expect \<times> Session) option" where
  "after_step r = Some (Some (fst r), after_action (fst r), snd r)"

definition drive ::
  "crates \<Rightarrow> Expect \<times> Session \<Rightarrow> Env \<times> Input \<Rightarrow> (Action option \<times> Expect \<times> Session) option" where
  "drive K ms ei =
     (case (ms, ei) of
        ((ExpCommand, s), (env, InLine l)) \<Rightarrow> after_step (command_line K env s l)
      | ((ExpAuth, s), (env, InLine l)) \<Rightarrow> after_step (auth_line K env s l)
      | ((ExpData, s), (env, InLine l)) \<Rightarrow>
          (case data_line s l of
             (None, s') \<Rightarrow> Some (None, ExpData, s')
           | (Some a, s') \<Rightarrow> after_step (a, s'))
      | ((ExpChunk n is_last, s), (env, InChunk d)) \<Rightarrow>
          if length d = n then after_step (bdat_chunk s d is_last) else None
      | ((ExpTls, s), (env, InTls ident)) \<Rightarrow>
          Some (None, ExpCommand, tls_started (set_client_identity ident s))
      | ((m, s), (env, InShared l g)) \<Rightarrow>
          Some (None, m, s\<lparr>send_limiter := map_option (\<lambda>_. l) (send_limiter s),
                          disk_guard := map_option (\<lambda>_. g) (disk_guard s)\<rparr>)
      | _ \<Rightarrow> None)"

text \<open>A session as the network layer configures it before the greeting.\<close>

definition no_pending :: "Session \<Rightarrow> bool" where
  "no_pending s \<longleftrightarrow> pending_scram s = None \<and> pending_login s = None \<and> \<not> pending_external s"

definition fresh :: "Session \<Rightarrow> bool" where
  "fresh s \<longleftrightarrow> state s = Connected \<and> authenticated s = None \<and> auth_failures s = 0 \<and> no_pending s
     \<and> helo_domain s = None \<and> \<not> esmtp s"

lemma fresh_new: "fresh (new_session host)"
  by (simp add: fresh_def new_session_def no_pending_def)

section \<open>The invariant\<close>

definition sender_ok :: "crates \<Rightarrow> Session \<Rightarrow> str \<Rightarrow> bool" where
  "sender_ok K s rp \<longleftrightarrow>
     (case authenticated s of
        Some account \<Rightarrow> (\<exists>a. parse_address K rp = Inr a \<and> owns_address (directory s) account a)
      | None \<Rightarrow> rp = [] \<or> (\<exists>a. parse_address K rp = Inr a))"

definition rcpt_ok :: "crates \<Rightarrow> Session \<Rightarrow> str \<Rightarrow> bool" where
  "rcpt_ok K s fp \<longleftrightarrow>
     (\<exists>raw a. parse_address K raw = Inr a \<and> fp = address_to_string a
        \<and> resolve (directory s) a \<noteq> UnknownUser
        \<and> (resolve (directory s) a = NotLocal \<longrightarrow> authenticated s \<noteq> None))"

fun state_ok :: "crates \<Rightarrow> Session \<Rightarrow> State \<Rightarrow> bool" where
  "state_ok K s Connected = True"
| "state_ok K s Greeted = True"
| "state_ok K s (ReceivingRecipients rp rtls) \<longleftrightarrow> sender_ok K s rp \<and> (rtls \<longrightarrow> tls_active s)"
| "state_ok K s (ReceivingData rp rcpts nodsn n body rtls chunking) \<longleftrightarrow>
     sender_ok K s rp \<and> (rtls \<longrightarrow> tls_active s)
     \<and> rcpts \<noteq> [] \<and> length rcpts \<le> MAX_RECIPIENTS \<and> list_all (rcpt_ok K s) rcpts
     \<and> set nodsn \<subseteq> set rcpts
     \<and> length body \<le> MAX_MESSAGE_SIZE \<and> (n \<le> MAX_MESSAGE_SIZE \<longrightarrow> length body = n)"

definition allowed :: "Session \<Rightarrow> str \<Rightarrow> bool" where
  "allowed s account \<longleftrightarrow> is_protocol_allowed (directory s) account (auth_protocol s)"

definition auth_ok :: "Session \<Rightarrow> bool" where
  "auth_ok s \<longleftrightarrow> (\<forall>account. authenticated s = Some account \<longrightarrow> tls_active s \<and> allowed s account)"

definition scram_ok :: "Session \<Rightarrow> bool" where
  "scram_ok s \<longleftrightarrow>
     (\<forall>srv cred account. pending_scram s = Some (ClientFinal srv cred account) \<longrightarrow> allowed s account)"

definition one_pending :: "Session \<Rightarrow> bool" where
  "one_pending s \<longleftrightarrow> (pending_external s \<longrightarrow> pending_login s = None \<and> pending_scram s = None)
     \<and> (pending_login s \<noteq> None \<longrightarrow> pending_scram s = None)"

fun mode_ok :: "Expect \<Rightarrow> Session \<Rightarrow> bool" where
  "mode_ok ExpCommand s \<longleftrightarrow> no_pending s \<and> auth_failures s < 3"
| "mode_ok ExpData s \<longleftrightarrow> no_pending s \<and> auth_failures s < 3
     \<and> (\<exists>rp rcpts nodsn n body rtls. state s = ReceivingData rp rcpts nodsn n body rtls False)"
| "mode_ok ExpAuth s \<longleftrightarrow> tls_active s \<and> authenticated s = None \<and> state s = Greeted \<and> scram_ok s
     \<and> one_pending s \<and> auth_failures s < 3"
| "mode_ok (ExpChunk n l) s \<longleftrightarrow> no_pending s \<and> auth_failures s < 3 \<and> n \<le> MAX_MESSAGE_SIZE"
| "mode_ok ExpTls s \<longleftrightarrow> no_pending s \<and> auth_failures s < 3 \<and> state s = Greeted \<and> tls_available s"
| "mode_ok ExpClosed s \<longleftrightarrow> no_pending s \<and> auth_failures s \<le> 3"

fun session_inv :: "crates \<Rightarrow> Expect \<times> Session \<Rightarrow> bool" where
  "session_inv K (m, s) \<longleftrightarrow> state_ok K s (state s) \<and> auth_ok s \<and> mode_ok m s"

lemma fresh_inv: "fresh s \<Longrightarrow> session_inv K (ExpCommand, s)"
  by (simp add: fresh_def auth_ok_def)

section \<open>What a step may output\<close>

definition message_ok :: "crates \<Rightarrow> Session \<Rightarrow> AcceptedMessage \<Rightarrow> bool" where
  "message_ok K s m \<longleftrightarrow>
     sender_ok K s (reverse_path m) \<and> (require_tls m \<longrightarrow> tls_active s)
     \<and> recipients m \<noteq> [] \<and> length (recipients m) \<le> MAX_RECIPIENTS
     \<and> list_all (rcpt_ok K s) (recipients m) \<and> set (no_dsn m) \<subseteq> set (recipients m)
     \<and> length (msg_data m) \<le> MAX_MESSAGE_SIZE"

fun action_ok :: "crates \<Rightarrow> Session \<Rightarrow> Action \<Rightarrow> bool" where
  "action_ok K s (Continue r) \<longleftrightarrow> reply_ok r"
| "action_ok K s (CollectData r) \<longleftrightarrow> reply_ok r"
| "action_ok K s (CollectChunk n l) \<longleftrightarrow> n \<le> MAX_MESSAGE_SIZE"
| "action_ok K s (Deliver r m) \<longleftrightarrow> reply_ok r \<and> message_ok K s m"
| "action_ok K s (UpgradeTls r) \<longleftrightarrow> reply_ok r"
| "action_ok K s (CollectAuthResponse r) \<longleftrightarrow> reply_ok r"
| "action_ok K s (Close r) \<longleftrightarrow> reply_ok r"

definition step_ok :: "crates \<Rightarrow> Session \<Rightarrow> Action \<times> Session \<Rightarrow> bool" where
  "step_ok K s r \<longleftrightarrow> action_ok K s (fst r) \<and> session_inv K (after_action (fst r), snd r)"

lemma reply_consts_ok [simp]:
  "reply_ok (single c t) \<longleftrightarrow> 200 \<le> c \<and> c \<le> 599"
  "reply_ok (multi c ls) \<longleftrightarrow> 200 \<le> c \<and> c \<le> 599 \<and> ls \<noteq> []"
  "reply_ok reply_ok250" "reply_ok reply_closing" "reply_ok syntax_error" "reply_ok invalid_arguments"
  "reply_ok bad_sequence" "reply_ok vrfy_not_disclosed" "reply_ok start_mail_input" "reply_ok fail_reply"
  by (simp_all add: reply_ok_iff reply_defs fail_reply_def)

section \<open>AUTH steps\<close>

definition auth_ready :: "Session \<Rightarrow> bool" where
  "auth_ready s \<longleftrightarrow> no_pending s \<and> tls_active s \<and> authenticated s = None \<and> state s = Greeted
     \<and> auth_failures s < 3"

lemma word3_cases: "w < 3 \<Longrightarrow> w = 0 \<or> w = 1 \<or> w = 2" for w :: "8 word"
proof -
  assume "w < 3"
  then have "unat w < 3" by (simp add: word_less_nat_alt)
  then have "unat w = unat (0 :: 8 word) \<or> unat w = unat (1 :: 8 word) \<or> unat w = unat (2 :: 8 word)"
    by auto
  then show ?thesis by (metis word_unat_eq_iff)
qed

lemma auth_fail_ok: "auth_ready s \<Longrightarrow> step_ok K s0 (auth_fail s)"
  using word3_cases [of "auth_failures s"]
  by (auto simp: step_ok_def auth_fail_def Let_def auth_ready_def no_pending_def auth_ok_def
      word_le_nat_alt word_less_nat_alt)

lemma auth_granted_ok:
  "auth_ready s \<Longrightarrow> allowed s account \<Longrightarrow> reply_ok r \<Longrightarrow> step_ok K s0 (Continue r, s\<lparr>authenticated := Some account\<rparr>)"
  by (auto simp: step_ok_def auth_ready_def no_pending_def auth_ok_def allowed_def)

lemma auth_success_ok: "auth_ready s \<Longrightarrow> allowed s account \<Longrightarrow> step_ok K s0 (auth_success s account)"
  unfolding auth_success_def by (rule auth_granted_ok) simp_all

lemma auth_prompt_ok:
  assumes "auth_ready s" "reply_ok r"
  shows "step_ok K s0 (CollectAuthResponse r, s\<lparr>pending_login := u\<rparr>)"
    "step_ok K s0 (CollectAuthResponse r, s\<lparr>pending_external := e\<rparr>)"
    "step_ok K s0 (CollectAuthResponse r, s\<lparr>pending_scram := Some (ClientFirst b)\<rparr>)"
  using assms
  by (auto simp: step_ok_def auth_ready_def no_pending_def auth_ok_def scram_ok_def allowed_def
      one_pending_def)

lemma scram_prompt_ok:
  assumes "auth_ready s" "reply_ok r" "allowed s account"
  shows "step_ok K s0 (CollectAuthResponse r, s\<lparr>pending_scram := Some (ClientFinal srv cred account)\<rparr>)"
  using assms
  by (auto simp: step_ok_def auth_ready_def no_pending_def auth_ok_def scram_ok_def allowed_def
      one_pending_def)

lemma auth_bare_prompt_ok:
  "auth_ready s \<Longrightarrow> reply_ok r \<Longrightarrow> step_ok K s0 (CollectAuthResponse r, s)"
  by (auto simp: step_ok_def auth_ready_def no_pending_def auth_ok_def scram_ok_def one_pending_def)

lemma authenticate_allowed:
  "authenticate_with_ip K (directory s) now login pw ip (auth_protocol s) = Some account \<Longrightarrow> allowed s account"
  by (auto simp: authenticate_with_ip_def allowed_def bind_eq_Some_conv split: if_splits)

lemma verify_plain_ok: "auth_ready s \<Longrightarrow> step_ok K s0 (verify_plain K env s e)"
  unfolding verify_plain_def
  by (auto split: sum.splits option.splits intro: auth_fail_ok auth_success_ok authenticate_allowed)

lemma login_username_ok: "auth_ready s \<Longrightarrow> step_ok K s0 (login_username K s e)"
  unfolding login_username_def
  by (auto split: option.splits intro: auth_fail_ok intro!: auth_prompt_ok)

lemma login_password_ok: "auth_ready s \<Longrightarrow> step_ok K s0 (login_password K env s u e)"
  unfolding login_password_def
  by (auto split: option.splits intro: auth_fail_ok auth_success_ok authenticate_allowed)

lemma verify_external_ok: "auth_ready s \<Longrightarrow> step_ok K s0 (verify_external K s e)"
  unfolding verify_external_def Let_def
  by (auto split: option.splits sum.splits Resolution.splits intro: auth_fail_ok auth_success_ok
      simp: allowed_def)

lemma oauth_bearer_ok: "auth_ready s \<Longrightarrow> step_ok K s0 (oauth_bearer K env s i)"
proof (cases "oauth s")
  case None
  then show "auth_ready s \<Longrightarrow> ?thesis"
    by (simp add: oauth_bearer_def step_ok_def auth_ready_def no_pending_def auth_ok_def)
next
  case (Some v)
  then show "auth_ready s \<Longrightarrow> ?thesis"
    unfolding oauth_bearer_def oauth_failure_def
    by (auto split: option.splits intro: auth_fail_ok
        intro!: auth_success_ok simp: allowed_def bind_eq_Some_conv split: if_splits)
qed

lemma scram_failure_ok: "auth_ready s \<Longrightarrow> step_ok K s0 (scram_failure s)"
  unfolding scram_failure_def by (rule auth_fail_ok) (simp add: auth_ready_def no_pending_def)

lemma scram_client_first_ok: "auth_ready s \<Longrightarrow> step_ok K s0 (scram_client_first K env s e b)"
  unfolding scram_client_first_def
  by (auto split: option.splits sum.splits prod.splits intro: scram_failure_ok
      intro!: scram_prompt_ok simp: allowed_def)

lemma scram_client_final_ok:
  "auth_ready s \<Longrightarrow> allowed s account \<Longrightarrow> step_ok K s0 (scram_client_final K s e srv cred account)"
  unfolding scram_client_final_def
  by (auto split: option.splits sum.splits intro: scram_failure_ok intro!: auth_granted_ok)

lemma scram_begin_ok: "auth_ready s \<Longrightarrow> step_ok K s0 (scram_begin K env s i p)"
  unfolding scram_begin_def Let_def
  by (auto split: option.splits intro: scram_client_first_ok intro!: auth_prompt_ok)

lemma auth_ready_iff:
  "session_inv K (ExpCommand, s) \<Longrightarrow> tls_active s \<Longrightarrow> authenticated s = None \<Longrightarrow> state s = Greeted \<Longrightarrow> auth_ready s"
  by (simp add: auth_ready_def)

text \<open>A command that only replies.\<close>

lemma continue_ok: "session_inv K (ExpCommand, s) \<Longrightarrow> reply_ok r \<Longrightarrow> step_ok K s0 (Continue r, s)"
  by (simp add: step_ok_def)

lemma auth_step_ok: "session_inv K (ExpCommand, s) \<Longrightarrow> step_ok K s0 (auth K env s mech i)"
proof -
  assume i: "session_inv K (ExpCommand, s)"
  have n: "step_ok K s0 (Continue r, s)" if "reply_ok r" for r
    using continue_ok [OF i that] .
  show ?thesis
  proof (cases "tls_active s \<and> authenticated s = None \<and> state s = Greeted")
    case False
    then show ?thesis using n by (auto simp: auth_def Let_def)
  next
    case True
    with i have r: "auth_ready s" by (simp add: auth_ready_iff del: session_inv.simps)
    show ?thesis
      using True n verify_external_ok [OF r] verify_plain_ok [OF r] scram_begin_ok [OF r]
        oauth_bearer_ok [OF r] login_username_ok [OF r] auth_prompt_ok [OF r] auth_bare_prompt_ok [OF r]
      by (auto simp: auth_def Let_def split: option.splits Mechanism.splits)
  qed
qed

lemma auth_line_ok:
  assumes "session_inv K (ExpAuth, s)"
  shows "step_ok K s0 (auth_line K env s line)"
proof (cases "line = ''*''")
  case True
  then show ?thesis
    using assms by (simp add: auth_line_def step_ok_def no_pending_def auth_ok_def)
next
  case False
  have m: "tls_active s" "authenticated s = None" "state s = Greeted" "auth_failures s < 3" "scram_ok s"
    "one_pending s"
    using assms by auto
  then have external: "pending_external s \<Longrightarrow> auth_ready (s\<lparr>pending_external := False\<rparr>)"
    and login: "\<not> pending_external s \<Longrightarrow> pending_login s = Some u \<Longrightarrow> auth_ready (s\<lparr>pending_login := None\<rparr>)"
    and scram: "\<not> pending_external s \<Longrightarrow> pending_login s = None \<Longrightarrow> auth_ready (s\<lparr>pending_scram := None\<rparr>)"
    and idle: "\<not> pending_external s \<Longrightarrow> pending_login s = None \<Longrightarrow> pending_scram s = None \<Longrightarrow> auth_ready s"
    for u by (auto simp: auth_ready_def no_pending_def one_pending_def)
  have "pending_scram s = Some (ClientFinal srv cred account) \<Longrightarrow> allowed (s\<lparr>pending_scram := None\<rparr>) account"
    for srv cred account
    using m(5) by (simp add: scram_ok_def allowed_def)
  then show ?thesis
    using False external login scram idle
    by (auto simp: auth_line_def split: option.splits PendingScram.splits
        intro: verify_external_ok login_username_ok login_password_ok scram_client_first_ok
          scram_client_final_ok verify_plain_ok)
qed

section \<open>Command and data steps\<close>

lemma state_ok_cong:
  assumes "authenticated s' = authenticated s" "directory s' = directory s" "tls_active s' = tls_active s"
  shows "state_ok K s' st = state_ok K s st"
proof -
  have "sender_ok K s' = sender_ok K s" "rcpt_ok K s' = rcpt_ok K s"
    by (simp_all add: fun_eq_iff sender_ok_def rcpt_ok_def assms split: option.splits)
  then show ?thesis using assms(3) by (cases st) simp_all
qed

definition same_auth :: "Session \<Rightarrow> Session \<Rightarrow> bool" where
  "same_auth s s' \<longleftrightarrow> authenticated s' = authenticated s \<and> directory s' = directory s
     \<and> tls_active s' = tls_active s \<and> auth_protocol s' = auth_protocol s
     \<and> auth_failures s' = auth_failures s \<and> (no_pending s \<longrightarrow> no_pending s')
     \<and> tls_available s' = tls_available s"

text \<open>A step that keeps the authentication fields keeps the invariant if its new state is fine.\<close>

lemma same_auth_inv:
  assumes "session_inv K (ExpCommand, s)" "same_auth s s'" "state_ok K s (state s')"
  shows "session_inv K (ExpCommand, s')"
  using assms state_ok_cong [of s' s K "state s'"]
  by (auto simp: same_auth_def auth_ok_def allowed_def)

lemma same_auth_updates [simp]:
  "same_auth s (s\<lparr>state := st\<rparr>)" "same_auth s s"
  "same_auth s (s\<lparr>state := st, helo_domain := h, esmtp := e\<rparr>)"
  "same_auth s (reset s)"
  by (simp_all add: same_auth_def no_pending_def reset_def)

lemma same_auth_limits:
  "rate_limited env s = (b, s') \<Longrightarrow> same_auth s s' \<and> state s' = state s"
  "disk_full env s = (b, s') \<Longrightarrow> same_auth s s' \<and> state s' = state s"
  by (auto simp: rate_limited_def disk_full_def same_auth_def no_pending_def
      split: option.splits prod.splits)

lemma same_auth_trans: "same_auth a b \<Longrightarrow> same_auth b c \<Longrightarrow> same_auth a c"
  by (simp add: same_auth_def)

lemma same_auth_state: "same_auth s s' \<Longrightarrow> same_auth s (s'\<lparr>state := st\<rparr>)"
  by (simp add: same_auth_def no_pending_def)

lemma reset_state_ok: "state_ok K s (state (reset s'))"
  by (simp add: reset_def)

lemma continue_state_ok:
  assumes "session_inv K (ExpCommand, s)" "reply_ok r" "same_auth s s'" "state_ok K s (state s')"
  shows "step_ok K s0 (Continue r, s')"
  using same_auth_inv [OF assms(1,3,4)] assms(2) by (simp add: step_ok_def del: session_inv.simps)

lemma greet_ok: "session_inv K (ExpCommand, s) \<Longrightarrow> step_ok K s0 (greet s dm es)"
  unfolding greet_def Let_def
  by (auto intro!: continue_state_ok simp del: session_inv.simps)

lemma mail_from_ok: "session_inv K (ExpCommand, s) \<Longrightarrow> step_ok K s0 (mail_from K env s rp n rtls)"
proof -
  assume i: "session_inv K (ExpCommand, s)"
  then have st: "state_ok K s (state s)" by simp
  show ?thesis
  proof (cases "state s \<noteq> Greeted \<or> rtls \<and> \<not> tls_active s \<or> sender_rejected K s rp \<noteq> None")
    case True
    have "reply_ok r" if "sender_rejected K s rp = Some r" for r
      using that by (auto simp: sender_rejected_def split: option.splits sum.splits if_splits)
    with True show ?thesis
      using continue_ok [OF i] by (auto simp: mail_from_def)
  next
    case False
    obtain lim s1 where 1: "rate_limited env s = (lim, s1)" by fastforce
    obtain full s2 where 2: "disk_full env s1 = (full, s2)" by fastforce
    have s1: "same_auth s s1" "state s1 = state s" using same_auth_limits(1) [OF 1] by auto
    then have s2: "same_auth s s2" "state s2 = state s"
      using same_auth_limits(2) [OF 2] by (auto intro: same_auth_trans)
    have "sender_ok K s rp"
      using False by (auto simp: sender_ok_def sender_rejected_def split: option.splits sum.splits if_splits)
    with False have new: "state_ok K s (ReceivingRecipients rp rtls)" by auto
    show ?thesis
      using False 1 2 s1 s2 st new same_auth_state [OF s2(1)]
      by (auto simp: mail_from_def Let_def intro!: continue_state_ok [OF i] split: option.splits)
  qed
qed

lemma rcpt_to_ok: "session_inv K (ExpCommand, s) \<Longrightarrow> step_ok K s0 (rcpt_to K s fp notify)"
proof -
  assume i: "session_inv K (ExpCommand, s)"
  then have st: "state_ok K s (state s)" by simp
  have n: "step_ok K s0 (Continue r, s)" if "reply_ok r" for r
    using continue_ok [OF i that] .
  show ?thesis
  proof (cases "parse_address K fp")
    case (Inl e)
    then show ?thesis using n by (simp add: rcpt_to_def)
  next
    case (Inr a)
    show ?thesis
    proof (cases "resolve (directory s) a = NotLocal \<and> authenticated s = None \<or> resolve (directory s) a = UnknownUser")
      case True
      then show ?thesis using Inr n by (auto simp: rcpt_to_def)
    next
      case False
      then have "rcpt_ok K s (address_to_string a)"
        using Inr by (auto simp: rcpt_ok_def)
      then show ?thesis
        using Inr False n st
        by (auto simp: rcpt_to_def Let_def MAX_RECIPIENTS_def split: State.splits
            intro!: continue_state_ok [OF i])
    qed
  qed
qed

lemma data_cmd_ok: "session_inv K (ExpCommand, s) \<Longrightarrow> step_ok K s0 (data_cmd s, s)"
  by (auto simp: data_cmd_def step_ok_def split: State.splits)

lemma start_tls_ok: "session_inv K (ExpCommand, s) \<Longrightarrow> step_ok K s0 (start_tls s, s)"
  by (auto simp: start_tls_def step_ok_def)

lemma bdat_ok: "session_inv K (ExpCommand, s) \<Longrightarrow> step_ok K s0 (bdat s n l)"
  using same_auth_inv [of K s "reset s"] reset_state_ok [of K s s]
  by (auto simp: bdat_def step_ok_def word_le_nat_alt word_less_nat_alt)

lemma apply_command_ok: "session_inv K (ExpCommand, s) \<Longrightarrow> step_ok K s0 (apply_command K env s c)"
proof (cases c)
  case Rset
  then show "session_inv K (ExpCommand, s) \<Longrightarrow> ?thesis"
    using reset_state_ok by (simp add: continue_state_ok del: session_inv.simps)
next
  case Quit
  then show "session_inv K (ExpCommand, s) \<Longrightarrow> ?thesis"
    by (auto simp: step_ok_def word_le_nat_alt word_less_nat_alt)
qed (simp_all add: greet_ok mail_from_ok rcpt_to_ok data_cmd_ok bdat_ok start_tls_ok auth_step_ok
    continue_ok del: session_inv.simps)

lemma command_line_ok: "session_inv K (ExpCommand, s) \<Longrightarrow> step_ok K s0 (command_line K env s l)"
  by (auto simp: command_line_def apply_command_ok continue_ok simp del: session_inv.simps
      split: sum.splits ParseError.splits)

text \<open>Message data: a line or chunk is fed in a transaction; both ways of finishing it check the
  size.\<close>

lemma data_line_ok:
  assumes "session_inv K (ExpData, s)" "data_line s l = (a, s')"
  shows "case a of Some act \<Rightarrow> step_ok K s (act, s') | None \<Rightarrow> session_inv K (ExpData, s')"
proof -
  from assms(1) obtain rp rcpts nodsn n body rtls
    where st: "state s = ReceivingData rp rcpts nodsn n body rtls False" by auto
  have ok: "state_ok K s (ReceivingData rp rcpts nodsn n body rtls False)"
    using assms(1) st by simp
  have c: "session_inv K (ExpCommand, s)" using assms(1) by simp
  show ?thesis
  proof (cases "l = ''.''")
    case True
    have inv: "session_inv K (ExpCommand, s\<lparr>state := Greeted\<rparr>)"
      by (rule same_auth_inv [OF c]) simp_all
    show ?thesis
    proof (cases "n > MAX_MESSAGE_SIZE")
      case True
      then show ?thesis
        using assms(2) st \<open>l = ''.''\<close> inv by (auto simp: data_line_def step_ok_def simp del: session_inv.simps)
    next
      case False
      then show ?thesis
        using assms(2) st ok \<open>l = ''.''\<close> inv
        by (auto simp: data_line_def step_ok_def message_ok_def simp del: session_inv.simps)
    qed
  next
    case False
    define content where "content = (case strip_prefix ''.'' l of Some r \<Rightarrow> r | None \<Rightarrow> l)"
    define st' where "st' = ReceivingData rp rcpts nodsn (n + (length content + 2))
      (if n + (length content + 2) \<le> MAX_MESSAGE_SIZE then body @ content @ crlf else body) rtls False"
    have r: "a = None" "s' = s\<lparr>state := st'\<rparr>"
      using assms(2) st False by (auto simp: data_line_def st'_def content_def Let_def)
    have "state_ok K s st'" using ok by (auto simp: st'_def crlf_def)
    then have "session_inv K (ExpCommand, s')"
      unfolding r by (intro same_auth_inv [OF c]) simp_all
    then show ?thesis using r by (simp add: st'_def)
  qed
qed

lemma bdat_chunk_ok:
  assumes "session_inv K (ExpChunk k l, s)"
  shows "step_ok K s (bdat_chunk s d l)"
proof -
  have c: "session_inv K (ExpCommand, s)" using assms by simp
  show ?thesis
  proof (cases "\<exists>rp rcpts nodsn n body rtls ch. state s = ReceivingData rp rcpts nodsn n body rtls ch")
    case False
    then have "bdat_chunk s d l = (Continue bad_sequence, reset s)"
      by (cases "state s") (auto simp: bdat_chunk_def)
    then show ?thesis using continue_state_ok [OF c] reset_state_ok by simp
  next
    case True
    then obtain rp rcpts nodsn n body rtls ch
      where st: "state s = ReceivingData rp rcpts nodsn n body rtls ch" by blast
    have ok: "state_ok K s (ReceivingData rp rcpts nodsn n body rtls ch)"
      using c st by simp
    have inv: "session_inv K (ExpCommand, s\<lparr>state := Greeted\<rparr>)"
      by (rule same_auth_inv [OF c]) simp_all
    consider (over) "n + length d > MAX_MESSAGE_SIZE"
      | (more) "n + length d \<le> MAX_MESSAGE_SIZE" "\<not> l"
      | (final) "n + length d \<le> MAX_MESSAGE_SIZE" "l" by linarith
    then show ?thesis
    proof cases
      case over
      then show ?thesis
        using st inv by (simp add: bdat_chunk_def Let_def reset_def step_ok_def del: session_inv.simps)
    next
      case more
      then show ?thesis
        using st ok by (auto simp: bdat_chunk_def Let_def intro!: continue_state_ok [OF c])
    next
      case final
      then show ?thesis
        using st ok inv
        by (auto simp: bdat_chunk_def Let_def step_ok_def message_ok_def simp del: session_inv.simps)
    qed
  qed
qed

lemma tls_started_inv:
  "session_inv K (ExpTls, s) \<Longrightarrow> session_inv K (ExpCommand, tls_started (set_client_identity i s))"
  by (auto simp: tls_started_def set_client_identity_def auth_ok_def no_pending_def allowed_def)

lemma shared_inv:
  assumes "session_inv K (m, s)"
  shows "session_inv K (m, s\<lparr>send_limiter := l, disk_guard := g\<rparr>)"
proof -
  let ?s = "s\<lparr>send_limiter := l, disk_guard := g\<rparr>"
  have "state_ok K ?s (state s)" using assms by (subst state_ok_cong [of _ s]) simp_all
  then show ?thesis
    using assms by (cases m) (simp_all add: auth_ok_def allowed_def no_pending_def scram_ok_def one_pending_def)
qed

lemma after_stepD:
  "after_step r = Some (a, ms) \<Longrightarrow> step_ok K s r \<Longrightarrow> session_inv K ms \<and> (\<exists>act. a = Some act \<and> action_ok K s act)"
  by (auto simp: after_step_def step_ok_def)

lemma drive_cases:
  assumes "drive K (m, s) (env, i) = Some (a, ms)"
  obtains
    (command) l where "m = ExpCommand" "i = InLine l" "after_step (command_line K env s l) = Some (a, ms)"
  | (auth) l where "m = ExpAuth" "i = InLine l" "after_step (auth_line K env s l) = Some (a, ms)"
  | (more_data) l s' where "m = ExpData" "i = InLine l" "data_line s l = (None, s')" "a = None" "ms = (ExpData, s')"
  | (end_data) l act s' where "m = ExpData" "i = InLine l" "data_line s l = (Some act, s')"
      "after_step (act, s') = Some (a, ms)"
  | (chunk) d n is_last where "m = ExpChunk n is_last" "i = InChunk d" "length d = n"
      "after_step (bdat_chunk s d is_last) = Some (a, ms)"
  | (tls) ident where "m = ExpTls" "i = InTls ident" "a = None"
      "ms = (ExpCommand, tls_started (set_client_identity ident s))"
  | (shared) l g where "i = InShared l g" "a = None"
      "ms = (m, s\<lparr>send_limiter := map_option (\<lambda>_. l) (send_limiter s),
                  disk_guard := map_option (\<lambda>_. g) (disk_guard s)\<rparr>)"
  using assms unfolding drive_def
  by (cases i; cases m) (auto split: prod.splits option.splits if_splits)

lemma drive_ok:
  assumes "session_inv K (m, s)" "drive K (m, s) (env, i) = Some (a, ms)"
  shows "session_inv K ms \<and> (\<forall>act. a = Some act \<longrightarrow> action_ok K s act)"
  using assms(2)
proof (cases rule: drive_cases)
  case (command l)
  then show ?thesis using after_stepD [OF _ command_line_ok] assms(1) by (metis option.inject)
next
  case (auth l)
  then show ?thesis using after_stepD [OF _ auth_line_ok] assms(1) by (metis option.inject)
next
  case (more_data l s')
  then show ?thesis using data_line_ok [of K s l None s'] assms(1) by (simp del: session_inv.simps)
next
  case (end_data l act s')
  then show ?thesis
    using data_line_ok [of K s l "Some act" s'] assms(1) after_stepD [of "(act, s')" a ms K s]
    by (auto simp del: session_inv.simps)
next
  case (chunk d n is_last)
  then show ?thesis using after_stepD [OF _ bdat_chunk_ok] assms(1) by (metis option.inject)
next
  case (tls ident)
  then show ?thesis using tls_started_inv assms(1) by (simp del: session_inv.simps)
next
  case (shared l g)
  then show ?thesis using shared_inv assms(1) by (simp del: session_inv.simps)
qed

definition output_ok :: "crates \<Rightarrow> Expect \<times> Session \<Rightarrow> Action option \<Rightarrow> bool" where
  "output_ok K ms a \<longleftrightarrow> (\<forall>act. a = Some act \<longrightarrow> action_ok K (snd ms) act)"

interpretation smtp: machine_invariant "drive K" "session_inv K" "output_ok K" for K
proof unfold_locales
  fix ms i a ms'
  assume "session_inv K ms" "drive K ms i = Some (a, ms')"
  then show "session_inv K ms'" "output_ok K ms a"
    using drive_ok [of K "fst ms" "snd ms" "fst i" "snd i" a ms'] by (simp_all add: output_ok_def)
qed

lemma run_session_inv:
  "run_machine (drive K) (ExpCommand, s0) evs = Some (outs, ms) \<Longrightarrow> fresh s0 \<Longrightarrow> session_inv K ms"
  by (rule smtp.run_inv) (auto intro: fresh_inv simp del: session_inv.simps)

lemma run_session_output:
  assumes "run_machine (drive K) (ExpCommand, s0) evs = Some (outs, m, s)" "fresh s0"
    "drive K (m, s) ev = Some (Some act, ms)"
  shows "action_ok K s act"
  using smtp.outputs [OF run_session_inv [OF assms(1,2)] assms(3)] by (simp add: output_ok_def)

fun reply_of :: "Action \<Rightarrow> Reply option" where
  "reply_of (Continue r) = Some r"
| "reply_of (CollectData r) = Some r"
| "reply_of (CollectChunk n l) = None"
| "reply_of (Deliver r m) = Some r"
| "reply_of (UpgradeTls r) = Some r"
| "reply_of (CollectAuthResponse r) = Some r"
| "reply_of (Close r) = Some r"

section \<open>What a session keeps\<close>

text \<open>The fields no step writes.\<close>

definition config :: "Session \<Rightarrow> Session" where
  "config s = s\<lparr>state := Connected, tls_available := False, tls_active := False, authenticated := None,
     auth_failures := 0, helo_domain := None, esmtp := False, pending_scram := None,
     pending_login := None, client_identity := None, pending_external := False,
     send_limiter := None, disk_guard := None\<rparr>"

text \<open>No step but the upgrade touches the TLS fields, and without TLS none touches the
  authentication fields.\<close>

definition kept :: "Session \<Rightarrow> Session \<Rightarrow> bool" where
  "kept s s' \<longleftrightarrow> config s' = config s \<and> tls_active s' = tls_active s \<and> tls_available s' = tls_available s
     \<and> client_identity s' = client_identity s
     \<and> (tls_active s \<or> (authenticated s' = authenticated s \<and> auth_failures s' = auth_failures s
          \<and> pending_scram s' = pending_scram s \<and> pending_login s' = pending_login s
          \<and> pending_external s' = pending_external s))"

lemma kept_updates [simp]:
  "kept s s"
  "kept s (s\<lparr>state := st\<rparr>)"
  "kept s (s\<lparr>state := st, helo_domain := h, esmtp := e\<rparr>)"
  "kept s (s\<lparr>send_limiter := l\<rparr>)"
  "kept s (s\<lparr>disk_guard := g\<rparr>)"
  "kept s (s\<lparr>send_limiter := l, disk_guard := g\<rparr>)"
  "kept s (reset s)"
  by (simp_all add: kept_def config_def reset_def)

lemma kept_trans: "kept a b \<Longrightarrow> kept b c \<Longrightarrow> kept a c"
  by (auto simp: kept_def)

lemma kept_state: "kept s s' \<Longrightarrow> kept s (s'\<lparr>state := st\<rparr>)"
  by (simp add: kept_def config_def)

lemma kept_auth_updates:
  "tls_active s \<Longrightarrow> kept s (s\<lparr>authenticated := a\<rparr>)"
  "tls_active s \<Longrightarrow> kept s (s\<lparr>auth_failures := f\<rparr>)"
  "tls_active s \<Longrightarrow> kept s (s\<lparr>pending_scram := p\<rparr>)"
  "tls_active s \<Longrightarrow> kept s (s\<lparr>pending_login := u\<rparr>)"
  "tls_active s \<Longrightarrow> kept s (s\<lparr>pending_external := e\<rparr>)"
  "tls_active s \<Longrightarrow> kept s (s\<lparr>pending_scram := p, auth_failures := f\<rparr>)"
  by (simp_all add: kept_def config_def)

lemma auth_kept:
  assumes "tls_active s"
  shows "kept s (snd (auth_fail s))" "kept s (snd (scram_failure s))" "kept s (snd (verify_plain K env s e))"
    "kept s (snd (login_username K s e))" "kept s (snd (login_password K env s u e))"
    "kept s (snd (verify_external K s e))" "kept s (snd (oauth_bearer K env s i))"
    "kept s (snd (scram_client_first K env s e b))" "kept s (snd (scram_client_final K s e srv cred acc))"
proof -
  note k = kept_auth_updates [OF assms]
  show f: "kept s (snd (auth_fail s))" using k by (simp add: auth_fail_def Let_def)
  show g: "kept s (snd (scram_failure s))" using k by (simp add: auth_fail_def scram_failure_def Let_def)
  have a: "kept s (snd (auth_success s account))" for account using k by (simp add: auth_success_def)
  show "kept s (snd (verify_plain K env s e))"
    using f a by (simp add: verify_plain_def split: sum.splits option.splits)
  show "kept s (snd (login_username K s e))"
    using f k by (simp add: login_username_def split: option.splits)
  show "kept s (snd (login_password K env s u e))"
    using f a by (simp add: login_password_def split: option.splits)
  show "kept s (snd (verify_external K s e))"
    using f a by (simp add: verify_external_def Let_def split: sum.splits option.splits Resolution.splits)
  show "kept s (snd (oauth_bearer K env s i))"
    using f a by (simp add: oauth_bearer_def oauth_failure_def split: option.splits)
  show "kept s (snd (scram_client_first K env s e b))"
    using g k by (simp add: scram_client_first_def split: sum.splits option.splits prod.splits)
  show "kept s (snd (scram_client_final K s e srv cred acc))"
    using g k by (simp add: scram_client_final_def split: sum.splits option.splits)
qed

lemma auth_cmd_kept: "kept s (snd (auth K env s mech i))"
  by (auto simp: auth_def Let_def scram_begin_def split: option.splits Mechanism.splits
      intro: auth_kept kept_auth_updates)

lemma auth_line_kept:
  assumes "tls_active s"
  shows "kept s (snd (auth_line K env s l))"
proof -
  note k = kept_auth_updates [OF assms]
  have cancel: "kept s (s\<lparr>pending_scram := None, pending_login := None, pending_external := False\<rparr>)"
    using assms by (simp add: kept_def config_def)
  have e: "kept s (snd (verify_external K (s\<lparr>pending_external := False\<rparr>) l))"
    by (rule kept_trans [OF k(5) auth_kept(6)]) (simp add: assms)
  have u: "kept s (snd (login_username K (s\<lparr>pending_login := None\<rparr>) l))"
    by (rule kept_trans [OF k(4) auth_kept(4)]) (simp add: assms)
  have p: "kept s (snd (login_password K env (s\<lparr>pending_login := None\<rparr>) user l))" for user
    by (rule kept_trans [OF k(4) auth_kept(5)]) (simp add: assms)
  have f: "kept s (snd (scram_client_first K env (s\<lparr>pending_scram := None\<rparr>) l b))" for b
    by (rule kept_trans [OF k(3) auth_kept(8)]) (simp add: assms)
  have n: "kept s (snd (scram_client_final K (s\<lparr>pending_scram := None\<rparr>) l srv cred acc))" for srv cred acc
    by (rule kept_trans [OF k(3) auth_kept(9)]) (simp add: assms)
  show ?thesis
    using cancel e u p f n auth_kept(3) [OF assms]
    by (simp add: auth_line_def split: option.splits PendingScram.splits)
qed

lemma mail_from_kept: "kept s (snd (mail_from K env s rp n rtls))"
proof -
  obtain lim s1 where 1: "rate_limited env s = (lim, s1)" by fastforce
  obtain full s2 where 2: "disk_full env s1 = (full, s2)" by fastforce
  have s1: "kept s s1"
    using 1 by (auto simp: rate_limited_def split: option.splits prod.splits)
  moreover have "kept s1 s2"
    using 2 by (auto simp: disk_full_def split: option.splits prod.splits)
  ultimately have s2: "kept s s2" by (rule kept_trans)
  show ?thesis
    using 1 2 s1 s2 kept_state [OF s2] by (simp add: mail_from_def Let_def split: option.splits)
qed

lemma command_line_kept: "kept s (snd (command_line K env s l))"
proof -
  have "kept s (snd (apply_command K env s c))" for c
    by (cases c) (auto simp: mail_from_kept auth_cmd_kept greet_def Let_def rcpt_to_def bdat_def
        split: sum.splits State.splits)
  then show ?thesis by (simp add: command_line_def split: sum.splits ParseError.splits)
qed

lemma data_kept: "kept s (snd (data_line s l))" "kept s (snd (bdat_chunk s d b))"
  by (auto simp: data_line_def bdat_chunk_def Let_def reset_def split: State.splits)

fun plain_inv :: "Session \<Rightarrow> Expect \<times> Session \<Rightarrow> bool" where
  "plain_inv s0 (m, s) \<longleftrightarrow> config s = config s0
     \<and> (tls_active s \<or> authenticated s = None \<and> auth_failures s = 0 \<and> no_pending s
          \<and> tls_available s = tls_available s0 \<and> client_identity s = client_identity s0 \<and> \<not> tls_active s0)"

lemma plain_inv_kept: "plain_inv s0 (m, s) \<Longrightarrow> kept s s' \<Longrightarrow> plain_inv s0 (m', s')"
  by (auto simp: kept_def no_pending_def)

lemma config_tls_started: "config (tls_started (set_client_identity i s)) = config s"
  by (simp add: config_def tls_started_def set_client_identity_def)

lemma drive_plain:
  assumes "session_inv K (m, s)" "plain_inv s0 (m, s)" "drive K (m, s) (env, i) = Some (a, ms)"
  shows "plain_inv s0 ms"
  using assms(3)
proof (cases rule: drive_cases)
  case (command l)
  then show ?thesis using plain_inv_kept [OF assms(2) command_line_kept] by (auto simp: after_step_def)
next
  case (auth l)
  then have "tls_active s" using assms(1) by simp
  then show ?thesis using auth plain_inv_kept [OF assms(2) auth_line_kept] by (auto simp: after_step_def)
next
  case (more_data l s')
  then show ?thesis using plain_inv_kept [OF assms(2) data_kept(1)] by (metis snd_conv)
next
  case (end_data l act s')
  then show ?thesis using plain_inv_kept [OF assms(2) data_kept(1) [of s l]] by (auto simp: after_step_def)
next
  case (chunk d n is_last)
  then show ?thesis using plain_inv_kept [OF assms(2) data_kept(2)] by (auto simp: after_step_def)
next
  case (tls ident)
  then show ?thesis using assms(2) config_tls_started by (simp add: tls_started_def)
next
  case (shared l g)
  then show ?thesis using plain_inv_kept [OF assms(2) kept_updates(6)] by simp
qed

interpretation smtp_plain: machine_invariant "drive K" "\<lambda>ms. session_inv K ms \<and> plain_inv s0 ms" "output_ok K"
  for K s0
proof unfold_locales
  fix ms i a ms'
  assume "session_inv K ms \<and> plain_inv s0 ms" "drive K ms i = Some (a, ms')"
  then show "session_inv K ms' \<and> plain_inv s0 ms'" "output_ok K ms a"
    using drive_ok [of K "fst ms" "snd ms" "fst i" "snd i" a ms']
      drive_plain [of K "fst ms" "snd ms" s0 "fst i" "snd i" a ms'] by (simp_all add: output_ok_def)
qed

lemma run_plain_inv:
  assumes "run_machine (drive K) (ExpCommand, s0) evs = Some (outs, ms)" "fresh s0"
  shows "plain_inv s0 ms"
proof -
  have "plain_inv s0 (ExpCommand, s0)" using assms(2) by (auto simp: fresh_def)
  then show ?thesis
    using smtp_plain.run_inv [OF assms(1)] fresh_inv [OF assms(2)] by blast
qed

lemma run_directory:
  assumes "run_machine (drive K) (ExpCommand, s0) evs = Some (outs, m, s)" "fresh s0"
  shows "directory s = directory s0" "auth_protocol s = auth_protocol s0"
proof -
  have "config s = config s0" using run_plain_inv [OF assms] by simp
  then have "directory (config s) = directory (config s0)" "auth_protocol (config s) = auth_protocol (config s0)"
    by simp_all
  then show "directory s = directory s0" "auth_protocol s = auth_protocol s0" by (simp_all add: config_def)
qed

text \<open>How witnesses evaluate a run: the size limit is compared as an integer.\<close>

lemma max_size_code [code_unfold]:
  "MAX_MESSAGE_SIZE < n \<longleftrightarrow> 26214400 < int n" "n \<le> MAX_MESSAGE_SIZE \<longleftrightarrow> int n \<le> 26214400"
  by (simp_all add: MAX_MESSAGE_SIZE_def)

lemma show_max_size [code_unfold]: "show_nat MAX_MESSAGE_SIZE = ''26214400''"
  unfolding MAX_MESSAGE_SIZE_def by (simp add: show_nat.simps) code_simp

definition sample_env :: Env where
  "sample_env = \<lparr>env_now = 100, env_instant = 0, env_random = None, env_probe = None\<rparr>"

definition sample_session :: Session where
  "sample_session = with_directory sample_directory (with_tls_available (new_session ''mx.b.org''))"

definition lines_in :: "str list \<Rightarrow> (Env \<times> Input) list" where
  "lines_in = map (\<lambda>l. (sample_env, InLine l))"

definition inbound_run :: "(Env \<times> Input) list" where
  "inbound_run = lines_in [''EHLO c.org'', ''MAIL FROM:<a@c.org>'', ''RCPT TO:<Bob@b.org>'', ''DATA'', ''..hi'']"

definition submission_run :: "(Env \<times> Input) list" where
  "submission_run = lines_in [''EHLO c.org'', ''AUTH PLAIN aagcgpgcaahahh'',
     ''MAIL FROM:<bob@b.org>'', ''RCPT TO:<x@c.org>'', ''DATA'']"

definition end_of :: "Session \<Rightarrow> (Env \<times> Input) list \<Rightarrow> Expect \<times> Session" where
  "end_of s evs = snd (the (run_machine (drive sample_crates) (ExpCommand, s) evs))"

lemma end_of_run:
  "\<not> Option.is_none (run_machine (drive sample_crates) (ExpCommand, s) evs) \<Longrightarrow>
   \<exists>outs. run_machine (drive sample_crates) (ExpCommand, s) evs = Some (outs, fst (end_of s evs), snd (end_of s evs))"
  by (cases "run_machine (drive sample_crates) (ExpCommand, s) evs") (auto simp: end_of_def)

lemma sample_fresh: "fresh sample_session" "fresh (with_tls_active sample_session)"
  by (simp_all add: fresh_def no_pending_def sample_session_def with_directory_def
      with_tls_available_def new_session_def with_tls_active_def)

section \<open>What every accepted message satisfies\<close>

lemma resolve_NotLocal_iff:
  "resolve d a = NotLocal \<longleftrightarrow> effective_domain d (domain a) \<notin> set (domains d)"
  by (simp add: resolve_def Let_def split: option.splits)

text \<open>C5. No open relay: whatever an unauthenticated client sends, and however it is interleaved
  with other connections' writes to the shared limiter and guard, every recipient of a message the
  session accepts is a parsed address in a domain the server serves (directly or by a domain alias)
  and names an account or an alias.\<close>

theorem session_no_open_relay:
  assumes "run_machine (drive K) (ExpCommand, s0) evs = Some (outs, m, s)" "fresh s0"
    "drive K (m, s) ev = Some (Some (Deliver r msg), ms)"
    "authenticated s = None" "rcpt \<in> set (recipients msg)"
  shows "\<exists>raw a. parse_address K raw = Inr a \<and> rcpt = address_to_string a
     \<and> effective_domain (directory s0) (domain a) \<in> set (domains (directory s0))
     \<and> ((\<exists>account. resolve (directory s0) a = Account account) \<or> (\<exists>members. resolve (directory s0) a = Alias members))"
proof -
  have "rcpt_ok K s rcpt"
    using run_session_output [OF assms(1-3)] assms(5) by (simp add: message_ok_def list_all_iff)
  then obtain raw a where a: "parse_address K raw = Inr a" "rcpt = address_to_string a"
    "resolve (directory s0) a \<noteq> UnknownUser" "resolve (directory s0) a \<noteq> NotLocal"
    using assms(4) run_directory [OF assms(1,2)] by (auto simp: rcpt_ok_def)
  then have "effective_domain (directory s0) (domain a) \<in> set (domains (directory s0))"
    by (simp add: resolve_NotLocal_iff)
  then show ?thesis
    using a by (cases "resolve (directory s0) a") auto
qed

text \<open>Two sample runs and the delivery that ends each.\<close>

definition inbound_message :: AcceptedMessage where
  "inbound_message = \<lparr>reverse_path = ''a@c.org'', recipients = [''Bob@b.org''], msg_data = ''.hi'' @ crlf,
     require_tls = False, mailbox = None, no_dsn = []\<rparr>"

definition submitted_message :: AcceptedMessage where
  "submitted_message = \<lparr>reverse_path = ''bob@b.org'', recipients = [''x@c.org''], msg_data = [],
     require_tls = False, mailbox = None, no_dsn = []\<rparr>"

fun delivered :: "Action option \<Rightarrow> AcceptedMessage option" where
  "delivered (Some (Deliver r m)) = Some m"
| "delivered _ = None"

lemma delivered_SomeE:
  assumes "delivered a = Some m"
  obtains r where "a = Some (Deliver r m)"
  using assms by (cases a rule: delivered.cases) auto

definition delivers :: "Session \<Rightarrow> (Env \<times> Input) list \<Rightarrow> str option \<Rightarrow> AcceptedMessage \<Rightarrow> bool" where
  "delivers s evs account msg =
     (case run_machine (drive sample_crates) (ExpCommand, s) evs of
        None \<Rightarrow> False
      | Some (outs, m, s') \<Rightarrow> authenticated s' = account \<and>
          (case drive sample_crates (m, s') (sample_env, InLine ''.'') of
             Some (a, ms') \<Rightarrow> delivered a = Some msg
           | None \<Rightarrow> False))"

lemma deliversE:
  assumes "delivers s evs account msg"
  obtains outs r ms' where
    "run_machine (drive sample_crates) (ExpCommand, s) evs = Some (outs, fst (end_of s evs), snd (end_of s evs))"
    "drive sample_crates (fst (end_of s evs), snd (end_of s evs)) (sample_env, InLine ''.'') = Some (Some (Deliver r msg), ms')"
    "authenticated (snd (end_of s evs)) = account"
  using assms
  by (auto simp: delivers_def end_of_def split: option.splits elim!: delivered_SomeE)

lemma sample_delivers:
  "delivers sample_session inbound_run None inbound_message"
  "delivers (with_tls_active sample_session) submission_run (Some ''bob'') submitted_message"
  by code_simp+

theorem session_no_open_relay_witness:
  "\<exists>raw a. parse_address sample_crates raw = Inr a \<and> ''Bob@b.org'' = address_to_string a
     \<and> effective_domain (directory sample_session) (domain a) \<in> set (domains (directory sample_session))
     \<and> ((\<exists>account. resolve (directory sample_session) a = Account account)
        \<or> (\<exists>members. resolve (directory sample_session) a = Alias members))"
proof (rule deliversE [OF sample_delivers(1)])
  fix outs r ms'
  assume "run_machine (drive sample_crates) (ExpCommand, sample_session) inbound_run
      = Some (outs, fst (end_of sample_session inbound_run), snd (end_of sample_session inbound_run))"
    and "drive sample_crates (fst (end_of sample_session inbound_run), snd (end_of sample_session inbound_run))
      (sample_env, InLine ''.'') = Some (Some (Deliver r inbound_message), ms')"
    and "authenticated (snd (end_of sample_session inbound_run)) = None"
  then show ?thesis
    by (rule session_no_open_relay [OF _ sample_fresh(1)]) (simp add: inbound_message_def)
qed

text \<open>C6. Sender authenticity: a message accepted from an authenticated session has a reverse path
  that parses to an address the authenticated account owns; the null path and other users' addresses
  never pass.\<close>

theorem session_sender_owned:
  assumes "run_machine (drive K) (ExpCommand, s0) evs = Some (outs, m, s)" "fresh s0"
    "drive K (m, s) ev = Some (Some (Deliver r msg), ms)" "authenticated s = Some account"
  shows "\<exists>a. parse_address K (reverse_path msg) = Inr a \<and> owns_address (directory s0) account a"
  using run_session_output [OF assms(1-3)] assms(4) run_directory [OF assms(1,2)]
  by (auto simp: message_ok_def sender_ok_def)

theorem session_sender_owned_witness:
  "\<exists>a. parse_address sample_crates ''bob@b.org'' = Inr a
     \<and> owns_address (directory (with_tls_active sample_session)) ''bob'' a"
proof (rule deliversE [OF sample_delivers(2)])
  let ?s = "with_tls_active sample_session"
  fix outs r ms'
  assume "run_machine (drive sample_crates) (ExpCommand, ?s) submission_run
      = Some (outs, fst (end_of ?s submission_run), snd (end_of ?s submission_run))"
    and "drive sample_crates (fst (end_of ?s submission_run), snd (end_of ?s submission_run))
      (sample_env, InLine ''.'') = Some (Some (Deliver r submitted_message), ms')"
    and "authenticated (snd (end_of ?s submission_run)) = Some ''bob''"
  then have "\<exists>a. parse_address sample_crates (reverse_path submitted_message) = Inr a
      \<and> owns_address (directory ?s) ''bob'' a"
    by (rule session_sender_owned [OF _ sample_fresh(2)])
  then show ?thesis by (simp add: submitted_message_def)
qed

text \<open>C26. Resource bounds of an accepted message: between one and 100 recipients, at most 25 MiB of
  data, the recipients without failure notice among the recipients, and a REQUIRETLS message only
  over TLS.\<close>

theorem session_message_bounds:
  assumes "run_machine (drive K) (ExpCommand, s0) evs = Some (outs, m, s)" "fresh s0"
    "drive K (m, s) ev = Some (Some (Deliver r msg), ms)"
  shows "1 \<le> length (recipients msg) \<and> length (recipients msg) \<le> 100
     \<and> length (msg_data msg) \<le> 26214400 \<and> set (no_dsn msg) \<subseteq> set (recipients msg)
     \<and> (require_tls msg \<longrightarrow> tls_active s)"
  using run_session_output [OF assms]
  by (auto simp: message_ok_def MAX_RECIPIENTS_def MAX_MESSAGE_SIZE_def Suc_le_eq)

theorem session_message_bounds_witness:
  "1 \<le> length (recipients inbound_message) \<and> length (recipients inbound_message) \<le> 100
     \<and> length (msg_data inbound_message) \<le> 26214400
     \<and> set (no_dsn inbound_message) \<subseteq> set (recipients inbound_message)"
  by (rule deliversE [OF sample_delivers(1)]) (use session_message_bounds [OF _ sample_fresh(1)] in blast)

section \<open>What holds throughout a session\<close>

text \<open>C7. A session is authenticated only inside TLS and only as an account that may use this
  listener's protocol, whatever the mechanism (PLAIN, LOGIN, EXTERNAL, OAUTHBEARER, SCRAM).\<close>

theorem session_auth_protected:
  assumes "run_machine (drive K) (ExpCommand, s0) evs = Some (outs, m, s)" "fresh s0"
    "authenticated s = Some account"
  shows "tls_active s \<and> is_protocol_allowed (directory s0) account (auth_protocol s0)"
  using run_session_inv [OF assms(1,2)] assms(3) run_directory [OF assms(1,2)]
  by (simp add: auth_ok_def allowed_def)

theorem session_auth_protected_witness:
  "tls_active (snd (end_of (with_tls_active sample_session) submission_run))
   \<and> is_protocol_allowed (directory (with_tls_active sample_session)) ''bob''
       (auth_protocol (with_tls_active sample_session))"
  by (rule deliversE [OF sample_delivers(2)])
    (rule session_auth_protected [OF _ sample_fresh(2)])

text \<open>The failure counter never wraps: a session that still takes input has at most two failed
  attempts, the third one closes it.\<close>

lemma session_auth_failures:
  assumes "run_machine (drive K) (ExpCommand, s0) evs = Some (outs, m, s)" "fresh s0"
  shows "unat (auth_failures s) \<le> 3 \<and> (m \<noteq> ExpClosed \<longrightarrow> unat (auth_failures s) \<le> 2)"
  using run_session_inv [OF assms]
  by (cases m) (auto simp: word_le_nat_alt word_less_nat_alt)

definition failing_run :: "(Env \<times> Input) list" where
  "failing_run = lines_in [''EHLO c.org'', ''AUTH PLAIN aagcgpgcaahahb'',
     ''AUTH LOGIN'', ''!'', ''AUTH SCRAM-SHA-256'', ''*'']"

definition fails_twice :: bool where
  "fails_twice =
     (case run_machine (drive sample_crates) (ExpCommand, with_tls_active sample_session) failing_run of
        None \<Rightarrow> False
      | Some (outs, m, s) \<Rightarrow> m = ExpCommand \<and> auth_failures s = 2)"

text \<open>C14. STARTTLS leaves nothing of the plaintext phase behind: after the upgrade of a plaintext
  session the session is the one the listener configured, inside TLS and with the certificate
  identity of the handshake, apart from what other connections also write (rate limiter, guard).\<close>

theorem starttls_forgets:
  assumes "run_machine (drive K) (ExpCommand, s0) evs = Some (outs, ExpTls, s)" "fresh s0" "\<not> tls_active s"
    "drive K (ExpTls, s) (env, InTls ident) = Some (a, m', s')"
  shows "s' = s0\<lparr>tls_available := False, tls_active := True, client_identity := ident,
    send_limiter := send_limiter s, disk_guard := disk_guard s\<rparr>"
proof -
  let ?f = "\<lambda>x. x\<lparr>tls_active := True, client_identity := ident, send_limiter := send_limiter s, disk_guard := disk_guard s\<rparr>"
  have p: "config s = config s0" "authenticated s = None" "auth_failures s = 0" "no_pending s"
    using run_plain_inv [OF assms(1,2)] assms(3) by auto
  have "s' = tls_started (set_client_identity ident s)"
    using assms(4) by (simp add: drive_def)
  also have "\<dots> = ?f (config s)"
    using p(2-) by (cases s) (simp add: tls_started_def set_client_identity_def config_def no_pending_def)
  also have "\<dots> = ?f (config s0)" using p by simp
  also have "\<dots> = s0\<lparr>tls_available := False, tls_active := True, client_identity := ident,
      send_limiter := send_limiter s, disk_guard := disk_guard s\<rparr>"
    using assms(2) by (cases s0) (simp add: fresh_def config_def no_pending_def)
  finally show ?thesis .
qed

definition starttls_ready :: bool where
  "starttls_ready =
     (case run_machine (drive sample_crates) (ExpCommand, sample_session) (lines_in [''EHLO c'', ''STARTTLS'']) of
        None \<Rightarrow> False
      | Some (outs, m, s) \<Rightarrow> m = ExpTls \<and> \<not> tls_active s \<and> helo_domain s = Some ''c'')"

theorem starttls_forgets_witness:
  "\<exists>outs s. run_machine (drive sample_crates) (ExpCommand, sample_session) (lines_in [''EHLO c'', ''STARTTLS''])
        = Some (outs, ExpTls, s)
     \<and> helo_domain s = Some ''c''
     \<and> tls_started (set_client_identity None s)
        = sample_session\<lparr>tls_available := False, tls_active := True, client_identity := None,
            send_limiter := send_limiter s, disk_guard := disk_guard s\<rparr>"
proof -
  have "starttls_ready" by code_simp
  then obtain outs s where run: "run_machine (drive sample_crates) (ExpCommand, sample_session)
      (lines_in [''EHLO c'', ''STARTTLS'']) = Some (outs, ExpTls, s)" "\<not> tls_active s" "helo_domain s = Some ''c''"
    by (auto simp: starttls_ready_def split: option.splits)
  moreover have "drive sample_crates (ExpTls, s) (sample_env, InTls None)
      = Some (None, ExpCommand, tls_started (set_client_identity None s))"
    by (simp add: drive_def)
  ultimately show ?thesis using starttls_forgets [OF run(1) sample_fresh(1) run(2)] by blast
qed



end
