(* ===== verification/Session_Data.thy ===== *)
theory Session_Data
  imports Session_Runs
begin

text \<open>
  Message data through a session (\<^verbatim>\<open>data_line\<close> in \<^verbatim>\<open>src/src/smtp/session/mod.rs\<close>,
  \<^verbatim>\<open>bdat_chunk\<close> in \<^verbatim>\<open>src/src/smtp/session/bdat.rs\<close>): both ways of transferring a message deliver
  exactly the octets that were sent, up to the size limit.
\<close>

section \<open>DATA\<close>

text \<open>The sender's side of DATA, RFC 5321 section 4.5.2: a line that begins with a dot gets one more.\<close>

definition dot_stuff :: "bytes \<Rightarrow> bytes" where
  "dot_stuff l = (if l \<noteq> [] \<and> hd l = CHR ''.'' then CHR ''.'' # l else l)"

definition text_of :: "bytes list \<Rightarrow> bytes" where
  "text_of ls = concat (map (\<lambda>l. l @ crlf) ls)"

lemma dot_stuff_facts:
  "dot_stuff l \<noteq> ''.''"
  "(case strip_prefix ''.'' (dot_stuff l) of Some r \<Rightarrow> r | None \<Rightarrow> dot_stuff l) = l"
  by (cases l; auto simp: dot_stuff_def)+

lemma data_lines_run:
  assumes "state s = ReceivingData rp rcpts nodsn (length body) body rtls False"
    "length body + length (text_of ls) \<le> MAX_MESSAGE_SIZE"
  shows "run_machine (drive K) (ExpData, s) (map (\<lambda>l. (env, InLine (dot_stuff l))) ls)
    = Some (replicate (length ls) None, ExpData,
        s\<lparr>state := ReceivingData rp rcpts nodsn (length (body @ text_of ls)) (body @ text_of ls) rtls False\<rparr>)"
  using assms
proof (induction ls arbitrary: s body)
  case Nil
  then show ?case by (cases s) (simp add: text_of_def)
next
  case (Cons l ls)
  let ?s = "s\<lparr>state := ReceivingData rp rcpts nodsn (length (body @ l @ crlf)) (body @ l @ crlf) rtls False\<rparr>"
  have "length body + (length l + 2) \<le> MAX_MESSAGE_SIZE"
    using Cons.prems(2) by (simp add: text_of_def crlf_def)
  then have "data_line s (dot_stuff l) = (None, ?s)"
    using Cons.prems(1) dot_stuff_facts [of l] by (simp add: data_line_def Let_def crlf_def)
  then have "drive K (ExpData, s) (env, InLine (dot_stuff l)) = Some (None, ExpData, ?s)"
    by (simp add: drive_def)
  then show ?case
    using Cons.IH [of ?s "body @ l @ crlf"] Cons.prems by (simp add: text_of_def)
qed

text \<open>C16. DATA is transparent: the dot-stuffed lines of a message followed by the final dot deliver
  exactly those lines, each with CRLF, to exactly the recipients of the transaction, when they are
  at most 25 MiB.\<close>

theorem data_transparent:
  assumes "state s = ReceivingData rp rcpts nodsn 0 [] rtls False"
    "length (text_of ls) \<le> 26214400"
  shows "run_machine (drive K) (ExpData, s) (map (\<lambda>l. (env, InLine (dot_stuff l))) ls @ [(env, InLine ''.'')])
    = Some (replicate (length ls) None @ [Some (Deliver reply_ok250
        \<lparr>reverse_path = rp, recipients = rcpts, msg_data = text_of ls, require_tls = rtls, mailbox = None,
         no_dsn = nodsn\<rparr>)], ExpCommand, s\<lparr>state := Greeted\<rparr>)"
proof -
  have "length (text_of ls) \<le> MAX_MESSAGE_SIZE" using assms(2) by (simp add: MAX_MESSAGE_SIZE_def)
  then show ?thesis
    using data_lines_run [of s rp rcpts nodsn "[]" rtls ls K env] assms
    by (simp add: run_machine_append drive_def data_line_def Let_def after_step_def)
qed

theorem data_transparent_witness:
  "run_machine (drive sample_crates)
      (ExpData, sample_session\<lparr>state := ReceivingData ''a@c'' [''b@d''] [] 0 [] False False\<rparr>)
      (map (\<lambda>l. (sample_env, InLine (dot_stuff l))) [''.x'', []] @ [(sample_env, InLine ''.'')])
    = Some ([None, None, Some (Deliver reply_ok250
        \<lparr>reverse_path = ''a@c'', recipients = [''b@d''], msg_data = ''.x'' @ crlf @ crlf, require_tls = False,
         mailbox = None, no_dsn = []\<rparr>)], ExpCommand, sample_session\<lparr>state := Greeted\<rparr>)"
  using data_transparent [where s = "sample_session\<lparr>state := ReceivingData ''a@c'' [''b@d''] [] 0 [] False False\<rparr>"
      and ls = "[''.x'', []]" and K = sample_crates and env = sample_env and rp = "''a@c''" and rcpts = "[''b@d'']"
      and nodsn = "[]" and rtls = False]
  by (simp add: text_of_def crlf_def)

text \<open>An oversize message: the size is counted to the end, nothing is delivered.\<close>

lemma data_oversize_line:
  assumes "state s = ReceivingData rp rcpts nodsn n body rtls False" "dot_stuff l = x"
  obtains body' where "data_line s x
    = (None, s\<lparr>state := ReceivingData rp rcpts nodsn (n + (length l + 2)) body' rtls False\<rparr>)"
  using assms dot_stuff_facts [of l] by (auto simp: data_line_def Let_def)

lemma data_size_run:
  assumes "state s = ReceivingData rp rcpts nodsn n body rtls False"
  shows "\<exists>body'. run_machine (drive K) (ExpData, s) (map (\<lambda>l. (env, InLine (dot_stuff l))) ls)
    = Some (replicate (length ls) None, ExpData,
        s\<lparr>state := ReceivingData rp rcpts nodsn (n + length (text_of ls)) body' rtls False\<rparr>)"
  using assms
proof (induction ls arbitrary: s n body)
  case Nil
  then show ?case by (cases s) (auto simp: text_of_def)
next
  case (Cons l ls)
  obtain b where b: "data_line s (dot_stuff l)
      = (None, s\<lparr>state := ReceivingData rp rcpts nodsn (n + (length l + 2)) b rtls False\<rparr>)"
    using data_oversize_line [OF Cons.prems refl] by blast
  let ?s = "s\<lparr>state := ReceivingData rp rcpts nodsn (n + (length l + 2)) b rtls False\<rparr>"
  obtain b' where b': "run_machine (drive K) (ExpData, ?s) (map (\<lambda>l. (env, InLine (dot_stuff l))) ls)
      = Some (replicate (length ls) None, ExpData,
          ?s\<lparr>state := ReceivingData rp rcpts nodsn (n + (length l + 2) + length (text_of ls)) b' rtls False\<rparr>)"
    using Cons.IH [of ?s "n + (length l + 2)" b] by auto
  have "drive K (ExpData, s) (env, InLine (dot_stuff l)) = Some (None, ExpData, ?s)"
    using b by (simp add: drive_def)
  then show ?case
    using b' by (intro exI [of _ b']) (simp add: text_of_def crlf_def add.assoc)
qed

text \<open>A message over 25 MiB is refused with 552 when its final dot arrives, and is not delivered.\<close>

lemma data_oversize_refused:
  assumes "state s = ReceivingData rp rcpts nodsn 0 [] rtls False" "26214400 < length (text_of ls)"
  shows "run_machine (drive K) (ExpData, s) (map (\<lambda>l. (env, InLine (dot_stuff l))) ls @ [(env, InLine ''.'')])
    = Some (replicate (length ls) None @ [Some (Continue (single 552 ''message exceeds maximum size''))],
        ExpCommand, s\<lparr>state := Greeted\<rparr>)"
proof -
  have "MAX_MESSAGE_SIZE < length (text_of ls)" using assms(2) by (simp add: MAX_MESSAGE_SIZE_def)
  moreover obtain b where "run_machine (drive K) (ExpData, s) (map (\<lambda>l. (env, InLine (dot_stuff l))) ls)
    = Some (replicate (length ls) None, ExpData,
        s\<lparr>state := ReceivingData rp rcpts nodsn (length (text_of ls)) b rtls False\<rparr>)"
    using data_size_run [OF assms(1), of K env ls] by auto
  ultimately show ?thesis
    by (simp add: run_machine_append drive_def data_line_def Let_def after_step_def)
qed

section \<open>BDAT\<close>

text \<open>The inputs of a BDAT transfer: for each chunk its command line and its octets, the last one
  marked.\<close>

fun bdat_inputs :: "Env \<Rightarrow> bytes list \<Rightarrow> (Env \<times> Input) list" where
  "bdat_inputs env [] = []"
| "bdat_inputs env (c # cs) =
     (env, InLine (print_command (Bdat (length c) (cs = [])))) # (env, InChunk c) # bdat_inputs env cs"

lemma show_nat_length_le: "n < 10 ^ Suc k \<Longrightarrow> length (show_nat n) \<le> Suc k"
proof (induction k arbitrary: n)
  case 0
  then show ?case by (simp add: show_nat.simps [of n])
next
  case (Suc k)
  have "n div 10 < 10 ^ Suc k" using Suc.prems by (simp add: less_mult_imp_div_less)
  then show ?case using Suc.IH [of "n div 10"] by (simp add: show_nat.simps [of n])
qed

lemma print_bdat_short:
  assumes "n \<le> MAX_MESSAGE_SIZE"
  shows "length (print_command (Bdat n l)) \<le> MAX_COMMAND_LINE"
proof -
  have "length (show_nat n) \<le> 8"
    using assms show_nat_length_le [of n 7] by (simp add: MAX_MESSAGE_SIZE_def)
  then show ?thesis by (simp add: MAX_COMMAND_LINE_def)
qed

lemma bdat_command:
  assumes "n \<le> MAX_MESSAGE_SIZE"
  shows "drive K (ExpCommand, s) (env, InLine (print_command (Bdat n l)))
    = Some (Some (CollectChunk n l), ExpChunk n l, s)"
proof -
  have "parse_command (print_command (Bdat n l)) = Inr (Bdat n l)"
    using assms by (intro parse_print_bdat print_bdat_short) (simp_all add: MAX_MESSAGE_SIZE_def)
  then show ?thesis
    using assms by (simp add: drive_def after_step_def command_line_def bdat_def)
qed

lemma bdat_chunks_run:
  assumes "state s = ReceivingData rp rcpts nodsn (length body) body rtls ch" "cs \<noteq> []"
    "length body + length (concat cs) \<le> MAX_MESSAGE_SIZE"
  shows "\<exists>outs. run_machine (drive K) (ExpCommand, s) (bdat_inputs env cs)
    = Some (outs @ [Some (Deliver reply_ok250
        \<lparr>reverse_path = rp, recipients = rcpts, msg_data = body @ concat cs, require_tls = rtls,
         mailbox = None, no_dsn = nodsn\<rparr>)], ExpCommand, s\<lparr>state := Greeted\<rparr>)
      \<and> (\<forall>a \<in> set outs. delivered a = None)"
  using assms
proof (induction cs arbitrary: s body ch)
  case (Cons c cs)
  have le: "length c \<le> MAX_MESSAGE_SIZE" "length body + length c \<le> MAX_MESSAGE_SIZE"
    using Cons.prems(3) by auto
  note cmd = bdat_command [OF le(1), of K s env "cs = []"]
  show ?case
  proof (cases "cs = []")
    case True
    then have "drive K (ExpChunk (length c) True, s) (env, InChunk c)
        = Some (Some (Deliver reply_ok250 \<lparr>reverse_path = rp, recipients = rcpts, msg_data = body @ c,
            require_tls = rtls, mailbox = None, no_dsn = nodsn\<rparr>), ExpCommand, s\<lparr>state := Greeted\<rparr>)"
      using Cons.prems(1) le by (simp add: drive_def after_step_def bdat_chunk_def Let_def)
    then show ?thesis
      using True cmd by (intro exI [of _ "[Some (CollectChunk (length c) True)]"]) simp
  next
    case False
    let ?s = "s\<lparr>state := ReceivingData rp rcpts nodsn (length (body @ c)) (body @ c) rtls True\<rparr>"
    have chunk: "drive K (ExpChunk (length c) False, s) (env, InChunk c)
        = Some (Some (Continue (single 250 ''2.0.0 chunk received'')), ExpCommand, ?s)"
      using Cons.prems(1) le by (simp add: drive_def after_step_def bdat_chunk_def Let_def)
    obtain outs where outs: "run_machine (drive K) (ExpCommand, ?s) (bdat_inputs env cs)
        = Some (outs @ [Some (Deliver reply_ok250 \<lparr>reverse_path = rp, recipients = rcpts,
            msg_data = (body @ c) @ concat cs, require_tls = rtls, mailbox = None, no_dsn = nodsn\<rparr>)],
          ExpCommand, ?s\<lparr>state := Greeted\<rparr>)" "\<forall>a \<in> set outs. delivered a = None"
      using Cons.IH [of ?s "body @ c" True] False Cons.prems(3) by auto
    then show ?thesis
      using False cmd chunk
      by (intro exI [of _ "[Some (CollectChunk (length c) False),
            Some (Continue (single 250 ''2.0.0 chunk received''))] @ outs"]) simp
  qed
qed simp

text \<open>C17. BDAT is transparent: a message sent in any non-empty sequence of chunks, of at most 25 MiB
  together, is delivered once, after the last chunk, as the concatenation of the chunks.\<close>

theorem bdat_transparent:
  assumes "state s = ReceivingData rp rcpts nodsn 0 [] rtls ch" "cs \<noteq> []" "length (concat cs) \<le> 26214400"
  shows "\<exists>outs. run_machine (drive K) (ExpCommand, s) (bdat_inputs env cs)
    = Some (outs @ [Some (Deliver reply_ok250
        \<lparr>reverse_path = rp, recipients = rcpts, msg_data = concat cs, require_tls = rtls,
         mailbox = None, no_dsn = nodsn\<rparr>)], ExpCommand, s\<lparr>state := Greeted\<rparr>)
      \<and> (\<forall>a \<in> set outs. delivered a = None)"
proof -
  have "length (concat cs) \<le> MAX_MESSAGE_SIZE" using assms(3) by (simp add: MAX_MESSAGE_SIZE_def)
  then show ?thesis
    using bdat_chunks_run [of s rp rcpts nodsn "[]" rtls ch cs K env] assms by simp
qed

theorem bdat_transparent_witness:
  "\<exists>outs. run_machine (drive sample_crates)
      (ExpCommand, sample_session\<lparr>state := ReceivingData ''a@c'' [''b@d''] [] 0 [] False False\<rparr>)
      (bdat_inputs sample_env [''.x'', [], ''y''])
    = Some (outs @ [Some (Deliver reply_ok250
        \<lparr>reverse_path = ''a@c'', recipients = [''b@d''], msg_data = ''.xy'', require_tls = False,
         mailbox = None, no_dsn = []\<rparr>)], ExpCommand, sample_session\<lparr>state := Greeted\<rparr>)
      \<and> list_all (\<lambda>a. delivered a = None) outs"
  using bdat_transparent [of "sample_session\<lparr>state := ReceivingData ''a@c'' [''b@d''] [] 0 [] False False\<rparr>"
      "''a@c''" "[''b@d'']" "[]" False False "[''.x'', [], ''y'']" sample_crates sample_env]
  by (simp add: list_all_iff)

end
