(* ===== verification/Net_Stream.thy ===== *)
theory Net_Stream
  imports Line_Framing
begin

text \<open>
  What a connection loop sees of the network: a list of events, each the outcome of one read or one TLS
  handshake. A list that ends is a connection that is torn down there, which also covers a failing
  write.
\<close>

text \<open>\<open>Rd []\<close> is the end of the stream.\<close>

datatype NetEvent = Rd bytes | ReadTimeout | ReadError | Handshake "str option" | HandshakeError

datatype Ending = Ended | IoError | Lost | Panicked

lemma next_line_clean:
  assumes "clean_line l"
  shows "next_line (feed new_decoder (l @ crlf @ x)) = (Inr (Some l), \<lparr>buffer = x\<rparr>)"
proof -
  have "frame (l @ CR # LF # x) = (Inr (Some l), x)"
    using assms by (simp add: frame_Some_iff)
  then show ?thesis
    by (simp add: next_line_frame feed_def new_decoder_def crlf_def)
qed

lemma next_line_new: "next_line new_decoder = (Inr None, new_decoder)"
  by (simp add: next_line_def new_decoder_def next_line_loop.simps)

end
