(* ===== verification/Smtp_Server.thy ===== *)
theory Smtp_Server
  imports Smtp_Delivery Session_Data Net_Stream
begin

text \<open>
  The connection loop of the SMTP server (\<^verbatim>\<open>smtp/server/run.rs\<close>, \<^verbatim>\<open>handle\<close> and \<^verbatim>\<open>read_chunk\<close> of
  \<^verbatim>\<open>smtp/server/mod.rs\<close>): it decodes lines, calls the session, reads BDAT chunks, delivers, upgrades to
  TLS and counts errors.

  The network is a list of events, each the outcome of one read or one TLS handshake; a list that ends
  is a connection that is torn down there, which also covers a failing write. The clock, random octets
  and other outside values of the \<open>n\<close>th call are \<open>E n\<close> and \<open>W n\<close>. The lemmas show that the loop makes
  the session take a run of \<^const>\<open>drive\<close>, so the theorems about sessions hold for every octet stream.
\<close>

definition MAX_ERROR_STREAK :: nat where "MAX_ERROR_STREAK = 20"

datatype Mode = ModeCommands | ModeData | ModeAuth

datatype Event = Sent Reply | Did Effect

record Conn =
  c_server :: Server
  c_session :: Session
  c_decoder :: LineDecoder
  c_mode :: Mode
  c_streak :: nat
  c_calls :: nat

text \<open>What the loop has besides its state: the crates, the outside values per call and the peer.\<close>

record World =
  w_crates :: crates
  w_verifier :: verifier
  w_psl :: suffix_list
  w_env :: "nat \<Rightarrow> Env"
  w_outside :: "nat \<Rightarrow> Outside"
  w_peer :: "IpAddr option"

section \<open>Reading a chunk\<close>

datatype ChunkRead = Chunk bytes LineDecoder "NetEvent list" | ChunkClosed | ChunkError | ChunkLost

fun read_chunk_loop :: "bytes \<Rightarrow> nat \<Rightarrow> LineDecoder \<Rightarrow> NetEvent list \<Rightarrow> ChunkRead" where
  "read_chunk_loop chunk n d [] = (if length chunk < n then ChunkLost else Chunk chunk d [])"
| "read_chunk_loop chunk n d (e # es) =
     (if length chunk < n then
        (case e of
           Rd bs \<Rightarrow>
             if bs = [] then ChunkClosed
             else (let need = n - length chunk in
                   if length bs \<le> need then read_chunk_loop (chunk @ bs) n d es
                   else read_chunk_loop (chunk @ take need bs) n (feed d (drop need bs)) es)
         | ReadTimeout \<Rightarrow> ChunkClosed
         | ReadError \<Rightarrow> ChunkError
         | _ \<Rightarrow> ChunkLost)
      else Chunk chunk d (e # es))"

definition read_chunk :: "LineDecoder \<Rightarrow> nat \<Rightarrow> NetEvent list \<Rightarrow> ChunkRead" where
  "read_chunk d n es = (let (chunk, d') = take_buffered d n in read_chunk_loop chunk n d' es)"

section \<open>One line\<close>

type_synonym outcome = "Event list \<times> (Ending + Conn \<times> NetEvent list)"

definition too_many_errors :: Reply where
  "too_many_errors = single 421 ''4.7.0 too many errors, closing connection''"

text \<open>The match on the action, after the chunk reads. The mode is \<^verbatim>\<open>Commands\<close> here.\<close>

definition dispatch :: "World \<Rightarrow> Conn \<Rightarrow> Action \<Rightarrow> NetEvent list \<Rightarrow> outcome" where
  "dispatch w c a es =
     (case a of
        Continue r \<Rightarrow>
          if reply_code r \<ge> 400 then
            (let c' = c\<lparr>c_streak := c_streak c + 1\<rparr> in
             if c_streak c' \<ge> MAX_ERROR_STREAK then ([Sent too_many_errors], Inl Ended)
             else ([Sent r], Inr (c', es)))
          else ([Sent r], Inr (c\<lparr>c_streak := 0\<rparr>, es))
      | CollectData r \<Rightarrow> ([Sent r], Inr (c\<lparr>c_mode := ModeData\<rparr>, es))
      | CollectChunk n l \<Rightarrow> ([], Inl Panicked)
      | CollectAuthResponse r \<Rightarrow> ([Sent r], Inr (c\<lparr>c_mode := ModeAuth\<rparr>, es))
      | Deliver r m \<Rightarrow>
          (case deliver_action (w_crates w) (w_verifier w) (w_psl w) (c_server c) (c_session c) (w_peer w)
                  (w_outside w (c_calls c)) r m of
             None \<Rightarrow> ([], Inl Panicked)
           | Some (effs, r', srv') \<Rightarrow> (map Did effs @ [Sent r'], Inr (c\<lparr>c_server := srv'\<rparr>, es)))
      | UpgradeTls r \<Rightarrow>
          if \<not> srv_tls (c_server c) then ([Sent (single 454 ''4.7.0 TLS not available'')], Inl Ended)
          else (case es of
                  Handshake ident # es' \<Rightarrow>
                    (let s = tls_started (set_client_identity ident (c_session c)) in
                     ([Sent r, Sent (greeting s)], Inr (c\<lparr>c_session := s, c_decoder := new_decoder\<rparr>, es')))
                | HandshakeError # es' \<Rightarrow> ([Sent r], Inl IoError)
                | _ \<Rightarrow> ([Sent r], Inl Lost))
      | Close r \<Rightarrow> ([Sent r], Inl Ended))"

text \<open>The loop that resolves \<^verbatim>\<open>CollectChunk\<close> runs its body at most once, since \<^verbatim>\<open>bdat_chunk\<close> never asks for
  another chunk (\<open>bdat_chunk_terminal\<close> below).\<close>

definition act_on :: "World \<Rightarrow> Conn \<Rightarrow> Action \<Rightarrow> NetEvent list \<Rightarrow> outcome" where
  "act_on w c a es =
     (let c = c\<lparr>c_mode := ModeCommands, c_calls := c_calls c + 1\<rparr> in
      case a of
        CollectChunk n l \<Rightarrow>
          (case read_chunk (c_decoder c) n es of
             Chunk chunk d es' \<Rightarrow>
               (let (a', s') = bdat_chunk (c_session c) chunk l
                in dispatch w (c\<lparr>c_session := s', c_decoder := d\<rparr>) a' es')
           | ChunkClosed \<Rightarrow> ([], Inl Ended)
           | ChunkError \<Rightarrow> ([], Inl IoError)
           | ChunkLost \<Rightarrow> ([], Inl Lost))
      | _ \<Rightarrow> dispatch w c a es)"

definition on_line :: "World \<Rightarrow> Conn \<Rightarrow> bytes \<Rightarrow> NetEvent list \<Rightarrow> outcome" where
  "on_line w c line es =
     (if c_mode c = ModeData then
        (case data_line (c_session c) line of
           (None, s') \<Rightarrow> ([], Inr (c\<lparr>c_session := s'\<rparr>, es))
         | (Some a, s') \<Rightarrow> act_on w (c\<lparr>c_session := s'\<rparr>) a es)
      else (case from_utf8 line of
        None \<Rightarrow>
          if c_mode c = ModeCommands then ([Sent syntax_error], Inr (c, es))
          else ([Sent (single 501 ''5.5.2 non-ASCII in AUTH response'')], Inl Ended)
      | Some l \<Rightarrow>
          (let (a, s') = (if c_mode c = ModeCommands then command_line (w_crates w) (w_env w (c_calls c)) (c_session c) l
                          else auth_line (w_crates w) (w_env w (c_calls c)) (c_session c) l)
           in act_on w (c\<lparr>c_session := s'\<rparr>) a es)))"

section \<open>The loop\<close>

lemma read_chunk_loop_le: "read_chunk_loop chunk n d es = Chunk c d' es' \<Longrightarrow> length es' \<le> length es"
proof (induction es arbitrary: chunk d)
  case (Cons e es)
  then show ?case
    by (force simp: Let_def split: if_splits NetEvent.splits)
qed (simp split: if_splits)

lemma read_chunk_loop_events:
  assumes "read_chunk_loop chunk n d es = Chunk c d' es'"
  shows "length es' < length es \<or> (es' = es \<and> d' = d)"
proof (cases es)
  case (Cons e rest)
  have "length es' \<le> length rest" if "read_chunk_loop ch n d1 rest = Chunk c d' es'" for ch d1
    using that by (rule read_chunk_loop_le)
  then show ?thesis
    using assms Cons by (auto simp: Let_def less_Suc_eq_le split: if_splits NetEvent.splits)
qed (use assms in \<open>simp split: if_splits\<close>)

lemma read_chunk_events:
  "read_chunk d n es = Chunk c d' es' \<Longrightarrow> length es' < length es \<or> (es' = es \<and> length (buffer d') \<le> length (buffer d))"
  using read_chunk_loop_events by (fastforce simp: read_chunk_def take_buffered_def Let_def)

text \<open>Every line either uses up an event or leaves no more octets in the decoder.\<close>

definition progress :: "Conn \<Rightarrow> NetEvent list \<Rightarrow> outcome \<Rightarrow> bool" where
  "progress c es r \<longleftrightarrow>
     (\<forall>c' es'. snd r = Inr (c', es') \<longrightarrow>
        length es' < length es \<or> (es' = es \<and> length (buffer (c_decoder c')) \<le> length (buffer (c_decoder c))))"

lemma dispatch_progress: "progress c es (dispatch w c a es)"
  by (auto simp: progress_def dispatch_def Let_def split: Action.splits option.splits list.splits NetEvent.splits if_splits)

lemma act_on_progress: "progress c es (act_on w c a es)"
proof -
  let ?c = "c\<lparr>c_mode := ModeCommands, c_calls := c_calls c + 1\<rparr>"
  have other: "progress c es (dispatch w ?c a es)"
    using dispatch_progress [of ?c es w a] by (simp add: progress_def)
  show ?thesis
  proof (cases a)
    case (CollectChunk n l)
    show ?thesis
    proof (cases "read_chunk (c_decoder c) n es")
      case (Chunk chunk d es')
      obtain a' s' where "bdat_chunk (c_session c) chunk l = (a', s')"
        by (rule prod.exhaust)
      then show ?thesis
        using CollectChunk Chunk read_chunk_events [OF Chunk]
          dispatch_progress [of "?c\<lparr>c_session := s', c_decoder := d\<rparr>" es' w a']
        by (fastforce simp: act_on_def progress_def)
    qed (simp_all add: CollectChunk act_on_def progress_def)
  qed (use other in \<open>simp_all add: act_on_def Let_def\<close>)
qed

lemma on_line_progress: "progress c es (on_line w c line es)"
  using act_on_progress [of "c\<lparr>c_session := _\<rparr>" es w]
  by (auto simp: on_line_def progress_def Let_def split: option.splits prod.splits)

function conn_loop :: "World \<Rightarrow> Conn \<Rightarrow> NetEvent list \<Rightarrow> Event list \<times> Ending" where
  "conn_loop w c es =
     (case next_line (c_decoder c) of
        (Inl e, d) \<Rightarrow> ([Sent (line_error_reply e)], Ended)
      | (Inr None, d) \<Rightarrow>
          (case es of
             [] \<Rightarrow> ([], Lost)
           | e # es' \<Rightarrow>
               (case e of
                  Rd bs \<Rightarrow> if bs = [] then ([], Ended) else conn_loop w (c\<lparr>c_decoder := feed d bs\<rparr>) es'
                | ReadTimeout \<Rightarrow> ([], Ended)
                | ReadError \<Rightarrow> ([], IoError)
                | _ \<Rightarrow> ([], Lost)))
      | (Inr (Some line), d) \<Rightarrow>
          (case on_line w (c\<lparr>c_decoder := d\<rparr>) line es of
             (sent, Inl ending) \<Rightarrow> (sent, ending)
           | (sent, Inr (c', es')) \<Rightarrow> (let (sent', ending) = conn_loop w c' es' in (sent @ sent', ending))))"
  by pat_completeness auto
termination
proof (relation "measures [\<lambda>(w, c, es). length es, \<lambda>(w, c, es). length (buffer (c_decoder c))]")
  fix w c es x d b line sent y p c' es'
  assume "(x, d) = next_line (c_decoder c)" "x = Inr b" "b = Some line"
    "(sent, y) = on_line w (c\<lparr>c_decoder := d\<rparr>) line es" "y = Inr p" "(c', es') = p"
  then have "length (buffer d) < length (buffer (c_decoder c))"
    "length es' < length es \<or> es' = es \<and> length (buffer (c_decoder c')) \<le> length (buffer d)"
    using on_line_progress [of "c\<lparr>c_decoder := d\<rparr>" es w line] next_line_shrinks [of "c_decoder c" line d]
    by (auto simp: progress_def dest: sym)
  then show "((w, c', es'), w, c, es) \<in> measures [\<lambda>(w, c, es). length es, \<lambda>(w, c, es). length (buffer (c_decoder c))]"
    by auto
qed auto

declare conn_loop.simps [simp del]

text \<open>\<^verbatim>\<open>run\<close> and \<^verbatim>\<open>handle\<close>.\<close>

definition server_run :: "World \<Rightarrow> Server \<Rightarrow> Session \<Rightarrow> NetEvent list \<Rightarrow> Event list \<times> Ending" where
  "server_run w srv s es =
     (let s = set_peer_ip (w_peer w) s;
          (sent, ending) = conn_loop w \<lparr>c_server = srv, c_session = s, c_decoder = new_decoder, c_mode = ModeCommands,
                                        c_streak = 0, c_calls = 0\<rparr> es
      in (Sent (greeting s) # sent, ending))"

definition handle :: "World \<Rightarrow> Server \<Rightarrow> NetEvent list \<Rightarrow> Event list \<times> Ending" where
  "handle w srv es =
     (case (srv_tls_mode srv, srv_tls srv) of
        (Implicit, True) \<Rightarrow>
          (case es of
             Handshake ident # es' \<Rightarrow>
               server_run w srv (set_client_identity ident (with_tls_active (server_session srv))) es'
           | HandshakeError # _ \<Rightarrow> ([], IoError)
           | _ \<Rightarrow> ([], Lost))
      | (Implicit, False) \<Rightarrow> ([], IoError)
      | (Opportunistic, True) \<Rightarrow> server_run w srv (with_tls_available (server_session srv)) es
      | (Opportunistic, False) \<Rightarrow> server_run w srv (server_session srv) es)"

section \<open>The loop drives the session\<close>

fun expect_of :: "Mode \<Rightarrow> Expect" where
  "expect_of ModeCommands = ExpCommand"
| "expect_of ModeData = ExpData"
| "expect_of ModeAuth = ExpAuth"

definition abs_state :: "Conn \<Rightarrow> Expect \<times> Session" where
  "abs_state c = (expect_of (c_mode c), c_session c)"

lemma read_chunk_loop_length: "read_chunk_loop chunk n d es = Chunk c d' es' \<Longrightarrow> length chunk \<le> n \<Longrightarrow> length c = n"
proof (induction es arbitrary: chunk d)
  case (Cons e es)
  then show ?case
    by (force simp: Let_def split: if_splits NetEvent.splits)
qed (simp split: if_splits)

lemma read_chunk_length: "read_chunk d n es = Chunk c d' es' \<Longrightarrow> length c = n"
  using read_chunk_loop_length [of "take n (buffer d)" n _ es c d' es']
  by (auto simp: read_chunk_def take_buffered_def Let_def min_def split: if_splits)

lemma bdat_chunk_terminal: "fst (bdat_chunk s d l) \<noteq> CollectChunk n k"
  by (simp add: bdat_chunk_def Let_def split: State.split)

text \<open>The configuration a connection keeps: everything but the greylist store.\<close>

definition same_server :: "Server \<Rightarrow> Server \<Rightarrow> bool" where
  "same_server srv srv' \<longleftrightarrow> srv'\<lparr>srv_greylist := None\<rparr> = srv\<lparr>srv_greylist := None\<rparr>"

lemma deliver_same_server:
  assumes "deliver_action K vf psl srv s peer w reply m = Some (es, r, srv')"
  shows "same_server srv srv'"
proof -
  have "srv' = srv \<or> srv' = snd (greylist_stage srv s peer w m)"
    using assms by (auto simp: deliver_action_def Let_def split: option.splits if_splits prod.splits sum.splits)
  moreover have "same_server srv (snd (greylist_stage srv s peer w m))"
    by (auto simp: same_server_def greylist_stage_def Let_def split: option.splits list.splits prod.splits)
  ultimately show ?thesis
    by (auto simp: same_server_def)
qed

text \<open>A message reached the sink because the session, in a reachable state, accepted it, and the
  delivery path let it through.\<close>

definition accepted_from :: "World \<Rightarrow> Server \<Rightarrow> Expect \<times> Session \<Rightarrow> AcceptedMessage \<Rightarrow> bool" where
  "accepted_from w srv st m \<longleftrightarrow>
     (\<exists>mo s ev r m0 mo' s' srv0 n effs r' srv' ok.
        reachable (drive (w_crates w)) st (mo, s) \<and> drive (w_crates w) (mo, s) ev = Some (Some (Deliver r m0), mo', s') \<and>
        same_server srv srv0 \<and>
        deliver_action (w_crates w) (w_verifier w) (w_psl w) srv0 s' (w_peer w) (w_outside w n) r m0 = Some (effs, r', srv') \<and>
        Stored m ok \<in> set effs)"

definition simulates :: "World \<Rightarrow> Server \<Rightarrow> Expect \<times> Session \<Rightarrow> outcome \<Rightarrow> bool" where
  "simulates w srv st res \<longleftrightarrow>
     (\<forall>c' es'. snd res = Inr (c', es') \<longrightarrow> reachable (drive (w_crates w)) st (abs_state c') \<and> same_server srv (c_server c')) \<and>
     (\<forall>m ok. Did (Stored m ok) \<in> set (fst res) \<longrightarrow> accepted_from w srv st m)"

lemma dispatch_simulates:
  assumes reach: "reachable (drive (w_crates w)) st (mo, s)"
    and step: "drive (w_crates w) (mo, s) ev = Some (Some a, after_action a, c_session c)"
    and c: "c_mode c = ModeCommands" "same_server srv (c_server c)"
  shows "simulates w srv st (dispatch w c a es)"
proof -
  have next_state: "reachable (drive (w_crates w)) st (after_action a, c_session c)"
    using reachable.advance [OF reach step] by simp
  show ?thesis
  proof (cases a)
    case (Deliver r m0)
    show ?thesis
    proof (cases "deliver_action (w_crates w) (w_verifier w) (w_psl w) (c_server c) (c_session c) (w_peer w) (w_outside w (c_calls c)) r m0")
      case None
      then show ?thesis
        by (simp add: Deliver dispatch_def simulates_def)
    next
      case (Some p)
      obtain effs r' srv' where p: "p = (effs, r', srv')"
        by (rule prod_cases3)
      have "accepted_from w srv st m" if "Stored m ok \<in> set effs" for m ok
        unfolding accepted_from_def using reach step [unfolded Deliver] c(2) Some [unfolded p] that by blast
      moreover have "same_server srv srv'"
        using deliver_same_server [OF Some [unfolded p]] c(2) by (simp add: same_server_def)
      ultimately show ?thesis
        using next_state Deliver Some p c(1) by (auto simp: dispatch_def simulates_def abs_state_def)
    qed
  next
    case (UpgradeTls r)
    have "reachable (drive (w_crates w)) st (ExpCommand, tls_started (set_client_identity i (c_session c)))" for i
      using reachable.advance [OF next_state, where i = "(undefined, InTls i)"] by (simp add: UpgradeTls drive_def)
    then show ?thesis
      using UpgradeTls c by (auto simp: dispatch_def simulates_def abs_state_def Let_def split: list.splits NetEvent.splits)
  qed (use next_state c in \<open>auto simp: dispatch_def simulates_def abs_state_def Let_def same_server_def\<close>)
qed

lemma act_on_simulates:
  assumes reach: "reachable (drive (w_crates w)) st (mo, s)"
    and step: "drive (w_crates w) (mo, s) ev = Some (Some a, after_action a, c_session c)"
    and srv: "same_server srv (c_server c)"
  shows "simulates w srv st (act_on w c a es)"
proof (cases "\<exists>n l. a = CollectChunk n l")
  case True
  then obtain n l where a: "a = CollectChunk n l"
    by blast
  show ?thesis
  proof (cases "read_chunk (c_decoder c) n es")
    case (Chunk chunk d es')
    obtain a' s' where bd: "bdat_chunk (c_session c) chunk l = (a', s')"
      by (rule prod.exhaust)
    let ?c = "c\<lparr>c_mode := ModeCommands, c_calls := c_calls c + 1, c_session := s', c_decoder := d\<rparr>"
    have "reachable (drive (w_crates w)) st (ExpChunk n l, c_session c)"
      using reachable.advance [OF reach step] a by simp
    moreover have "drive (w_crates w) (ExpChunk n l, c_session c) (undefined, InChunk chunk) = Some (Some a', after_action a', c_session ?c)"
      using read_chunk_length [OF Chunk] bd by (simp add: drive_def after_step_def)
    ultimately have "simulates w srv st (dispatch w ?c a' es')"
      by (rule dispatch_simulates) (use srv in simp_all)
    then show ?thesis
      using a Chunk bd by (simp add: act_on_def)
  qed (use a in \<open>simp_all add: act_on_def simulates_def\<close>)
next
  case False
  then have "act_on w c a es = dispatch w (c\<lparr>c_mode := ModeCommands, c_calls := c_calls c + 1\<rparr>) a es"
    by (cases a) (simp_all add: act_on_def Let_def)
  then show ?thesis
    using dispatch_simulates [OF reach, of ev a "c\<lparr>c_mode := ModeCommands, c_calls := c_calls c + 1\<rparr>" srv es] step srv by simp
qed

lemma on_line_simulates:
  assumes reach: "reachable (drive (w_crates w)) st (abs_state c)" and srv: "same_server srv (c_server c)"
  shows "simulates w srv st (on_line w c line es)"
proof (cases "c_mode c = ModeData")
  case True
  obtain a s' where dl: "data_line (c_session c) line = (a, s')"
    by (rule prod.exhaust)
  show ?thesis
  proof (cases a)
    case None
    then have "drive (w_crates w) (abs_state c) (undefined, InLine line) = Some (None, ExpData, s')"
      using True dl by (simp add: drive_def abs_state_def)
    then show ?thesis
      using reachable.advance [OF reach] True dl None srv
      by (auto simp: on_line_def simulates_def abs_state_def)
  next
    case (Some b)
    then have "drive (w_crates w) (abs_state c) (undefined, InLine line) = Some (Some b, after_action b, c_session (c\<lparr>c_session := s'\<rparr>))"
      using True dl by (simp add: drive_def abs_state_def after_step_def)
    then have "simulates w srv st (act_on w (c\<lparr>c_session := s'\<rparr>) b es)"
      using reach srv unfolding abs_state_def by (intro act_on_simulates) auto
    then show ?thesis
      using True dl Some by (simp add: on_line_def)
  qed
next
  case False
  show ?thesis
  proof (cases "from_utf8 line")
    case None
    then show ?thesis
      using False reach srv by (auto simp: on_line_def simulates_def)
  next
    case (Some l)
    have l: "l = line"
      using from_utf8_SomeD [OF Some] .
    obtain b s' where call: "(if c_mode c = ModeCommands then command_line (w_crates w) (w_env w (c_calls c)) (c_session c) l
        else auth_line (w_crates w) (w_env w (c_calls c)) (c_session c) l) = (b, s')"
      by (rule prod.exhaust)
    have "drive (w_crates w) (abs_state c) (w_env w (c_calls c), InLine line) =
        Some (Some b, after_action b, c_session (c\<lparr>c_session := s'\<rparr>))"
      using False call l by (cases "c_mode c") (simp_all add: drive_def abs_state_def after_step_def)
    then have "simulates w srv st (act_on w (c\<lparr>c_session := s'\<rparr>) b es)"
      using reach srv unfolding abs_state_def by (intro act_on_simulates) auto
    then show ?thesis
      using False Some call by (simp add: on_line_def)
  qed
qed

lemma conn_loop_read:
  "next_line (c_decoder c) = (Inr None, d) \<Longrightarrow> bs \<noteq> [] \<Longrightarrow>
     conn_loop w c (Rd bs # es) = conn_loop w (c\<lparr>c_decoder := feed d bs\<rparr>) es"
  by (simp add: conn_loop.simps [of w c "Rd bs # es"])

lemma conn_loop_stop:
  "next_line (c_decoder c) = (Inr None, d) \<Longrightarrow> conn_loop w c (Rd [] # es) = ([], Ended)"
  "next_line (c_decoder c) = (Inr None, d) \<Longrightarrow> conn_loop w c (ReadTimeout # es) = ([], Ended)"
  by (simp_all add: conn_loop.simps [of w c "_ # _"])

lemma conn_loop_line:
  "next_line (c_decoder c) = (Inr (Some l), d) \<Longrightarrow> on_line w (c\<lparr>c_decoder := d\<rparr>) l es = (sent, Inr (c', es')) \<Longrightarrow>
     conn_loop w c es = (sent @ fst (conn_loop w c' es'), snd (conn_loop w c' es'))"
  by (simp add: conn_loop.simps [of w c es] case_prod_beta)

lemma conn_loop_simulates:
  assumes "reachable (drive (w_crates w)) st (abs_state c)" "same_server srv (c_server c)"
    "Did (Stored m ok) \<in> set (fst (conn_loop w c es))"
  shows "accepted_from w srv st m"
  using assms
proof (induction w c es rule: conn_loop.induct)
  case (1 w c es)
  obtain r d where nl: "next_line (c_decoder c) = (r, d)"
    by (rule prod.exhaust)
  consider (err) e where "r = Inl e" | (more) "r = Inr None" | (line) l where "r = Inr (Some l)"
    by (metis old.sum.exhaust option.exhaust)
  then show ?case
  proof cases
    case err
    then show ?thesis
      using 1(5) nl by (simp add: conn_loop.simps [of w c es])
  next
    case more
    show ?thesis
    proof (cases "\<exists>bs es'. es = Rd bs # es' \<and> bs \<noteq> []")
      case True
      then obtain bs es' where es: "es = Rd bs # es'" "bs \<noteq> []"
        by blast
      have "conn_loop w c es = conn_loop w (c\<lparr>c_decoder := feed d bs\<rparr>) es'"
        unfolding es(1) by (rule conn_loop_read) (use nl more es(2) in simp_all)
      then show ?thesis
        using 1(1) [OF nl [symmetric] more refl es(1) refl es(2)] 1(3-5) by (simp add: abs_state_def)
    next
      case False
      then have "fst (conn_loop w c es) = []"
        using nl more by (auto simp: conn_loop.simps [of w c es] split: list.split NetEvent.split)
      then show ?thesis
        using 1(5) by simp
    qed
  next
    case line
    have sim: "simulates w srv st (on_line w (c\<lparr>c_decoder := d\<rparr>) l es)"
      by (rule on_line_simulates) (use 1(3, 4) in \<open>simp_all add: abs_state_def\<close>)
    obtain sent res where ol: "on_line w (c\<lparr>c_decoder := d\<rparr>) l es = (sent, res)"
      by (rule prod.exhaust)
    show ?thesis
    proof (cases res)
      case (Inl ending)
      then show ?thesis
        using 1(5) nl line ol sim by (auto simp: conn_loop.simps [of w c es] simulates_def)
    next
      case (Inr p)
      obtain c' es' where p: "p = (c', es')"
        by (rule prod.exhaust)
      have "fst (conn_loop w c es) = sent @ fst (conn_loop w c' es')"
        using conn_loop_line [of c l d w es sent c' es'] nl line ol Inr p by simp
      moreover have "reachable (drive (w_crates w)) st (abs_state c')" "same_server srv (c_server c')"
        using sim ol Inr p by (simp_all add: simulates_def)
      ultimately show ?thesis
        using 1(2) [OF nl [symmetric] line refl ol [symmetric] Inr p [symmetric]] 1(5) sim ol by (auto simp: simulates_def)
    qed
  qed
qed

section \<open>End to end\<close>

lemma server_session_fresh:
  "fresh (server_session srv)" "directory (server_session srv) = srv_directory srv"
  "auth_protocol (server_session srv) = srv_auth_protocol srv"
  by (auto simp: server_session_def fresh_def no_pending_def new_session_def with_auth_protocol_def with_directory_def
      with_oauth_def with_session_binding_def with_send_limiter_def with_global_submission_rate_limit_def
      with_disk_guard_def Let_def split: option.splits)

lemma handle_accepted:
  assumes "Did (Stored m ok) \<in> set (fst (handle w srv es))"
  obtains s0 where "fresh s0" "directory s0 = srv_directory srv" "auth_protocol s0 = srv_auth_protocol srv"
    "accepted_from w srv (ExpCommand, s0) m"
proof -
  have run: "accepted_from w srv (ExpCommand, set_peer_ip (w_peer w) s0) m"
    if "Did (Stored m ok) \<in> set (fst (server_run w srv s0 es'))" for s0 es'
    using that conn_loop_simulates [of w "(ExpCommand, set_peer_ip (w_peer w) s0)"
        "\<lparr>c_server = srv, c_session = set_peer_ip (w_peer w) s0, c_decoder = new_decoder, c_mode = ModeCommands,
          c_streak = 0, c_calls = 0\<rparr>" srv m ok es']
    by (auto simp: server_run_def Let_def abs_state_def same_server_def case_prod_beta intro: reachable.start)
  obtain s0 es' where s0: "Did (Stored m ok) \<in> set (fst (server_run w srv s0 es'))"
    "fresh s0" "directory s0 = srv_directory srv" "auth_protocol s0 = srv_auth_protocol srv"
  proof (cases "srv_tls_mode srv"; cases "srv_tls srv")
    assume "srv_tls_mode srv = Implicit" "srv_tls srv"
    then obtain i es' where "Did (Stored m ok) \<in> set (fst (server_run w srv (set_client_identity i (with_tls_active (server_session srv))) es'))"
      using assms by (auto simp: handle_def split: list.splits NetEvent.splits)
    then show ?thesis
      using server_session_fresh [of srv]
      by (intro that [of "set_client_identity i (with_tls_active (server_session srv))" es'])
         (auto simp: fresh_def no_pending_def set_client_identity_def with_tls_active_def)
  next
    assume "srv_tls_mode srv = Opportunistic" "srv_tls srv"
    then have "Did (Stored m ok) \<in> set (fst (server_run w srv (with_tls_available (server_session srv)) es))"
      using assms by (simp add: handle_def)
    then show ?thesis
      using server_session_fresh [of srv]
      by (intro that [of "with_tls_available (server_session srv)" es]) (auto simp: fresh_def no_pending_def with_tls_available_def)
  next
    assume "srv_tls_mode srv = Opportunistic" "\<not> srv_tls srv"
    then show ?thesis
      using assms server_session_fresh [of srv] by (intro that [of "server_session srv" es]) (simp_all add: handle_def)
  qed (use assms in \<open>simp add: handle_def\<close>)
  show ?thesis
    by (rule that [OF _ _ _ run [OF s0(1)]])
       (use s0 in \<open>auto simp: fresh_def no_pending_def set_peer_ip_def\<close>)
qed



definition sample_world :: World where
  "sample_world = \<lparr>w_crates = sample_crates, w_verifier = sample_verifier, w_psl = (\<lambda>_. None), w_env = (\<lambda>_. sample_env),
     w_outside = (\<lambda>_. sample_outside), w_peer = Some (V4 1)\<rparr>"

definition sample_server :: Server where
  "sample_server = server_with_tls Opportunistic (server_with_directory sample_directory (new_server ''mx.b.org''))"

definition sample_stream :: "NetEvent list" where
  "sample_stream = [Rd (''EHLO c.org'' @ crlf @ ''MAIL FROM:<a@c.org>'' @ crlf @ ''RCPT TO:<Bob@b.org>'' @ crlf @ ''DATA'' @ crlf),
     Rd (''From: a@c.org'' @ crlf @ crlf @ ''hi'' @ crlf @ ''.'' @ crlf), Rd []]"

fun stored_recipients :: "Event list \<Rightarrow> str list list" where
  "stored_recipients [] = []"
| "stored_recipients (Did (Stored m ok) # es) = recipients m # stored_recipients es"
| "stored_recipients (e # es) = stored_recipients es"

lemma stored_recipientsD: "rs \<in> set (stored_recipients es) \<Longrightarrow> \<exists>m ok. Did (Stored m ok) \<in> set es \<and> recipients m = rs"
  by (induction es rule: stored_recipients.induct) auto

lemma sample_stream_stored:
  "stored_recipients (fst (handle sample_world sample_server sample_stream)) = [[''Bob@b.org'']]"
  by code_simp

lemma sample_stored:
  obtains m ok where "Did (Stored m ok) \<in> set (fst (handle sample_world sample_server sample_stream))" "recipients m = [''Bob@b.org'']"
  using stored_recipientsD [of "[''Bob@b.org'']" "fst (handle sample_world sample_server sample_stream)"]
  unfolding sample_stream_stored by (simp only: list.set_intros) blast

lemma sample_world_crates: "w_crates sample_world = sample_crates"
  by (simp add: sample_world_def)



text \<open>C15. No command injection across STARTTLS: octets a client (or an attacker in the middle) sends in the
  clear behind the STARTTLS command have no effect; the connection goes on as if they were never sent.\<close>

theorem starttls_no_injection:
  assumes "c_decoder c = new_decoder" "c_mode c = ModeCommands" "srv_tls (c_server c)"
    and "fst (command_line (w_crates w) (w_env w (c_calls c)) (c_session c) ''STARTTLS'') = UpgradeTls r"
  shows "conn_loop w c (Rd (''STARTTLS'' @ crlf @ smuggled) # Handshake ident # es) =
         conn_loop w c (Rd (''STARTTLS'' @ crlf) # Handshake ident # es)"
proof -
  obtain s' where cmd: "command_line (w_crates w) (w_env w (c_calls c)) (c_session c) ''STARTTLS'' = (UpgradeTls r, s')"
    using assms(4) by (cases "command_line (w_crates w) (w_env w (c_calls c)) (c_session c) ''STARTTLS''") auto
  have none: "next_line (c_decoder c) = (Inr None, new_decoder)"
    by (simp add: assms(1) next_line_new)
  have utf: "from_utf8 ''STARTTLS'' = Some ''STARTTLS''"
    by (rule from_utf8_ascii) (simp add: is_ascii_def is_ascii_char_def)
  let ?s = "tls_started (set_client_identity ident s')"
  let ?c' = "c\<lparr>c_session := ?s, c_decoder := new_decoder, c_calls := c_calls c + 1\<rparr>"
  have key: "conn_loop w c (Rd (''STARTTLS'' @ crlf @ x) # Handshake ident # es) =
      ([Sent r, Sent (greeting ?s)] @ fst (conn_loop w ?c' es), snd (conn_loop w ?c' es))" for x
  proof -
    let ?d = "feed new_decoder (''STARTTLS'' @ crlf @ x)"
    have "next_line ?d = (Inr (Some ''STARTTLS''), \<lparr>buffer = x\<rparr>)"
      by (rule next_line_clean) (simp add: clean_line_def plain_def MAX_LINE_LENGTH_def)
    moreover have "on_line w (c\<lparr>c_decoder := \<lparr>buffer = x\<rparr>\<rparr>) ''STARTTLS'' (Handshake ident # es) =
        ([Sent r, Sent (greeting ?s)], Inr (?c', es))"
      using assms(2, 3) utf cmd by (simp add: on_line_def act_on_def dispatch_def Let_def)
    ultimately have "conn_loop w (c\<lparr>c_decoder := ?d\<rparr>) (Handshake ident # es) =
        ([Sent r, Sent (greeting ?s)] @ fst (conn_loop w ?c' es), snd (conn_loop w ?c' es))"
      using conn_loop_line [of "c\<lparr>c_decoder := ?d\<rparr>" "''STARTTLS''" "\<lparr>buffer = x\<rparr>" w "Handshake ident # es"] by simp
    then show ?thesis
      using conn_loop_read [OF none, of "''STARTTLS'' @ crlf @ x" w] by simp
  qed
  show ?thesis
    using key [of smuggled] key [of "[]"] by simp
qed

definition sample_conn :: Conn where
  "sample_conn = \<lparr>c_server = sample_server, c_session = snd (command_line sample_crates sample_env sample_session ''EHLO c.org''),
     c_decoder = new_decoder, c_mode = ModeCommands, c_streak = 0, c_calls = 1\<rparr>"

lemma sample_upgrade:
  "fst (command_line sample_crates sample_env (c_session sample_conn) ''STARTTLS'') = UpgradeTls (single 220 ''ready to start TLS'')"
  by code_simp

theorem starttls_no_injection_witness:
  "conn_loop sample_world sample_conn (Rd (''STARTTLS'' @ crlf @ ''QUIT'' @ crlf) # Handshake None # [Rd []]) =
   conn_loop sample_world sample_conn (Rd (''STARTTLS'' @ crlf) # Handshake None # [Rd []])"
  by (rule starttls_no_injection)
     (use sample_upgrade in \<open>simp_all add: sample_world_def sample_conn_def sample_server_def server_with_tls_def\<close>)

lemma read_chunk_loop_exact:
  assumes "list_all (\<lambda>bs. bs \<noteq> []) reads" "n \<le> length (ch @ buffer d @ concat reads)"
    "length ch \<le> n" "length ch < n \<Longrightarrow> buffer d = []"
  shows "\<exists>d' reads'. read_chunk_loop ch n d (map Rd reads @ es) = Chunk (take n (ch @ buffer d @ concat reads)) d' (map Rd reads' @ es) \<and>
           buffer d' @ concat reads' = drop n (ch @ buffer d @ concat reads)"
  using assms
proof (induction reads arbitrary: ch d)
  case Nil
  then have n: "length ch = n"
    by fastforce
  then have "read_chunk_loop ch n d es = Chunk ch d es"
    by (cases es) simp_all
  then show ?case
    using n by (intro exI [of _ d] exI [of _ "[]"]) simp
next
  case (Cons bs reads)
  show ?case
  proof (cases "length ch < n")
    case False
    then show ?thesis
      using Cons.prems by (intro exI [of _ d] exI [of _ "bs # reads"]) simp
  next
    case True
    let ?need = "n - length ch"
    have buf: "buffer d = []"
      using True Cons.prems(4) by simp
    show ?thesis
    proof (cases "length bs \<le> ?need")
      case le: True
      then show ?thesis
        using Cons.IH [of "ch @ bs" d] Cons.prems True buf by (simp add: Let_def le_diff_conv)
    next
      case gt: False
      let ?ch = "ch @ take ?need bs"
      let ?d = "feed d (drop ?need bs)"
      have "buffer ?d = drop ?need bs"
        using buf by (simp add: feed_def)
      moreover have "length ?ch = n"
        using gt True by simp
      ultimately show ?thesis
        using Cons.IH [of ?ch ?d] Cons.prems True gt buf by (simp add: Let_def)
    qed
  qed
qed

text \<open>C18. A BDAT chunk is cut out of the stream exactly: once enough octets arrive, however they are cut into
  reads, the chunk is the next \<open>n\<close> octets of the stream and everything after it is still there for the
  next command.\<close>

theorem read_chunk_exact:
  assumes "list_all (\<lambda>bs. bs \<noteq> []) reads" "n \<le> length (buffer d @ concat reads)"
  shows "\<exists>d' reads'. read_chunk d n (map Rd reads @ es) = Chunk (take n (buffer d @ concat reads)) d' (map Rd reads' @ es) \<and>
           buffer d' @ concat reads' = drop n (buffer d @ concat reads)"
proof -
  let ?k = "min (length (buffer d)) n"
  let ?d = "d\<lparr>buffer := drop ?k (buffer d)\<rparr>"
  have "take ?k (buffer d) @ buffer ?d @ concat reads = buffer d @ concat reads"
    by (simp flip: append_assoc)
  moreover have "read_chunk d n (map Rd reads @ es) = read_chunk_loop (take ?k (buffer d)) n ?d (map Rd reads @ es)"
    by (simp add: read_chunk_def take_buffered_def Let_def)
  moreover have "length (take ?k (buffer d)) \<le> n" "length (take ?k (buffer d)) < n \<Longrightarrow> buffer ?d = []"
    by (auto simp: min_def split: if_splits)
  ultimately show ?thesis
    using read_chunk_loop_exact [of reads n "take ?k (buffer d)" ?d es] assms by metis
qed

theorem read_chunk_exact_witness:
  "\<exists>d' reads'. read_chunk \<lparr>buffer = ''ab''\<rparr> 4 (map Rd [''cdQU''] @ [Rd []]) =
       Chunk (take 4 (buffer \<lparr>buffer = ''ab''\<rparr> @ concat [''cdQU''])) d' (map Rd reads' @ [Rd []]) \<and>
     buffer d' @ concat reads' = drop 4 (buffer \<lparr>buffer = ''ab''\<rparr> @ concat [''cdQU''])"
  by (rule read_chunk_exact) simp_all

text \<open>The limit on consecutive errors does not bound them: a client that sends lines that are not UTF-8 gets an
  error for each, however many they are, and is never disconnected.\<close>

lemma error_limit_bypassed:
  "handle w (new_server host) (replicate n (Rd [CHR 0xFF, CR, LF])) =
     (Sent (single 220 (host @ '' ESMTP ready'')) # replicate n (Sent syntax_error), Lost)"
proof -
  have "conn_loop w c (replicate n (Rd [CHR 0xFF, CR, LF])) = (replicate n (Sent syntax_error), Lost)"
    if "c_decoder c = new_decoder" "c_mode c = ModeCommands" for c
    using that
  proof (induction n)
    case 0
    then show ?case
      by (simp add: conn_loop.simps [of w c "[]"] next_line_new)
  next
    case (Suc n)
    let ?c = "c\<lparr>c_decoder := feed new_decoder [CHR 0xFF, CR, LF]\<rparr>"
    have line: "next_line (c_decoder ?c) = (Inr (Some [CHR 0xFF]), new_decoder)"
      using next_line_clean [of "[CHR 0xFF]" "[]"]
      by (simp add: clean_line_def plain_def MAX_LINE_LENGTH_def crlf_def new_decoder_def)
    have "from_utf8 [CHR 0xFF] = None"
      by code_simp
    then have ol: "on_line w (?c\<lparr>c_decoder := new_decoder\<rparr>) [CHR 0xFF] es = ([Sent syntax_error], Inr (?c\<lparr>c_decoder := new_decoder\<rparr>, es))" for es
      using Suc.prems by (simp add: on_line_def)
    have "?c\<lparr>c_decoder := new_decoder\<rparr> = c"
      using Suc.prems(1) by (cases c) simp
    then have "conn_loop w ?c (replicate n (Rd [CHR 0xFF, CR, LF])) = (Sent syntax_error # replicate n (Sent syntax_error), Lost)"
      using conn_loop_line [OF line ol] Suc.IH [OF Suc.prems] by simp
    then show ?case
      using conn_loop_read [of c new_decoder "[CHR 0xFF, CR, LF]" w] Suc.prems next_line_new by simp
  qed
  then show ?thesis
    by (simp add: handle_def server_run_def new_server_def server_session_def greeting_def new_session_def with_auth_protocol_def
        with_directory_def with_global_submission_rate_limit_def set_peer_ip_def)
qed


section \<open>Every connection ends\<close>

text \<open>The events of a plain-text connection whose client at some point closes it or falls silent.\<close>

definition closes :: "NetEvent list \<Rightarrow> bool" where
  "closes es \<longleftrightarrow> (\<exists>reads e rest. es = map Rd reads @ e # rest \<and> (e = Rd [] \<or> e = ReadTimeout))"

lemma closes_Nil: "\<not> closes []"
  by (simp add: closes_def)

lemma closes_Cons: "closes (e # es) \<longleftrightarrow> e = ReadTimeout \<or> (\<exists>bs. e = Rd bs \<and> (bs = [] \<or> closes es))"
proof
  assume "closes (e # es)"
  then obtain reads x rest where es: "e # es = map Rd reads @ x # rest" "x = Rd [] \<or> x = ReadTimeout"
    unfolding closes_def by blast
  then show "e = ReadTimeout \<or> (\<exists>bs. e = Rd bs \<and> (bs = [] \<or> closes es))"
    by (cases reads) (auto simp: closes_def)
next
  assume "e = ReadTimeout \<or> (\<exists>bs. e = Rd bs \<and> (bs = [] \<or> closes es))"
  then consider "e = ReadTimeout" | "e = Rd []" | bs where "e = Rd bs" "closes es"
    by blast
  then show "closes (e # es)"
  proof cases
    case (3 bs)
    then obtain reads x rest where "es = map Rd reads @ x # rest" "x = Rd [] \<or> x = ReadTimeout"
      unfolding closes_def by blast
    then show ?thesis
      unfolding closes_def using 3(1) by (intro exI [of _ "bs # reads"] exI [of _ x] exI [of _ rest]) simp
  qed (auto simp: closes_def intro: exI [of _ "[]"])
qed

definition ends_well :: "outcome \<Rightarrow> bool" where
  "ends_well res \<longleftrightarrow>
     (case snd res of Inl ending \<Rightarrow> ending \<in> {Ended, Panicked} | Inr (c, es) \<Rightarrow> \<not> srv_tls (c_server c) \<and> closes es)"

lemma read_chunk_loop_closes:
  "closes es \<Longrightarrow> (case read_chunk_loop chunk n d es of Chunk c d' es' \<Rightarrow> closes es' | x \<Rightarrow> x = ChunkClosed)"
  by (induction es arbitrary: chunk d) (auto simp: closes_Nil closes_Cons Let_def)

lemma read_chunk_closes:
  "closes es \<Longrightarrow> (case read_chunk d n es of Chunk c d' es' \<Rightarrow> closes es' | x \<Rightarrow> x = ChunkClosed)"
  using read_chunk_loop_closes by (simp add: read_chunk_def split: prod.split)

lemma dispatch_ends_well: "closes es \<Longrightarrow> \<not> srv_tls (c_server c) \<Longrightarrow> ends_well (dispatch w c a es)"
proof (cases a)
  case (Deliver r m)
  assume "closes es" "\<not> srv_tls (c_server c)"
  moreover have "srv_tls srv' = srv_tls (c_server c)"
    if "deliver_action (w_crates w) (w_verifier w) (w_psl w) (c_server c) (c_session c) (w_peer w) (w_outside w (c_calls c)) r m
          = Some (effs, r', srv')" for effs r' srv'
  proof -
    have "srv_tls (srv'\<lparr>srv_greylist := None\<rparr>) = srv_tls ((c_server c)\<lparr>srv_greylist := None\<rparr>)"
      using deliver_same_server [OF that] by (simp only: same_server_def)
    then show ?thesis
      by simp
  qed
  ultimately show ?thesis
    by (auto simp: Deliver dispatch_def ends_well_def split: option.split)
qed (simp_all add: dispatch_def ends_well_def Let_def)

lemma act_on_ends_well:
  assumes "closes es" "\<not> srv_tls (c_server c)"
  shows "ends_well (act_on w c a es)"
proof (cases "\<exists>n l. a = CollectChunk n l")
  case True
  then obtain n l where a: "a = CollectChunk n l"
    by blast
  show ?thesis
    using assms read_chunk_closes [OF assms(1), of "c_decoder c" n] a
    by (cases "read_chunk (c_decoder c) n es")
       (auto simp: act_on_def ends_well_def [of "([], _)"] intro!: dispatch_ends_well split: prod.split)
next
  case False
  then show ?thesis
    using assms by (cases a) (simp_all add: act_on_def Let_def dispatch_ends_well)
qed

lemma on_line_ends_well: "closes es \<Longrightarrow> \<not> srv_tls (c_server c) \<Longrightarrow> ends_well (on_line w c line es)"
  by (auto simp: on_line_def ends_well_def [of "(_, Inr _)"] ends_well_def [of "(_, Inl _)"] Let_def
      intro!: act_on_ends_well split: option.split prod.split)

lemma conn_loop_ends:
  assumes "closes es" "\<not> srv_tls (c_server c)"
  shows "snd (conn_loop w c es) \<in> {Ended, Panicked}"
  using assms
proof (induction w c es rule: conn_loop.induct)
  case (1 w c es)
  obtain r d where nl: "next_line (c_decoder c) = (r, d)"
    by (rule prod.exhaust)
  consider (err) e where "r = Inl e" | (more) "r = Inr None" | (line) l where "r = Inr (Some l)"
    by (metis old.sum.exhaust option.exhaust)
  then show ?case
  proof cases
    case err
    then show ?thesis
      using nl by (simp add: conn_loop.simps [of w c es])
  next
    case more
    obtain e es' where es: "es = e # es'"
      using 1(3) closes_Nil by (cases es) auto
    show ?thesis
    proof (cases "\<exists>bs. e = Rd bs \<and> bs \<noteq> []")
      case True
      then obtain bs where e: "e = Rd bs" "bs \<noteq> []"
        by blast
      then have "conn_loop w c es = conn_loop w (c\<lparr>c_decoder := feed d bs\<rparr>) es'"
        unfolding es e(1) by (intro conn_loop_read) (use nl more in simp_all)
      then show ?thesis
        using 1(1) [OF nl [symmetric] more refl es e] 1(3, 4) e es by (simp add: closes_Cons)
    next
      case False
      then consider "e = ReadTimeout" | "e = Rd []"
        using 1(3) es by (auto simp: closes_Cons)
      then show ?thesis
        using nl more es by cases (simp_all add: conn_loop_stop)
    qed
  next
    case line
    have ok: "ends_well (on_line w (c\<lparr>c_decoder := d\<rparr>) l es)"
      by (rule on_line_ends_well) (use 1(3, 4) in simp_all)
    obtain sent res where ol: "on_line w (c\<lparr>c_decoder := d\<rparr>) l es = (sent, res)"
      by (rule prod.exhaust)
    show ?thesis
    proof (cases res)
      case (Inl ending)
      then show ?thesis
        using nl line ol ok by (simp add: conn_loop.simps [of w c es] ends_well_def)
    next
      case (Inr p)
      obtain c' es' where p: "p = (c', es')"
        by (rule prod.exhaust)
      have "snd (conn_loop w c es) = snd (conn_loop w c' es')"
        using conn_loop_line [of c l d w es sent c' es'] nl line ol Inr p by simp
      then show ?thesis
        using 1(2) [OF nl [symmetric] line refl ol [symmetric] Inr p [symmetric]] ok ol Inr p by (simp add: ends_well_def)
    qed
  qed
qed



end
