(* ===== verification/Dkim_Sign.thy ===== *)
theory Dkim_Sign
  imports Dkim_Verify
begin

text \<open>
  DKIM signing of outbound mail (\<^verbatim>\<open>dkim/sign.rs\<close>) and its composition with the verifier: what the
  signer puts in front of a message, the verifier passes. The keys of the \<^verbatim>\<open>ring\<close> crate are the
  functions they sign with.
\<close>

definition SIGNED_HEADERS :: "str list" where
  "SIGNED_HEADERS = [''from'', ''to'', ''cc'', ''subject'', ''date'', ''message-id'']"

record RsaSigner =
  rsa_selector :: str
  rsa_sign :: "bytes \<Rightarrow> bytes option"

record Signer =
  selector :: str
  key_sign :: "bytes \<Rightarrow> bytes"
  key_public :: bytes
  rsa :: "RsaSigner option"

definition dns_record_value :: "crates \<Rightarrow> Signer \<Rightarrow> str" where
  "dns_record_value K s = ''v=DKIM1; k=ed25519; p='' @ b64_encode K (key_public s)"

text \<open>\<^verbatim>\<open>split_message\<close> of the signer: the header texts are collected first and parsed after.\<close>

definition push_text :: "str option \<Rightarrow> str list \<Rightarrow> str list" where
  "push_text cur hs = (case cur of None \<Rightarrow> hs | Some t \<Rightarrow> hs @ [t])"

fun collect_loop :: "str option \<Rightarrow> str list \<Rightarrow> str list \<Rightarrow> str list" where
  "collect_loop cur hs [] = push_text cur hs"
| "collect_loop cur hs (line # ls) =
     (let content = strip_crlf line in
      if is_folded content then
        (case cur of Some t \<Rightarrow> collect_loop (Some (t @ line)) hs ls | None \<Rightarrow> collect_loop None hs ls)
      else collect_loop (if content \<noteq> [] then Some line else None) (push_text cur hs) ls)"

definition sign_split :: "bytes \<Rightarrow> (Header list \<times> bytes) option" where
  "sign_split raw =
     (let (e, b) = find_body_start raw in
      Option.bind (from_utf8 (take e raw)) (\<lambda>block.
      map_option (\<lambda>hs. (hs, drop b raw)) (those (map parse_header (collect_loop None [] (lines_crlf block))))))"

text \<open>The headers to sign: for each name the last header of it.\<close>

fun signable :: "Header list \<Rightarrow> str list \<Rightarrow> str list \<times> str" where
  "signable hs [] = ([], [])"
| "signable hs (name # names) =
     (let (ns, input) = signable hs names in
      case find (\<lambda>h. eq_ignore_ascii_case (hdr_name h) name) (rev hs) of
        Some h \<Rightarrow> (name # ns, canon_header Relaxed (hdr_name h) (hdr_value h) @ input)
      | None \<Rightarrow> (ns, input))"

definition signature_value :: "str \<Rightarrow> str \<Rightarrow> str \<Rightarrow> str \<Rightarrow> str \<Rightarrow> str" where
  "signature_value algorithm sel domain names bh =
     '' v=1; a='' @ algorithm @ ''; c=relaxed/relaxed; d='' @ domain @ ''; s='' @ sel @ ''; h='' @ names
     @ ''; bh='' @ bh @ ''; b=''"

definition one_signature ::
  "crates \<Rightarrow> str \<Rightarrow> str \<Rightarrow> str \<Rightarrow> str \<Rightarrow> str \<Rightarrow> str \<Rightarrow> (bytes \<Rightarrow> bytes option) \<Rightarrow> str option" where
  "one_signature K algorithm sel domain names bh input sg_fn =
     (let value = signature_value algorithm sel domain names bh;
          dkim_line = canon_header Relaxed ''DKIM-Signature'' value;
          dkim_line = take (length dkim_line - 2) dkim_line
      in map_option (\<lambda>sg. ''DKIM-Signature:'' @ value @ b64_encode K sg @ crlf) (sg_fn (input @ dkim_line)))"

definition sign :: "crates \<Rightarrow> Signer \<Rightarrow> str \<Rightarrow> bytes \<Rightarrow> str option" where
  "sign K s domain raw =
     Option.bind (sign_split raw) (\<lambda>(headers, body).
       let bh = b64_encode K (sha256 K (canon_body Relaxed body));
           (signed_names, input) = signable headers SIGNED_HEADERS in
       if ''from'' \<notin> set signed_names then None
       else
         let names = join '':'' signed_names in
         Option.bind (one_signature K ''ed25519-sha256'' (selector s) domain names bh input (\<lambda>m. Some (key_sign s m))) (\<lambda>ed.
         Some (ed @ (case rsa s of
                       None \<Rightarrow> []
                     | Some r \<Rightarrow>
                         (case one_signature K ''rsa-sha256'' (rsa_selector r) domain names bh input (rsa_sign r) of
                            Some line \<Rightarrow> line | None \<Rightarrow> [])))))"

section \<open>Splitting a message with a header line in front\<close>

lemma find_str_skip: "CR \<notin> set p \<Longrightarrow> find_str (crlf @ crlf) (p @ t) = map_option ((+) (length p)) (find_str (crlf @ crlf) t)"
  by (induction p; cases "find_str (crlf @ crlf) t") (auto simp: starts_with_def crlf_def)

lemma find_body_start_line:
  assumes "CR \<notin> set p" "\<not> starts_with crlf raw" "l = p @ crlf"
  shows "find_body_start (l @ raw) = (let (e, b) = find_body_start raw in (length l + e, length l + b))"
proof -
  have "find_str (crlf @ crlf) (crlf @ raw) = map_option ((+) 2) (find_str (crlf @ crlf) raw)"
    using assms(2) by (cases "find_str (crlf @ crlf) raw") (simp_all add: crlf_def starts_with_def)
  then have "find_str (crlf @ crlf) (l @ raw) = map_option ((+) (length l)) (find_str (crlf @ crlf) raw)"
    using find_str_skip [OF assms(1), of "crlf @ raw"]
    by (cases "find_str (crlf @ crlf) raw") (simp_all add: assms(3) crlf_def)
  then show ?thesis
    by (auto simp: find_body_start_def split: option.splits)
qed

lemma from_utf8_line: "is_ascii l \<Longrightarrow> from_utf8 (l @ x) = map_option ((@) l) (from_utf8 x)"
proof -
  assume "is_ascii l"
  then have "list_all fst (utf8_chunks (l @ x)) \<longleftrightarrow> list_all fst (utf8_chunks x)"
  proof (induction l)
    case (Cons c l)
    then show ?case
      by (simp add: utf8_chunks.simps(2) utf8_head_ascii is_ascii_def)
  qed simp
  then show ?thesis
    by (simp add: from_utf8_def)
qed

lemma lines_crlf_line: "CR \<notin> set p \<Longrightarrow> lines_crlf (p @ crlf @ x) = (p @ crlf) # lines_crlf x"
proof (induction p)
  case (Cons c p)
  obtain d t where "p @ crlf @ x = d # t"
    by (cases "p @ crlf @ x") (auto simp: crlf_def)
  then show ?case
    using Cons by auto
qed (simp add: crlf_def)

text \<open>The loop only appends to the headers it was given, and starts anew at a line that is not folded.\<close>

lemma push_header_append: "push_header cur (a @ b) = map_option ((@) a) (push_header cur b)"
  by (auto simp: push_header_def option.map_comp comp_def split: option.split)

lemma split_loop_append: "split_loop cur (a @ b) ls = map_option ((@) a) (split_loop cur b ls)"
proof (induction ls arbitrary: cur b)
  case Nil
  then show ?case
    by (simp add: push_header_append)
next
  case (Cons l ls)
  then show ?case
    by (cases "push_header cur b") (auto simp: Let_def push_header_append split: option.split)
qed

definition first_unfolded :: "str list \<Rightarrow> bool" where
  "first_unfolded ls \<longleftrightarrow> (case ls of [] \<Rightarrow> True | l # _ \<Rightarrow> \<not> is_folded (strip_crlf l))"

lemma split_loop_restart:
  assumes "parse_header t = Some h" "first_unfolded ls"
  shows "split_loop (Some t) [] ls = map_option ((#) h) (split_loop None [] ls)"
proof -
  have "split_loop (Some t) [] ls = split_loop None [h] ls"
    using assms by (cases ls) (simp_all add: push_header_def first_unfolded_def)
  then show ?thesis
    using split_loop_append [of None "[h]" "[]" ls] by (cases "split_loop None [] ls") simp_all
qed

text \<open>A message that begins with a header line.\<close>

definition starts_header :: "bytes \<Rightarrow> bool" where
  "starts_header raw \<longleftrightarrow> (case raw of [] \<Rightarrow> False | c # _ \<Rightarrow> c \<noteq> CHR '' '' \<and> c \<noteq> CHR 0x09 \<and> c \<noteq> CR)"

lemma lines_crlf_hd: "s \<noteq> [] \<Longrightarrow> \<exists>l ls. lines_crlf s = (hd s # l) # ls"
  by (cases s rule: lines_crlf.cases) (auto split: list.split)

lemma strip_crlf_hd: "strip_crlf (c # l) = [] \<or> hd (strip_crlf (c # l)) = c"
proof (cases "strip_suffix crlf (c # l)")
  case (Some r)
  then have "c # l = r @ crlf"
    by (simp add: strip_suffix_Some_iff)
  then show ?thesis
    using Some by (cases r) (auto simp: strip_crlf_def)
qed (simp add: strip_crlf_def)

lemma is_folded_hd: "is_folded s \<longleftrightarrow> s \<noteq> [] \<and> (hd s = CHR '' '' \<or> hd s = CHR 0x09)"
  by (cases s) (auto simp: is_folded_def starts_with_iff)

lemma first_unfolded_start: "starts_header raw \<Longrightarrow> first_unfolded (lines_crlf (take e raw))"
proof -
  assume raw: "starts_header raw"
  show ?thesis
  proof (cases "take e raw = []")
    case False
    then obtain l ls where ls: "lines_crlf (take e raw) = (hd raw # l) # ls"
      using lines_crlf_hd [of "take e raw"] by auto
    have "hd raw \<noteq> CHR '' '' \<and> hd raw \<noteq> CHR 0x09"
      using raw by (cases raw) (auto simp: starts_header_def)
    then show ?thesis
      using strip_crlf_hd [of "hd raw" l] by (auto simp: first_unfolded_def ls is_folded_hd)
  next
    case True
    then show ?thesis
      by (simp only: True) (simp add: first_unfolded_def)
  qed
qed

lemma starts_header_no_crlf: "starts_header raw \<Longrightarrow> \<not> starts_with crlf raw"
  by (cases raw) (auto simp: starts_header_def starts_with_iff crlf_def)

lemma strip_crlf_append: "strip_crlf (s @ crlf) = s"
proof -
  have "strip_suffix crlf (s @ crlf) = Some s"
    by (simp add: strip_suffix_Some_iff)
  then show ?thesis
    by (simp add: strip_crlf_def)
qed

definition header_line :: "str \<Rightarrow> str \<Rightarrow> str" where
  "header_line name value = name @ '':'' @ value @ crlf"

lemma trim_end_graphic: "list_all graphic s \<Longrightarrow> trim_end s = s"
proof -
  assume s: "list_all graphic s"
  then have "chars s = map (\<lambda>c. [c]) s"
    by (intro chars_ascii) (auto simp: is_ascii_def list_all_iff graphic_not_whitespace)
  moreover have "dropWhile is_whitespace (map (\<lambda>c. [c]) (rev s)) = map (\<lambda>c. [c]) (rev s)"
    using s by (cases "rev s") (auto simp: list_all_iff graphic_not_whitespace simp del: is_whitespace.simps
        dest: arg_cong [of "rev s" _ set])
  ultimately show ?thesis
    by (simp add: trim_end_def rev_map)
qed

lemma parse_header_line:
  assumes "list_all graphic name" "CHR '':'' \<notin> set name"
  shows "parse_header (header_line name value) = Some \<lparr>hdr_name = name, hdr_value = value\<rparr>"
proof -
  have "strip_suffix crlf (header_line name value) = Some (name @ '':'' @ value)"
    by (simp add: strip_suffix_Some_iff header_line_def)
  moreover have "trim_end name = name"
    using assms(1) by (simp add: trim_end_graphic)
  ultimately show ?thesis
    using assms(2) by (simp add: parse_header_def strip_crlf_def split_once_SomeI)
qed

lemma header_line_facts:
  assumes "list_all graphic name" "is_ascii value" "CR \<notin> set value"
  shows "CR \<notin> set (name @ '':'' @ value)" "is_ascii (header_line name value)"
proof -
  have "CR \<notin> set name"
    using assms(1) by (auto simp: list_all_iff graphic_def)
  then show "CR \<notin> set (name @ '':'' @ value)"
    using assms(3) by simp
  show "is_ascii (header_line name value)"
    using assms(1, 2) by (auto simp: header_line_def is_ascii_def list_all_iff crlf_def is_ascii_char_def graphic_def)
qed

lemma split_message_line:
  assumes name: "list_all graphic name" "CHR '':'' \<notin> set name" "name \<noteq> []"
    and val: "is_ascii value" "CR \<notin> set value" and raw: "starts_header raw"
  shows "split_message (header_line name value @ raw) =
           map_option (\<lambda>m. m\<lparr>msg_headers := \<lparr>hdr_name = name, hdr_value = value\<rparr> # msg_headers m\<rparr>) (split_message raw)"
proof -
  let ?l = "header_line name value"
  note facts = header_line_facts [OF name(1) val]
  have l: "?l = (name @ '':'' @ value) @ crlf"
    by (simp add: header_line_def)
  obtain e b where eb: "find_body_start raw = (e, b)"
    by (rule prod.exhaust)
  have eb': "find_body_start (?l @ raw) = (length ?l + e, length ?l + b)"
    using find_body_start_line [OF facts(1) starts_header_no_crlf [OF raw] l] eb by simp
  have lines: "lines_crlf (?l @ x) = ?l # lines_crlf x" for x
    using lines_crlf_line [OF facts(1), of x] by (simp add: l)
  have content: "strip_crlf ?l = name @ '':'' @ value"
    unfolding l by (rule strip_crlf_append)
  have unfolded: "\<not> is_folded (name @ '':'' @ value)"
    using name(1, 3) by (cases name) (auto simp: is_folded_hd graphic_def)
  have loop: "split_loop None [] (?l # lines_crlf (take e raw)) =
      map_option ((#) \<lparr>hdr_name = name, hdr_value = value\<rparr>) (split_loop None [] (lines_crlf (take e raw)))"
    using split_loop_restart [OF parse_header_line [OF name(1, 2)] first_unfolded_start [OF raw], of "value" e] unfolded
    by (simp add: content push_header_def)
  show ?thesis
    by (cases "from_utf8 (take e raw)")
       (auto simp: split_message_def eb eb' from_utf8_line [OF facts(2)] lines loop from_utf8_SomeD
         option.map_comp comp_def simp del: split_loop.simps dest!: from_utf8_SomeD)
qed

section \<open>The signer splits like the verifier\<close>

lemma concat_lines_crlf [simp]: "concat (lines_crlf s) = s"
proof (induction s rule: lines_crlf.induct)
  case (3 x y xs)
  then show ?case
    using lines_crlf_hd [of "y # xs"] by (cases "x = CR \<and> y = LF") auto
qed simp_all

lemma find_str_None_iff: "p \<noteq> [] \<Longrightarrow> find_str p s = None \<longleftrightarrow> (\<forall>a b. s \<noteq> a @ p @ b)"
proof (induction s)
  case (Cons x s)
  have "(\<exists>a b. x # s = a @ p @ b) \<longleftrightarrow> starts_with p (x # s) \<or> (\<exists>a b. s = a @ p @ b)"
    unfolding starts_with_iff by (metis Cons_eq_append_conv append_Cons append_Nil)
  then show ?case
    using Cons by auto
qed simp

lemma find_str_first: "find_str p s = Some i \<Longrightarrow> s = a @ p @ b \<Longrightarrow> i \<le> length a"
proof (induction s arbitrary: i a)
  case (Cons x s)
  note step = Cons
  show ?case
  proof (cases a)
    case Nil
    then have "starts_with p (x # s)"
      using Cons.prems(2) by (auto simp: starts_with_iff)
    then show ?thesis
      using Cons.prems(1) by simp
  next
    case (Cons c as)
    then show ?thesis
      using step(1) [of _ as] step(2, 3) by (auto split: if_splits)
  qed
qed (simp split: if_splits)

lemma find_str_take:
  assumes "find_str p s = Some i" "j < i + length p" "p \<noteq> []"
  shows "find_str p (take j s) = None"
proof -
  have "take j s \<noteq> a @ p @ b" for a b
  proof
    assume eq: "take j s = a @ p @ b"
    then have "s = a @ p @ (b @ drop j s)"
      by (metis append_assoc append_take_drop_id)
    then have "i \<le> length a"
      by (rule find_str_first [OF assms(1)])
    moreover have "length a + length p \<le> j"
      using arg_cong [OF eq, of length] by simp
    ultimately show False
      using assms(2) by simp
  qed
  then show ?thesis
    using assms(3) by (simp add: find_str_None_iff)
qed

lemma lines_no_blank: "find_str (crlf @ crlf) s = None \<Longrightarrow> crlf \<notin> set (tl (lines_crlf s))"
proof (induction s rule: lines_crlf.induct)
  case (3 x y xs)
  show ?case
  proof (cases "x = CR \<and> y = LF")
    case True
    have rest: "find_str (crlf @ crlf) xs = None" "\<not> starts_with crlf xs"
      using 3(3) True by (auto simp: crlf_def starts_with_def split: if_splits)
    have "crlf \<notin> set (lines_crlf xs)"
    proof (cases "xs = []")
      case False
      then obtain l ls where ls: "lines_crlf xs = (hd xs # l) # ls"
        using lines_crlf_hd by blast
      have "hd xs # l \<noteq> crlf"
      proof
        assume "hd xs # l = crlf"
        moreover have "concat (lines_crlf xs) = xs"
          by (rule concat_lines_crlf)
        ultimately show False
          using rest(2) ls by (auto simp: starts_with_iff)
      qed
      then show ?thesis
        using 3(1) [OF True rest(1)] ls by simp
    qed simp
    then show ?thesis
      using True by simp
  next
    case False
    then have "find_str (crlf @ crlf) (y # xs) = None"
      using 3(3) by (auto simp: starts_with_def crlf_def split: if_splits)
    then show ?thesis
      using 3(2) [OF False] False by (auto split: list.splits)
  qed
qed simp_all

lemma collect_loop_append: "collect_loop cur (a @ b) ls = a @ collect_loop cur b ls"
proof -
  have "push_text c (a @ d) = a @ push_text c d" for c d
    by (simp add: push_text_def split: option.split)
  then show ?thesis
    by (induction ls arbitrary: cur b) (auto simp: Let_def split: option.split)
qed

lemma strip_crlf_Nil_iff: "strip_crlf l = [] \<longleftrightarrow> l = [] \<or> l = crlf"
  by (auto simp: strip_crlf_def strip_suffix_Some_iff split: option.splits)
     (auto simp: strip_suffix_def crlf_def)

lemma lines_crlf_nonempty: "[] \<notin> set (lines_crlf s)"
  by (induction s rule: lines_crlf.induct) (auto split: list.splits)

lemma split_loop_collect:
  assumes "crlf \<notin> set ls" "[] \<notin> set ls" "those (map parse_header (collect_loop (Some t) [] ls)) = Some hs"
  shows "split_loop (Some t) [] ls = Some hs"
  using assms
proof (induction ls arbitrary: t hs)
  case Nil
  then show ?case
    by (auto simp: push_text_def push_header_def split: option.splits)
next
  case (Cons l ls)
  have content: "strip_crlf l \<noteq> []"
    using Cons.prems(1, 2) by (auto simp: strip_crlf_Nil_iff)
  show ?case
  proof (cases "is_folded (strip_crlf l)")
    case True
    then show ?thesis
      using Cons by simp
  next
    case False
    then have col: "collect_loop (Some t) [] (l # ls) = t # collect_loop (Some l) [] ls"
      using content collect_loop_append [of "Some l" "[t]" "[]" ls] by (simp add: push_text_def)
    obtain h rest where h: "parse_header t = Some h" and rest: "those (map parse_header (collect_loop (Some l) [] ls)) = Some rest"
      and hs: "hs = h # rest"
      using Cons.prems(3) unfolding col by (auto split: option.splits)
    have "split_loop (Some l) [] ls = Some rest"
      using Cons.IH [OF _ _ rest] Cons.prems(1, 2) by simp
    then show ?thesis
      using False content h hs split_loop_append [of "Some l" "[h]" "[]" ls] by (simp add: push_header_def)
  qed
qed

lemma block_no_blank:
  assumes "starts_header raw" "find_body_start raw = (e, b)"
  shows "crlf \<notin> set (lines_crlf (take e raw))"
proof -
  have "find_str (crlf @ crlf) (take e raw) = None"
  proof (cases "find_str (crlf @ crlf) raw")
    case (Some i)
    then show ?thesis
      using assms(2) find_str_take [OF Some, of e] by (auto simp: find_body_start_def crlf_def)
  qed (use assms(2) in \<open>auto simp: find_body_start_def\<close>)
  then have tail: "crlf \<notin> set (tl (lines_crlf (take e raw)))"
    by (rule lines_no_blank)
  show ?thesis
  proof (cases "take e raw = []")
    case False
    then obtain l ls where ls: "lines_crlf (take e raw) = (hd raw # l) # ls"
      using lines_crlf_hd [of "take e raw"] by auto
    have "hd raw \<noteq> CR"
      using assms(1) by (cases raw) (auto simp: starts_header_def)
    then show ?thesis
      using tail ls by (auto simp: crlf_def)
  next
    case True
    then show ?thesis
      by (simp only: True) simp
  qed
qed

lemma sign_split_message:
  assumes "starts_header raw" "sign_split raw = Some (hs, body)"
  shows "split_message raw = Some \<lparr>msg_headers = hs, msg_body = body\<rparr>"
proof -
  obtain e b where eb: "find_body_start raw = (e, b)"
    by (rule prod.exhaust)
  let ?ls = "lines_crlf (take e raw)"
  have utf: "from_utf8 (take e raw) = Some (take e raw)"
    and those: "those (map parse_header (collect_loop None [] ?ls)) = Some hs" and body: "body = drop b raw"
    using assms(2) from_utf8_SomeD [of "take e raw"]
    by (auto simp: sign_split_def eb bind_eq_Some_conv)
  have "split_loop None [] ?ls = Some hs"
  proof (cases ?ls)
    case Nil
    then show ?thesis
      using those by (simp add: push_text_def push_header_def)
  next
    case (Cons l ls)
    have "\<not> is_folded (strip_crlf l)"
      using first_unfolded_start [OF assms(1), of e] Cons by (simp add: first_unfolded_def)
    moreover have "strip_crlf l \<noteq> []"
      using block_no_blank [OF assms(1) eb] lines_crlf_nonempty [of "take e raw"] Cons by (auto simp: strip_crlf_Nil_iff)
    ultimately show ?thesis
      using those Cons split_loop_collect [of ls l hs] block_no_blank [OF assms(1) eb] lines_crlf_nonempty [of "take e raw"]
      by (simp add: push_text_def push_header_def)
  qed
  then show ?thesis
    by (simp add: split_message_def eb utf body)
qed

section \<open>Reading back the signature header\<close>

lemma compact_graphic: "list_all graphic v \<Longrightarrow> compact v = v"
proof -
  assume v: "list_all graphic v"
  then have "chars v = map (\<lambda>c. [c]) v"
    by (intro chars_ascii) (auto simp: is_ascii_def list_all_iff graphic_not_whitespace)
  moreover have "filter (\<lambda>c. \<not> is_whitespace c) (map (\<lambda>c. [c]) v) = map (\<lambda>c. [c]) v"
    using v by (intro filter_True) (auto simp: list_all_iff graphic_not_whitespace simp del: is_whitespace.simps)
  ultimately show ?thesis
    by (simp add: compact_def)
qed

lemma tags_loop_step:
  assumes "list_all graphic n" "list_all graphic v" "CHR ''='' \<notin> set n" "n \<noteq> []"
  shows "tags_loop K ((CHR '' '' # n @ CHR ''='' # v) # rest) t = and_then (apply_tag K n v t) (tags_loop K rest)"
proof -
  have "trim (CHR '' '' # n @ CHR ''='' # v) = n @ CHR ''='' # v"
    using assms by (simp add: trim_space trim_graphic graphic_def)
  then show ?thesis
    using assms by (simp add: split_once_SomeI trim_graphic compact_graphic)
qed

text \<open>A text that can stand as the value of a tag.\<close>

definition token :: "str \<Rightarrow> bool" where
  "token s \<longleftrightarrow> list_all graphic s \<and> CHR '';'' \<notin> set s"

lemma token_b64: "b64_alphabet K \<Longrightarrow> token (b64_encode K b)"
proof -
  assume "b64_alphabet K"
  then have "list_all b64_char (b64_encode K b)"
    by (simp add: b64_alphabet_def)
  moreover have "graphic c \<and> c \<noteq> CHR '';''" if "b64_char c" for c
    using that by (auto simp: b64_char_def graphic_def ascii_simps)
  ultimately show ?thesis
    by (auto simp: token_def list_all_iff)
qed

definition segments :: "str \<Rightarrow> str \<Rightarrow> str \<Rightarrow> str \<Rightarrow> str \<Rightarrow> str \<Rightarrow> str list" where
  "segments algorithm sel domain names bh g =
     ['' v=1'', '' a='' @ algorithm, '' c=relaxed/relaxed'', '' d='' @ domain, '' s='' @ sel, '' h='' @ names,
      '' bh='' @ bh, '' b='' @ g]"

lemma signature_value_segments:
  "signature_value algorithm sel domain names bh @ g = join '';'' (segments algorithm sel domain names bh g)"
  by (simp add: signature_value_def segments_def)

lemma split_signature_value:
  assumes "token algorithm" "token sel" "token domain" "token names" "token bh" "token g"
  shows "split_on (CHR '';'') (signature_value algorithm sel domain names bh @ g) = segments algorithm sel domain names bh g"
  unfolding signature_value_segments
  by (rule split_on_join) (use assms in \<open>auto simp: segments_def token_def\<close>)

lemma strip_b_segment:
  assumes "graphic c"
  shows "strip_b (CHR '' '' # c # s) =
           (if starts_with ''b='' (c # s) \<or> starts_with ''b ='' (c # s) then '' b='' else CHR '' '' # c # s)"
proof -
  have "trim_start (CHR '' '' # c # s) = trim_start (c # s)"
    by (simp add: trim_start_def chars_Cons_ascii is_ascii_char_def)
  also have "\<dots> = c # s"
    using graphic_not_whitespace [OF assms] by (intro trim_start_ascii_hd) simp_all
  finally show ?thesis
    by (simp add: strip_b_def)
qed

lemma strip_b_tag_value:
  assumes "token algorithm" "token sel" "token domain" "token names" "token bh" "token g"
  shows "strip_b_tag (signature_value algorithm sel domain names bh @ g) = signature_value algorithm sel domain names bh"
proof -
  have "map strip_b (segments algorithm sel domain names bh g) = segments algorithm sel domain names bh []"
    by (simp add: segments_def strip_b_segment starts_with_def graphic_def)
  then show ?thesis
    unfolding strip_b_tag_def split_signature_value [OF assms]
    using signature_value_segments [of algorithm sel domain names bh "[]"] by simp
qed

lemma parse_signature_value:
  assumes K: "b64_roundtrip K" "b64_alphabet K" and tok: "token sel" "token domain" "token (join '':'' names)"
    and low: "to_ascii_lowercase sel = sel" "to_ascii_lowercase domain = domain"
    and names: "''from'' \<in> set names" "\<And>n. n \<in> set names \<Longrightarrow> CHR '':'' \<notin> set n \<and> to_ascii_lowercase n = n"
  shows "parse_signature K (signature_value ''ed25519-sha256'' sel domain (join '':'' names) (b64_encode K h) @ b64_encode K g) =
           Inr \<lparr>sig_algorithm = Ed25519Sha256, sig_domain = domain, sig_selector = sel, signed_headers = names, body_hash = h,
             sig_signature = g, header_canon = Relaxed, body_canon = Relaxed, body_length = None, sig_expiration = None\<rparr>"
proof -
  let ?segs = "segments ''ed25519-sha256'' sel domain (join '':'' names) (b64_encode K h) (b64_encode K g)"
  note b64 = token_b64 [OF K(2)]
  have alg: "token ''ed25519-sha256''" and token_lits: "token ''1''" "token ''relaxed/relaxed''"
    by code_simp+
  have split: "split_on (CHR '':'') (join '':'' names) = names"
    using names by (intro split_on_join) auto
  have low_names: "map to_ascii_lowercase names = names"
    using names(2) by (intro map_idI) blast
  have dec: "decode_base64 K (b64_encode K x) tg = Inr x" for x tg
    using K(1) by (simp add: decode_base64_def b64_roundtrip_def)
  have steps: "tags_loop K ((CHR '' '' # n @ CHR ''='' # v) # rest) t = and_then (apply_tag K n v t) (tags_loop K rest)"
    if "list_all graphic n" "token v" "CHR ''='' \<notin> set n" "n \<noteq> []" for n v rest t
    using tags_loop_step [of n v K rest t] that by (simp add: token_def)
  have "tags_loop K ?segs no_tags =
      Inr \<lparr>tg_version = Some ''1'', tg_algorithm = Some Ed25519Sha256, tg_domain = Some domain, tg_selector = Some sel,
        tg_headers = Some names, tg_body_hash = Some h, tg_signature = Some g, tg_header_canon = Relaxed,
        tg_body_canon = Relaxed, tg_length = None, tg_expiration = None\<rparr>"
    using steps [of "''v''" "''1''"] steps [of "''a''" "''ed25519-sha256''"] steps [of "''c''" "''relaxed/relaxed''"]
      steps [of "''d''" domain] steps [of "''s''" sel] steps [of "''h''" "join '':'' names"]
      steps [of "''bh''" "b64_encode K h"] steps [of "''b''" "b64_encode K g"]
    by (simp add: segments_def apply_tag_def parse_algorithm_def parse_canon_def split_once_def alg tok b64 low split
        low_names dec no_tags_def token_lits graphic_def del: tags_loop.simps(2))
  then show ?thesis
    using names(1) by (simp add: parse_signature_def split_signature_value alg tok b64 list_ex_iff)
qed

section \<open>The signed headers\<close>

definition piece :: "Canon \<Rightarrow> Header list \<Rightarrow> str \<Rightarrow> str" where
  "piece c avail n = (case find (named n) avail of Some h \<Rightarrow> canon_header c (hdr_name h) (hdr_value h) | None \<Rightarrow> [])"

lemma bottom_up_distinct:
  "distinct (map to_ascii_lowercase names) \<Longrightarrow> bottom_up c avail names = concat (map (piece c avail) names)"
proof (induction names arbitrary: avail)
  case (Cons k ks)
  show ?case
  proof (cases "take_first (named k) avail")
    case None
    then have "find (named k) avail = None"
      using take_first_find [of "named k" avail] by simp
    then show ?thesis
      using Cons None by (simp add: piece_def)
  next
    case (Some p)
    obtain h rest where p: "p = (h, rest)"
      by (rule prod.exhaust)
    have find: "find (named k) avail = Some h" and h: "named k h"
      using Some p take_first_find [of "named k" avail] take_first_holds [of "named k" avail h rest] by simp_all
    have "piece c rest n = piece c avail n" if "n \<in> set ks" for n
    proof -
      have "\<not> named n h"
        using h that Cons.prems by (auto simp: eq_ignore_ascii_case_def)
      then show ?thesis
        using take_first_other [of "named k" avail h rest "named n"] Some p by (simp add: piece_def)
    qed
    then have "map (piece c rest) ks = map (piece c avail) ks"
      by simp
    moreover have "bottom_up c avail (k # ks) = canon_header c (hdr_name h) (hdr_value h) @ concat (map (piece c rest) ks)"
      using Some p Cons.IH [of rest] Cons.prems by simp
    ultimately show ?thesis
      using find by (simp only: list.map concat.simps) (simp add: piece_def)
  qed
qed simp

lemma signable_spec:
  "signable hs ns = (names, input) \<Longrightarrow>
     names = filter (\<lambda>n. find (named n) (rev hs) \<noteq> None) ns \<and> input = concat (map (piece Relaxed (rev hs)) names)"
  by (induction ns arbitrary: names input) (auto simp: piece_def split: prod.splits option.splits)

lemma signable_covers:
  assumes "signable hs SIGNED_HEADERS = (names, input)" "\<And>h. h \<in> set extra \<Longrightarrow> is_dkim h"
  shows "bottom_up Relaxed (rev (extra @ hs)) names = input"
proof -
  have names: "names = filter (\<lambda>n. find (named n) (rev hs) \<noteq> None) SIGNED_HEADERS"
    and input: "input = concat (map (piece Relaxed (rev hs)) names)"
    using signable_spec [OF assms(1)] by blast+
  have "distinct (map to_ascii_lowercase SIGNED_HEADERS)"
    by code_simp
  then have dist: "distinct (map to_ascii_lowercase names)"
    unfolding names by (rule distinct_map_filter)
  have "piece Relaxed (rev (extra @ hs)) n = piece Relaxed (rev hs) n" if n: "n \<in> set names" for n
  proof -
    obtain h where "find (named n) (rev hs) = Some h"
      using n unfolding names by auto
    moreover have "find P (xs @ ys) = (case find P xs of None \<Rightarrow> find P ys | Some x \<Rightarrow> Some x)" for P :: "Header \<Rightarrow> bool" and xs ys
      by (induction xs) auto
    ultimately show ?thesis
      by (simp add: piece_def)
  qed
  then have "map (piece Relaxed (rev (extra @ hs))) names = map (piece Relaxed (rev hs)) names"
    by simp
  then show ?thesis
    by (simp only: bottom_up_distinct [OF dist] input)
qed

lemma signed_names:
  assumes "signable hs SIGNED_HEADERS = (names, input)"
  shows "n \<in> set names \<Longrightarrow> CHR '':'' \<notin> set n \<and> to_ascii_lowercase n = n" "token (join '':'' names)"
proof -
  have "list_all (\<lambda>n. CHR '':'' \<notin> set n \<and> to_ascii_lowercase n = n \<and> token n) SIGNED_HEADERS"
    by code_simp
  then have all: "CHR '':'' \<notin> set n \<and> to_ascii_lowercase n = n \<and> token n" if "n \<in> set names" for n
    using that signable_spec [OF assms] by (auto simp: list_all_iff)
  show "n \<in> set names \<Longrightarrow> CHR '':'' \<notin> set n \<and> to_ascii_lowercase n = n"
    using all by blast
  have "token (join '':'' xs)" if "\<And>n. n \<in> set xs \<Longrightarrow> token n" for xs
    using that
  proof (induction xs rule: induct_list012)
    case (3 x y zs)
    then show ?case
      by (auto simp: token_def graphic_def)
  qed (auto simp: token_def)
  then show "token (join '':'' names)"
    using all by blast
qed

section \<open>Signing and verifying\<close>

lemma parse_key_record:
  assumes "b64_roundtrip K" "b64_alphabet K"
  shows "parse_key K (dns_record_value K s) = Some (key_public s)"
proof -
  let ?p = "b64_encode K (key_public s)"
  have p: "list_all graphic ?p" "CHR '';'' \<notin> set ?p"
    using token_b64 [OF assms(2), of "key_public s"] by (simp_all add: token_def)
  have rec: "dns_record_value K s = join '';'' [''v=DKIM1'', '' k=ed25519'', '' p='' @ ?p]"
    by (simp add: dns_record_value_def)
  have "split_on (CHR '';'') (dns_record_value K s) = [''v=DKIM1'', '' k=ed25519'', '' p='' @ ?p]"
    unfolding rec by (rule split_on_join) (use p(2) in auto)
  moreover have "trim ''v=DKIM1'' = ''v=DKIM1''" "trim '' k=ed25519'' = ''k=ed25519''"
    by code_simp+
  moreover have "trim ('' p='' @ ?p) = ''p='' @ ?p"
    using p(1) by (simp add: trim_space trim_graphic graphic_def)
  ultimately show ?thesis
    using assms(1) compact_graphic [OF p(1)] by (simp add: parse_key_def b64_roundtrip_def)
qed

text \<open>A signature line is a header line, and splitting it off leaves the message.\<close>

lemma printable_line: "list_all printable s \<Longrightarrow> is_ascii s \<and> CR \<notin> set s"
  by (induction s) (auto simp: is_ascii_def printable_def is_ascii_char_def)

lemma dkim_line_split:
  assumes "token algorithm" "token sel" "token domain" "token names" "token bh" "token g" "starts_header raw"
  shows "split_message (header_line ''DKIM-Signature'' (signature_value algorithm sel domain names bh @ g) @ raw) =
           map_option (\<lambda>m. m\<lparr>msg_headers := \<lparr>hdr_name = ''DKIM-Signature'',
             hdr_value = signature_value algorithm sel domain names bh @ g\<rparr> # msg_headers m\<rparr>) (split_message raw)"
proof (rule split_message_line)
  have "list_all printable (signature_value algorithm sel domain names bh @ g)"
    using assms by (auto simp: signature_value_def token_def list_all_iff printable_def graphic_def)
  then show "is_ascii (signature_value algorithm sel domain names bh @ g)" "CR \<notin> set (signature_value algorithm sel domain names bh @ g)"
    using printable_line by blast+
qed (use assms in \<open>auto simp: graphic_def\<close>)

lemma starts_header_dkim: "starts_header (header_line ''DKIM-Signature'' v @ raw)"
  by (simp add: header_line_def starts_header_def)

lemma own_line_value:
  assumes "token algorithm" "token sel" "token domain" "token names" "token bh" "token g"
  shows "own_line Relaxed \<lparr>hdr_name = ''DKIM-Signature'', hdr_value = signature_value algorithm sel domain names bh @ g\<rparr> =
           (let l = canon_header Relaxed ''DKIM-Signature'' (signature_value algorithm sel domain names bh) in take (length l - 2) l)"
proof -
  have "ends_with crlf (canon_header Relaxed n v)" for n v
    by (auto simp: ends_with_iff canon_header_def)
  then show ?thesis
    by (simp add: own_line_def strip_b_tag_value [OF assms])
qed

text \<open>The documented behaviour of the key pair: the public key verifies what the private key signed.\<close>

definition key_pair_ok :: "verifier \<Rightarrow> Signer \<Rightarrow> bool" where
  "key_pair_ok vf s \<longleftrightarrow> (\<forall>m. vf Ed25519Sha256 (key_public s) m (key_sign s m))"

lemma one_signature_eq:
  "one_signature K algorithm sel domain names bh input f =
     (let val = signature_value algorithm sel domain names bh;
          l = canon_header Relaxed ''DKIM-Signature'' val
      in map_option (\<lambda>g. header_line ''DKIM-Signature'' (val @ b64_encode K g)) (f (input @ take (length l - 2) l)))"
  by (simp add: one_signature_def header_line_def)

text \<open>The additional RSA line, if any, is one more signature header.\<close>

lemma rsa_line_split:
  assumes "b64_alphabet K" "token domain" "token names" "pred_option (\<lambda>r. token (rsa_selector r)) (rsa s)"
    and raw: "starts_header raw" "split_message raw = Some m"
  obtains extra where
    "split_message ((case rsa s of None \<Rightarrow> [] | Some r \<Rightarrow>
        (case one_signature K ''rsa-sha256'' (rsa_selector r) domain names (b64_encode K h) input (rsa_sign r) of
           Some line \<Rightarrow> line | None \<Rightarrow> [])) @ raw) = Some (m\<lparr>msg_headers := extra @ msg_headers m\<rparr>)"
    "\<And>h. h \<in> set extra \<Longrightarrow> is_dkim h"
    "starts_header ((case rsa s of None \<Rightarrow> [] | Some r \<Rightarrow>
        (case one_signature K ''rsa-sha256'' (rsa_selector r) domain names (b64_encode K h) input (rsa_sign r) of
           Some line \<Rightarrow> line | None \<Rightarrow> [])) @ raw)"
proof (cases "rsa s")
  case None
  then show ?thesis
    using raw by (intro that [of "[]"]) simp_all
next
  case (Some r)
  show ?thesis
  proof (cases "one_signature K ''rsa-sha256'' (rsa_selector r) domain names (b64_encode K h) input (rsa_sign r)")
    case None
    then show ?thesis
      using raw Some by (intro that [of "[]"]) simp_all
  next
    case (Some line)
    then obtain g where line: "line = header_line ''DKIM-Signature''
        (signature_value ''rsa-sha256'' (rsa_selector r) domain names (b64_encode K h) @ b64_encode K g)"
      by (auto simp: one_signature_eq Let_def)
    have "token ''rsa-sha256''"
      by code_simp
    then have "split_message (line @ raw) = Some (m\<lparr>msg_headers := [\<lparr>hdr_name = ''DKIM-Signature'',
        hdr_value = signature_value ''rsa-sha256'' (rsa_selector r) domain names (b64_encode K h) @ b64_encode K g\<rparr>] @ msg_headers m\<rparr>)"
      unfolding line using assms(2-4) token_b64 [OF assms(1)] \<open>rsa s = Some r\<close> raw by (subst dkim_line_split) simp_all
    then show ?thesis
      using Some \<open>rsa s = Some r\<close> line starts_header_dkim
      by (intro that [of "[\<lparr>hdr_name = ''DKIM-Signature'',
            hdr_value = signature_value ''rsa-sha256'' (rsa_selector r) domain names (b64_encode K h) @ b64_encode K g\<rparr>]"])
         (auto simp: is_dkim_def eq_ignore_ascii_case_def)
  qed
qed

text \<open>C9. What the server signs, its verifier passes: for every message that begins with a header line,
  when the domain publishes the record of the signing key, the first result of verifying the signed
  message is a pass for the domain, with or without the additional RSA signature.\<close>

theorem dkim_sign_verifies:
  assumes "b64_roundtrip K" "b64_alphabet K" "key_pair_ok vf s"
    and "token domain" "to_ascii_lowercase domain = domain" "token (selector s)" "to_ascii_lowercase (selector s) = selector s"
    and "pred_option (\<lambda>r. token (rsa_selector r)) (rsa s)"
    and "dns_txt D (selector s @ ''._domainkey.'' @ domain) = Some [dns_record_value K s]"
    and "starts_header raw" "sign K s domain raw = Some out"
  shows "\<exists>rest. verify_message K vf D now (out @ raw) = dkim_result DkimPass (Some domain) # rest"
proof -
  obtain hs body where split: "sign_split raw = Some (hs, body)"
    using assms(11) by (cases "sign_split raw") (auto simp: sign_def)
  obtain names input where sgn: "signable hs SIGNED_HEADERS = (names, input)"
    by (rule prod.exhaust)
  define bh where "bh = b64_encode K (sha256 K (canon_body Relaxed body))"
  define val where "val = signature_value ''ed25519-sha256'' (selector s) domain (join '':'' names) bh"
  define line where "line = (let l = canon_header Relaxed ''DKIM-Signature'' val in take (length l - 2) l)"
  define g where "g = b64_encode K (key_sign s (input @ line))"
  define rest where "rest = (case rsa s of None \<Rightarrow> [] | Some r \<Rightarrow>
      (case one_signature K ''rsa-sha256'' (rsa_selector r) domain (join '':'' names) bh input (rsa_sign r) of
         Some line \<Rightarrow> line | None \<Rightarrow> []))"
  have ed: "one_signature K ''ed25519-sha256'' (selector s) domain (join '':'' names) bh input (\<lambda>m. Some (key_sign s m)) =
      Some (header_line ''DKIM-Signature'' (val @ g))"
    by (simp add: one_signature_eq g_def line_def val_def Let_def)
  have out: "out = header_line ''DKIM-Signature'' (val @ g) @ rest" and has_from: "''from'' \<in> set names"
    using assms(11) ed by (simp_all add: sign_def split sgn rest_def bh_def [symmetric] split: if_splits)
  have alg: "token ''ed25519-sha256''" "token ''rsa-sha256''"
    by code_simp+
  note toks = alg(1) assms(6, 4) signed_names(2) [OF sgn] token_b64 [OF assms(2), of "sha256 K (canon_body Relaxed body)", folded bh_def]
    token_b64 [OF assms(2), of "key_sign s (input @ line)", folded g_def]
  have raw: "split_message raw = Some \<lparr>msg_headers = hs, msg_body = body\<rparr>"
    by (rule sign_split_message [OF assms(10) split])
  obtain extra where extra: "split_message (rest @ raw) = Some \<lparr>msg_headers = extra @ hs, msg_body = body\<rparr>"
    "\<And>h. h \<in> set extra \<Longrightarrow> is_dkim h" "starts_header (rest @ raw)"
    using rsa_line_split [OF assms(2, 4) signed_names(2) [OF sgn] assms(8, 10) raw,
        of "sha256 K (canon_body Relaxed body)" input]
    unfolding rest_def bh_def by auto
  let ?h = "\<lparr>hdr_name = ''DKIM-Signature'', hdr_value = val @ g\<rparr>"
  let ?m = "\<lparr>msg_headers = ?h # extra @ hs, msg_body = body\<rparr>"
  have msg: "split_message (out @ raw) = Some ?m"
    using dkim_line_split [OF toks extra(3)] extra(1) by (simp add: out val_def)
  have dkim: "is_dkim ?h"
    by (simp add: is_dkim_def eq_ignore_ascii_case_def)
  have "bottom_up Relaxed (rev (?h # extra @ hs)) names = input"
    using signable_covers [OF sgn, of "?h # extra"] extra(2) dkim by auto
  then have input: "hash_input Relaxed (?h # extra @ hs) names 0 = input @ line"
    using own_line_value [OF toks] hash_loop_all [of Relaxed "?h # extra @ hs" names]
    by (simp add: hash_input_def line_def val_def del: hash_loop.simps)
  have "parse_signature K (val @ g) = Inr \<lparr>sig_algorithm = Ed25519Sha256, sig_domain = domain, sig_selector = selector s,
      signed_headers = names, body_hash = sha256 K (canon_body Relaxed body), sig_signature = key_sign s (input @ line),
      header_canon = Relaxed, body_canon = Relaxed, body_length = None, sig_expiration = None\<rparr>"
    unfolding val_def bh_def g_def
    by (rule parse_signature_value) (use assms signed_names [OF sgn] has_from in auto)
  then have "verify_one K vf D now ?m 0 (val @ g) = dkim_result DkimPass (Some domain)"
    using assms(3, 9) parse_key_record [OF assms(1, 2)] input
    by (simp add: verify_one_def expired_def limited_body_def check_key_def key_name_def key_pair_ok_def)
  then show ?thesis
    using dkim by (simp add: verify_message_def msg)
qed

text \<open>A signer whose signatures are its public key, and a message.\<close>

definition sample_signer :: Signer where
  "sample_signer = \<lparr>selector = ''s'', key_sign = (\<lambda>_. [CHR 0x00, CHR 0x01]), key_public = [CHR 0x00, CHR 0x01], rsa = None\<rparr>"

definition sample_message :: bytes where
  "sample_message = ''From: a'' @ crlf @ crlf"

definition sample_signer_dns :: dns where
  "sample_signer_dns = \<lparr>dns_txt = (\<lambda>n. if n = ''s._domainkey.a'' then Some [dns_record_value sample_crates sample_signer] else Some []),
     dns_addresses = (\<lambda>_. Some []), dns_mx = (\<lambda>_. Some [])\<rparr>"

theorem dkim_sign_verifies_witness:
  "\<exists>out rest. sign sample_crates sample_signer ''a'' sample_message = Some out \<and>
     verify_message sample_crates sample_verifier sample_signer_dns 7 (out @ sample_message) = dkim_result DkimPass (Some ''a'') # rest"
proof -
  have "sign_split sample_message = Some ([\<lparr>hdr_name = ''From'', hdr_value = '' a''\<rparr>], [])"
    by code_simp
  moreover have "signable [\<lparr>hdr_name = ''From'', hdr_value = '' a''\<rparr>] SIGNED_HEADERS = ([''from''], ''from:a'' @ crlf)"
    by code_simp
  ultimately obtain out where out: "sign sample_crates sample_signer ''a'' sample_message = Some out"
    by (simp add: sign_def one_signature_eq Let_def)
  have "key_pair_ok sample_verifier sample_signer" "pred_option (\<lambda>r. token (rsa_selector r)) (rsa sample_signer)"
    "dns_txt sample_signer_dns (selector sample_signer @ ''._domainkey.'' @ ''a'') = Some [dns_record_value sample_crates sample_signer]"
    by (simp_all add: key_pair_ok_def sample_verifier_def sample_signer_def sample_signer_dns_def)
  moreover have "token ''a''" "to_ascii_lowercase ''a'' = ''a''" "token (selector sample_signer)"
    "to_ascii_lowercase (selector sample_signer) = selector sample_signer" "starts_header sample_message"
    by code_simp+
  ultimately show ?thesis
    using out dkim_sign_verifies [of sample_crates sample_verifier sample_signer "''a''" sample_signer_dns sample_message out 7] sample_b64
    by blast
qed

end
