(* ===== verification/File_System.thy ===== *)
theory File_System
  imports Rust_Prelude
begin

text \<open>
  The part of \<^verbatim>\<open>std::fs\<close> the mail store uses, on a value that is the state of the disk.

  A path is its list of components. A file is its content and the time of its last change, in
  nanoseconds since the epoch. An operation that the operating system refuses in the given state (the
  file or the parent directory is missing) is \<open>None\<close>; failures that depend on more than that state, such
  as a full disk, are left out. A crash is the state between two operations.
\<close>

named_theorems fs_simps \<open>unfolds the operations on the disk\<close>

type_synonym path = "str list"

record fs =
  fs_files :: "(path, bytes \<times> nat) hashmap"
  fs_dirs :: "path list"

definition fs_empty :: fs where
  "fs_empty = \<lparr>fs_files = [], fs_dirs = []\<rparr>"

abbreviation fs_get :: "fs \<Rightarrow> path \<Rightarrow> (bytes \<times> nat) option" where
  "fs_get D \<equiv> get (fs_files D)"

abbreviation in_dir :: "path \<Rightarrow> str \<Rightarrow> path" where
  "in_dir d name \<equiv> d @ [name]"

definition is_dir :: "fs \<Rightarrow> path \<Rightarrow> bool" where
  "is_dir D p \<longleftrightarrow> p \<in> set (fs_dirs D)"

definition fs_read :: "fs \<Rightarrow> path \<Rightarrow> bytes option" where
  "fs_read D p = map_option fst (fs_get D p)"

definition read_to_string :: "fs \<Rightarrow> path \<Rightarrow> str option" where
  "read_to_string D p = Option.bind (fs_read D p) from_utf8"

definition fs_write :: "nat \<Rightarrow> path \<Rightarrow> bytes \<Rightarrow> fs \<Rightarrow> fs option" where
  "fs_write now p bs D =
     (if is_dir D (butlast p) \<and> \<not> is_dir D p then Some (D\<lparr>fs_files := hm_insert p (bs, now) (fs_files D)\<rparr>) else None)"

definition remove_key :: "'k \<Rightarrow> ('k, 'v) hashmap \<Rightarrow> ('k, 'v) hashmap" where
  "remove_key k m = filter (\<lambda>(k', v). k' \<noteq> k) m"

definition fs_remove :: "path \<Rightarrow> fs \<Rightarrow> fs option" where
  "fs_remove p D = (if fs_get D p \<noteq> None then Some (D\<lparr>fs_files := remove_key p (fs_files D)\<rparr>) else None)"

definition fs_rename :: "path \<Rightarrow> path \<Rightarrow> fs \<Rightarrow> fs option" where
  "fs_rename p q D =
     (case fs_get D p of
        None \<Rightarrow> None
      | Some f \<Rightarrow>
          if is_dir D (butlast q) \<and> \<not> is_dir D q
          then Some (D\<lparr>fs_files := hm_insert q f (remove_key p (fs_files D))\<rparr>) else None)"

text \<open>\<^verbatim>\<open>create_dir_all\<close> makes the path and every missing parent.\<close>

definition create_dir_all :: "path \<Rightarrow> fs \<Rightarrow> fs option" where
  "create_dir_all p D =
     (if list_ex (\<lambda>n. fs_get D (take n p) \<noteq> None) [0..<Suc (length p)] then None
      else Some (D\<lparr>fs_dirs := fs_dirs D @ filter (\<lambda>q. \<not> is_dir D q) (map (\<lambda>n. take n p) [0..<Suc (length p)])\<rparr>))"

text \<open>The names in a directory; the order is the file system's own.\<close>

definition child_names :: "path \<Rightarrow> path list \<Rightarrow> str list" where
  "child_names d ps = map last (filter (\<lambda>p. p \<noteq> [] \<and> butlast p = d) ps)"

definition read_dir :: "fs \<Rightarrow> path \<Rightarrow> str list option" where
  "read_dir D d = (if is_dir D d then Some (child_names d (map fst (fs_files D)) @ child_names d (fs_dirs D)) else None)"

text \<open>\<open>below d p\<close>: the path is \<open>d\<close> or lies under it.\<close>

definition below :: "path \<Rightarrow> path \<Rightarrow> bool" where
  "below d p \<longleftrightarrow> take (length d) p = d"

definition remove_dir_all :: "path \<Rightarrow> fs \<Rightarrow> fs option" where
  "remove_dir_all d D =
     (if is_dir D d then Some \<lparr>fs_files = filter (\<lambda>(p, f). \<not> below d p) (fs_files D),
                              fs_dirs = filter (\<lambda>p. \<not> below d p) (fs_dirs D)\<rparr> else None)"

text \<open>\<^verbatim>\<open>rename\<close> of a directory; the target may exist only as an empty directory.\<close>

definition moved :: "path \<Rightarrow> path \<Rightarrow> path \<Rightarrow> path" where
  "moved a b p = (if below a p then b @ drop (length a) p else p)"

definition rename_dir :: "path \<Rightarrow> path \<Rightarrow> fs \<Rightarrow> fs option" where
  "rename_dir a b D =
     (if is_dir D a \<and> is_dir D (butlast b) \<and> \<not> below a b \<and> (is_dir D b \<longrightarrow> read_dir D b = Some []) \<and> fs_get D b = None
      then Some \<lparr>fs_files = map (\<lambda>(p, f). (moved a b p, f)) (fs_files D),
                 fs_dirs = map (moved a b) (filter (\<lambda>p. p \<noteq> b) (fs_dirs D))\<rparr>
      else None)"

text \<open>\<^verbatim>\<open>let _ = op\<close>: a failure is ignored.\<close>

definition ignoring :: "('s \<Rightarrow> 's option) \<Rightarrow> 's \<Rightarrow> 's" where
  "ignoring f s = (case f s of Some s' \<Rightarrow> s' | None \<Rightarrow> s)"

text \<open>\<^verbatim>\<open>write(&tmp, ..)\<close> followed by \<^verbatim>\<open>rename(&tmp, ..)\<close>: how every sidecar is replaced.\<close>

definition write_via :: "nat \<Rightarrow> path \<Rightarrow> path \<Rightarrow> bytes \<Rightarrow> fs \<Rightarrow> fs option" where
  "write_via now tmp p bs D = Option.bind (fs_write now tmp bs D) (fs_rename tmp p)"

text \<open>Code that works on the disk and may fail with \<^verbatim>\<open>?\<close>: what was done before the failure stays done.\<close>

type_synonym 'a io = "fs \<Rightarrow> 'a option \<times> fs"

definition io_return :: "'a \<Rightarrow> 'a io" where
  [fs_simps]: "io_return x D = (Some x, D)"

definition io_fail :: "'a io" where
  [fs_simps]: "io_fail D = (None, D)"

definition io_bind :: "'a io \<Rightarrow> ('a \<Rightarrow> 'b io) \<Rightarrow> 'b io" where
  [fs_simps]: "io_bind m f D = (case m D of (None, D') \<Rightarrow> (None, D') | (Some x, D') \<Rightarrow> f x D')"

definition io_do :: "(fs \<Rightarrow> fs option) \<Rightarrow> unit io" where
  [fs_simps]: "io_do f D = (case f D of None \<Rightarrow> (None, D) | Some D' \<Rightarrow> (Some (), D'))"

text \<open>\<^verbatim>\<open>let _ = m\<close>, a look at the disk, and a value that may be missing.\<close>

definition io_try :: "'a io \<Rightarrow> unit io" where
  [fs_simps]: "io_try m D = (Some (), snd (m D))"

definition io_ask :: "(fs \<Rightarrow> 'a) \<Rightarrow> 'a io" where
  [fs_simps]: "io_ask f D = (Some (f D), D)"

definition io_of :: "'a option \<Rightarrow> 'a io" where
  [fs_simps]: "io_of x D = (x, D)"

text \<open>\<^verbatim>\<open>str::lines\<close>.\<close>

definition strip_cr :: "str \<Rightarrow> str" where
  "strip_cr l = (if l \<noteq> [] \<and> last l = CR then butlast l else l)"

definition str_lines :: "str \<Rightarrow> str list" where
  "str_lines s = (let ws = split_on LF s in map strip_cr (if last ws = [] then butlast ws else ws))"

section \<open>Laws\<close>

lemma get_remove_key [simp]: "get (remove_key k m) = (get m)(k := None)"
  by (induction m) (auto simp: remove_key_def fun_eq_iff)

lemma fs_write_Some_iff:
  "fs_write now p bs D = Some D' \<longleftrightarrow>
     is_dir D (butlast p) \<and> \<not> is_dir D p \<and> D' = D\<lparr>fs_files := hm_insert p (bs, now) (fs_files D)\<rparr>"
  by (auto simp: fs_write_def)

lemma write_via_ok:
  assumes "butlast tmp = butlast p" "tmp \<noteq> p" "is_dir D (butlast p)" "\<not> is_dir D tmp" "\<not> is_dir D p"
  shows "write_via now tmp p bs D =
           Some (D\<lparr>fs_files := hm_insert p (bs, now) (remove_key tmp (hm_insert tmp (bs, now) (fs_files D)))\<rparr>)"
  using assms by (simp add: write_via_def fs_write_def fs_rename_def is_dir_def)

lemma write_via_Some:
  assumes "write_via now tmp p bs D = Some D'" "tmp \<noteq> p"
  shows "fs_dirs D' = fs_dirs D \<and> fs_get D' = (fs_get D)(tmp := None, p \<mapsto> (bs, now))"
  using assms by (auto simp: write_via_def fs_write_def fs_rename_def fun_eq_iff bind_eq_Some_conv split: if_splits)

definition wf_fs :: "fs \<Rightarrow> bool" where
  "wf_fs D \<longleftrightarrow> distinct (map fst (fs_files D)) \<and> distinct (fs_dirs D)"

lemma distinct_filter_keys: "distinct (map fst m) \<Longrightarrow> distinct (map fst (filter P m))"
  by (induction m) auto

lemma distinct_hm_insert: "distinct (map fst m) \<Longrightarrow> distinct (map fst (hm_insert k v m))"
  by (auto simp: hm_insert_def distinct_filter_keys)

lemma distinct_remove_key: "distinct (map fst m) \<Longrightarrow> distinct (map fst (remove_key k m))"
  by (simp add: remove_key_def distinct_filter_keys)

lemma wf_fs_write: "wf_fs D \<Longrightarrow> fs_write now p bs D = Some D' \<Longrightarrow> wf_fs D'"
  by (auto simp: wf_fs_def fs_write_def distinct_hm_insert split: if_splits)

lemma wf_fs_remove: "wf_fs D \<Longrightarrow> fs_remove p D = Some D' \<Longrightarrow> wf_fs D'"
  by (auto simp: wf_fs_def fs_remove_def distinct_remove_key split: if_splits)

lemma wf_fs_rename: "wf_fs D \<Longrightarrow> fs_rename p q D = Some D' \<Longrightarrow> wf_fs D'"
  by (auto simp: wf_fs_def fs_rename_def distinct_hm_insert distinct_remove_key split: if_splits option.splits)

lemma wf_fs_write_via: "wf_fs D \<Longrightarrow> write_via now tmp p bs D = Some D' \<Longrightarrow> wf_fs D'"
  unfolding write_via_def bind_eq_Some_conv using wf_fs_write wf_fs_rename by blast

lemma wf_fs_ignoring: "(\<And>D'. f D = Some D' \<Longrightarrow> wf_fs D') \<Longrightarrow> wf_fs D \<Longrightarrow> wf_fs (ignoring f D)"
  by (simp add: ignoring_def split: option.split)

lemmas wf_fs_ops = wf_fs_write wf_fs_remove wf_fs_rename wf_fs_write_via

lemma child_names_iff: "n \<in> set (child_names d ps) \<longleftrightarrow> in_dir d n \<in> set ps"
proof -
  have "p \<noteq> [] \<and> butlast p = d \<and> last p = n \<longleftrightarrow> p = in_dir d n" for p
    by (cases p rule: rev_cases) auto
  moreover have "n \<in> set (child_names d ps) \<longleftrightarrow> (\<exists>p \<in> set ps. p \<noteq> [] \<and> butlast p = d \<and> last p = n)"
    by (auto simp: child_names_def)
  ultimately show ?thesis
    by (simp only: bex_simps) blast
qed

lemma child_names_simps [simp]:
  "child_names d [] = []"
  "child_names d (p # ps) = (if p \<noteq> [] \<and> butlast p = d then last p # child_names d ps else child_names d ps)"
  by (simp_all add: child_names_def)

lemma distinct_child_names: "distinct ps \<Longrightarrow> distinct (child_names d ps)"
proof (induction ps)
  case (Cons p ps)
  have "last p \<notin> set (child_names d ps)" if "p \<noteq> []" "butlast p = d"
    unfolding child_names_iff using Cons.prems that append_butlast_last_id [of p] by simp
  moreover have "distinct (child_names d ps)"
    using Cons by simp
  ultimately show ?case
    by simp
qed simp

lemma key_iff: "p \<in> set (map fst m) \<longleftrightarrow> get m p \<noteq> None"
  by (simp add: map_of_eq_None_iff image_iff)

lemma str_lines_Nil [simp]: "str_lines [] = []"
  by (simp add: str_lines_def)

lemma split_on_line: "LF \<notin> set l \<Longrightarrow> split_on LF (l @ LF # s) = l # split_on LF s"
  by (induction l) auto

lemma str_lines_Cons:
  assumes "LF \<notin> set l"
  shows "str_lines (l @ LF # s) = strip_cr l # str_lines s"
  using assms by (simp add: str_lines_def split_on_line Let_def)

end
