(* ===== verification/Message_Crypto.thy ===== *)
theory Message_Crypto
  imports File_System Crates
begin

text \<open>
  Encryption of stored messages (\<^verbatim>\<open>storage/crypto.rs\<close>): the envelope around a message file, the size a client
  sees of it and where the key comes from. The authenticated encryption of the crypto crate is the
  parameter \<open>A\<close>; what the envelope relies on is \<open>aead_ok\<close>: opening undoes sealing and a sealed text is
  16 octets longer. Random octets, or the failure to get them, are an argument.
\<close>

record aead =
  aead_seal :: "bytes \<Rightarrow> bytes \<Rightarrow> bytes \<Rightarrow> bytes option"
  aead_open :: "bytes \<Rightarrow> bytes \<Rightarrow> bytes \<Rightarrow> bytes option"

definition MAGIC :: bytes where "MAGIC = ''EPENC1'' @ [NUL]"
definition KEY_LEN :: nat where "KEY_LEN = 32"
definition NONCE_LEN :: nat where "NONCE_LEN = 12"
definition OVERHEAD :: nat where "OVERHEAD = length MAGIC + NONCE_LEN + 16"

datatype CryptoError = NoKeySource | KeyFile path | KeyEnvMissing str | KeyMalformed

record MessageCrypto =
  mc_key :: "bytes option"
  mc_enabled :: bool

definition crypto_disabled :: MessageCrypto where
  "crypto_disabled = \<lparr>mc_key = None, mc_enabled = False\<rparr>"

text \<open>The fields of the storage configuration that concern the key.\<close>

record Storage =
  encrypt_at_rest :: bool
  encryption_key_env :: "str option"
  encryption_key_file :: "path option"

definition decode_key_text :: "crates \<Rightarrow> str \<Rightarrow> CryptoError + bytes" where
  "decode_key_text K t =
     and_then (ok_or KeyMalformed (b64_decode K t)) (\<lambda>bs. if length bs \<noteq> KEY_LEN then Inl KeyMalformed else Inr bs)"

definition load_key_bytes :: "crates \<Rightarrow> fs \<Rightarrow> (str \<Rightarrow> str option) \<Rightarrow> Storage \<Rightarrow> CryptoError + bytes option" where
  "load_key_bytes K D getenv st =
     (case encryption_key_file st of
        Some p \<Rightarrow>
          and_then (ok_or (KeyFile p) (read_to_string D p)) (\<lambda>raw. and_then (decode_key_text K (trim raw)) (Inr \<circ> Some))
      | None \<Rightarrow>
          (case encryption_key_env st of
             Some var \<Rightarrow>
               and_then (ok_or (KeyEnvMissing var) (getenv var)) (\<lambda>raw. and_then (decode_key_text K (trim raw)) (Inr \<circ> Some))
           | None \<Rightarrow> Inr None))"

definition build_key :: "bytes \<Rightarrow> CryptoError + bytes" where
  "build_key bs = (if length bs \<noteq> KEY_LEN then Inl KeyMalformed else Inr bs)"

definition from_config :: "crates \<Rightarrow> fs \<Rightarrow> (str \<Rightarrow> str option) \<Rightarrow> Storage option \<Rightarrow> CryptoError + MessageCrypto" where
  "from_config K D getenv storage =
     (case storage of
        None \<Rightarrow> Inr crypto_disabled
      | Some st \<Rightarrow>
          and_then (load_key_bytes K D getenv st) (\<lambda>key_bytes.
            if encrypt_at_rest st \<and> key_bytes = None then Inl NoKeySource
            else
              and_then (case key_bytes of Some bs \<Rightarrow> and_then (build_key bs) (Inr \<circ> Some) | None \<Rightarrow> Inr None) (\<lambda>key.
                Inr \<lparr>mc_key = key, mc_enabled = encrypt_at_rest st\<rparr>)))"

definition crypto_encode :: "aead \<Rightarrow> MessageCrypto \<Rightarrow> bytes option \<Rightarrow> bytes \<Rightarrow> bytes option" where
  "crypto_encode A mc rng plaintext =
     (case (mc_key mc, mc_enabled mc) of
        (Some key, True) \<Rightarrow>
          Option.bind rng (\<lambda>nonce.
          Option.bind (aead_seal A key nonce plaintext) (\<lambda>buffer.
          Some (MAGIC @ nonce @ buffer)))
      | _ \<Rightarrow> Some plaintext)"

definition crypto_decode :: "aead \<Rightarrow> MessageCrypto \<Rightarrow> bytes \<Rightarrow> bytes option" where
  "crypto_decode A mc stored =
     (if \<not> starts_with MAGIC stored then Some stored
      else
        Option.bind (mc_key mc) (\<lambda>key.
        let rest = drop (length MAGIC) stored in
        if length rest < NONCE_LEN then None
        else aead_open A key (take NONCE_LEN rest) (drop NONCE_LEN rest)))"

definition file_has_magic :: "fs \<Rightarrow> path \<Rightarrow> bool" where
  "file_has_magic D p = (case fs_read D p of None \<Rightarrow> False | Some bs \<Rightarrow> starts_with MAGIC bs)"

definition stored_plaintext_len :: "MessageCrypto \<Rightarrow> fs \<Rightarrow> path \<Rightarrow> nat \<Rightarrow> nat" where
  "stored_plaintext_len mc D p file_len =
     (if mc_key mc = None then file_len
      else if file_len < OVERHEAD \<or> \<not> file_has_magic D p then file_len
      else file_len - OVERHEAD)"

definition generate_key_base64 :: "crates \<Rightarrow> bytes option \<Rightarrow> str option" where
  "generate_key_base64 K rng = map_option (b64_encode K) rng"

section \<open>Correctness\<close>

definition aead_ok :: "aead \<Rightarrow> bool" where
  "aead_ok A \<longleftrightarrow>
     (\<forall>key nonce bs c. aead_seal A key nonce bs = Some c \<longrightarrow> aead_open A key nonce c = Some bs \<and> length c = length bs + 16)"

text \<open>What a configuration can give: with encryption on there always is a key.\<close>

lemma from_config_key: "from_config K D getenv storage = Inr mc \<Longrightarrow> mc_enabled mc \<Longrightarrow> mc_key mc \<noteq> None"
  by (auto simp: from_config_def crypto_disabled_def and_then_Inr_iff split: option.splits if_splits)

text \<open>Messages that could be taken for an envelope although they are not one.\<close>

definition ambiguous :: "MessageCrypto \<Rightarrow> bytes \<Rightarrow> bool" where
  "ambiguous mc bs \<longleftrightarrow> \<not> mc_enabled mc \<and> starts_with MAGIC bs"

lemma crypto_encode_cases:
  assumes "crypto_encode A mc rng bs = Some stored"
  obtains (plain) "stored = bs" "mc_key mc = None \<or> \<not> mc_enabled mc"
  | (sealed) key nonce c where "mc_key mc = Some key" "mc_enabled mc" "rng = Some nonce" "aead_seal A key nonce bs = Some c"
      "stored = MAGIC @ nonce @ c"
  using assms by (auto simp: crypto_encode_def bind_eq_Some_conv split: option.splits bool.splits)

lemma starts_with_MAGIC: "starts_with MAGIC (MAGIC @ x)"
  by (auto simp: starts_with_iff)

lemma crypto_decode_encode:
  assumes "aead_ok A" "crypto_encode A mc rng bs = Some stored" "rng = None \<or> length (the rng) = NONCE_LEN"
    "mc_enabled mc \<Longrightarrow> mc_key mc \<noteq> None" "\<not> ambiguous mc bs"
  shows "crypto_decode A mc stored = Some bs"
  using assms(2)
proof (cases rule: crypto_encode_cases)
  case plain
  then have "\<not> starts_with MAGIC bs"
    using assms(4, 5) by (auto simp: ambiguous_def)
  then show ?thesis
    using plain by (simp add: crypto_decode_def)
next
  case (sealed key nonce c)
  have "length nonce = NONCE_LEN" "aead_open A key nonce c = Some bs"
    using assms(1, 3) sealed by (auto simp: aead_ok_def)
  then show ?thesis
    using sealed by (simp add: crypto_decode_def starts_with_MAGIC Let_def)
qed

text \<open>The size reported for a stored message is the size of its content, encrypted or not.\<close>

lemma stored_plaintext_len_exact:
  assumes "aead_ok A" "crypto_encode A mc rng bs = Some stored" "rng = None \<or> length (the rng) = NONCE_LEN"
    "\<not> ambiguous mc bs" "mc_enabled mc \<Longrightarrow> mc_key mc \<noteq> None" "fs_read D p = Some stored"
  shows "stored_plaintext_len mc D p (length stored) = length bs"
  using assms(2)
proof (cases rule: crypto_encode_cases)
  case plain
  then have "\<not> starts_with MAGIC stored"
    using assms(4, 5) by (auto simp: ambiguous_def)
  then show ?thesis
    using plain assms(6) by (simp add: stored_plaintext_len_def file_has_magic_def)
next
  case (sealed key nonce c)
  have "length nonce = NONCE_LEN" "length c = length bs + 16"
    using assms(1, 3) sealed by (auto simp: aead_ok_def)
  then show ?thesis
    using sealed assms(6) by (simp add: stored_plaintext_len_def file_has_magic_def starts_with_MAGIC OVERHEAD_def)
qed

definition sample_aead :: aead where
  "sample_aead = \<lparr>aead_seal = (\<lambda>key nonce bs. Some (bs @ replicate 16 CR)),
     aead_open = (\<lambda>key nonce c. Some (take (length c - 16) c))\<rparr>"

lemma sample_aead_ok: "aead_ok sample_aead"
  by (simp add: aead_ok_def sample_aead_def)

end
