(* ===== verification/Mailbox_Store.thy ===== *)
theory Mailbox_Store
  imports Message_Crypto "HOL-Library.List_Lexorder" "HOL-Library.Char_ord"
begin

text \<open>
  The mailboxes on disk (\<^verbatim>\<open>imap/mailbox.rs\<close>, \<^verbatim>\<open>snapshot.rs\<close>, \<^verbatim>\<open>scan.rs\<close>, \<^verbatim>\<open>uid.rs\<close>, \<^verbatim>\<open>uidvalidity.rs\<close>, \<^verbatim>\<open>modseq.rs\<close>,
  \<^verbatim>\<open>flags.rs\<close>, \<^verbatim>\<open>vanished.rs\<close>, \<^verbatim>\<open>index.rs\<close>, \<^verbatim>\<open>archive.rs\<close>, \<^verbatim>\<open>subscriptions.rs\<close>): one directory per mailbox with a file per
  message and small files beside it for UID, flags and mod-sequence.

  \<open>X\<close> is what the store uses of other crates: the text form of a UUID and the JSON of a flag list. A UUID is
  a number, a path component is a name without slash, a point in time is in nanoseconds. Counters
  wrap like the unsigned integers they are.
\<close>

section \<open>Flags and names\<close>

datatype Flag = Seen | Answered | Flagged | Deleted | Draft

definition flag_parse :: "str \<Rightarrow> Flag option" where
  "flag_parse token =
     (let t = to_ascii_lowercase token in
      if t = CHR 0x5C # ''seen'' then Some Seen else if t = CHR 0x5C # ''answered'' then Some Answered
      else if t = CHR 0x5C # ''flagged'' then Some Flagged else if t = CHR 0x5C # ''deleted'' then Some Deleted
      else if t = CHR 0x5C # ''draft'' then Some Draft else None)"

fun flag_as_str :: "Flag \<Rightarrow> str" where
  "flag_as_str Seen = CHR 0x5C # ''Seen''"
| "flag_as_str Answered = CHR 0x5C # ''Answered''"
| "flag_as_str Flagged = CHR 0x5C # ''Flagged''"
| "flag_as_str Deleted = CHR 0x5C # ''Deleted''"
| "flag_as_str Draft = CHR 0x5C # ''Draft''"

definition render_flags :: "Flag list \<Rightarrow> str" where
  "render_flags flags = ''('' @ join '' '' (map flag_as_str flags) @ '')''"

record mail_crates =
  uuid_parse :: "str \<Rightarrow> nat option"
  uuid_show :: "nat \<Rightarrow> str"
  flags_to_json :: "Flag list \<Rightarrow> bytes"
  flags_from_json :: "bytes \<Rightarrow> Flag list option"

definition valid_name :: "str \<Rightarrow> bool" where
  "valid_name name \<longleftrightarrow>
     name \<noteq> [] \<and> length name \<le> 128 \<and> \<not> eq_ignore_ascii_case name ''INBOX'' \<and>
     list_all (\<lambda>c. is_ascii_alphanumeric c \<or> c \<in> set '' -_.'') name \<and>
     \<not> starts_with ''.'' name \<and> \<not> ends_with '' '' name"

definition account_root :: "path \<Rightarrow> str \<Rightarrow> path" where
  "account_root data_dir account = data_dir @ [''accounts'', account]"

definition mailbox_dir :: "path \<Rightarrow> str \<Rightarrow> str \<Rightarrow> path option" where
  "mailbox_dir data_dir account mailbox =
     (let base = account_root data_dir account in
      if eq_ignore_ascii_case mailbox ''INBOX'' then Some (base @ [''new''])
      else if \<not> valid_name mailbox then None
      else Some (base @ [''folders'', mailbox, ''new'']))"

definition mailbox_exists :: "fs \<Rightarrow> path \<Rightarrow> str \<Rightarrow> str \<Rightarrow> bool" where
  "mailbox_exists D data_dir account mailbox \<longleftrightarrow>
     eq_ignore_ascii_case mailbox ''INBOX'' \<or>
     (case mailbox_dir data_dir account mailbox of Some d \<Rightarrow> is_dir D d | None \<Rightarrow> False)"

definition mailbox_create :: "path \<Rightarrow> str \<Rightarrow> str \<Rightarrow> unit io" where
  "mailbox_create data_dir account mailbox =
     io_bind (io_of (if eq_ignore_ascii_case mailbox ''INBOX'' then None else mailbox_dir data_dir account mailbox)) (\<lambda>dir.
     io_bind (io_ask (\<lambda>D. is_dir D dir)) (\<lambda>there.
     if there then io_fail else io_do (create_dir_all dir)))"

definition mailbox_delete :: "path \<Rightarrow> str \<Rightarrow> str \<Rightarrow> unit io" where
  "mailbox_delete data_dir account mailbox =
     (if eq_ignore_ascii_case mailbox ''INBOX'' \<or> \<not> valid_name mailbox then io_fail
      else (let dir = account_root data_dir account @ [''folders'', mailbox] in
            io_bind (io_ask (\<lambda>D. is_dir D dir)) (\<lambda>there.
            if \<not> there then io_fail else io_do (remove_dir_all dir))))"

definition mailbox_rename :: "path \<Rightarrow> str \<Rightarrow> str \<Rightarrow> str \<Rightarrow> unit io" where
  "mailbox_rename data_dir account source target =
     io_bind (io_ask (\<lambda>D. eq_ignore_ascii_case source ''INBOX'' \<or> \<not> valid_name source \<or> \<not> valid_name target \<or>
                         mailbox_exists D data_dir account target)) (\<lambda>refused.
     if refused then io_fail
     else (let folders = account_root data_dir account @ [''folders''] in
           io_bind (io_ask (\<lambda>D. is_dir D (in_dir folders source))) (\<lambda>there.
           if \<not> there then io_fail else io_do (rename_dir (in_dir folders source) (in_dir folders target)))))"

definition mailbox_list :: "fs \<Rightarrow> path \<Rightarrow> str \<Rightarrow> str list" where
  "mailbox_list D data_dir account =
     (let folders = account_root data_dir account @ [''folders''] in
      ''INBOX'' # (case read_dir D folders of
                   None \<Rightarrow> []
                 | Some names \<Rightarrow> sort (filter (\<lambda>n. is_dir D (in_dir folders n) \<and> from_utf8 n \<noteq> None \<and> valid_name n) names)))"

section \<open>Small files beside a message\<close>

definition sidecar :: "mail_crates \<Rightarrow> path \<Rightarrow> nat \<Rightarrow> str \<Rightarrow> path" where
  "sidecar X dir mid ext = in_dir dir (uuid_show X mid @ ext)"

definition read_number :: "nat \<Rightarrow> fs \<Rightarrow> path \<Rightarrow> nat option" where
  "read_number w D p = Option.bind (read_to_string D p) (\<lambda>t. parse_unsigned w (trim t))"

definition uid_read :: "mail_crates \<Rightarrow> fs \<Rightarrow> path \<Rightarrow> nat \<Rightarrow> nat option" where
  "uid_read X D dir mid = read_number 32 D (sidecar X dir mid ''.uid'')"

definition uid_write :: "mail_crates \<Rightarrow> nat \<Rightarrow> path \<Rightarrow> nat \<Rightarrow> nat \<Rightarrow> fs \<Rightarrow> fs option" where
  "uid_write X now dir mid uid = write_via now (sidecar X dir mid ''.uid.tmp'') (sidecar X dir mid ''.uid'') (show_nat uid)"

definition uid_read_counter :: "fs \<Rightarrow> path \<Rightarrow> nat" where
  "uid_read_counter D dir = (case read_number 32 D (in_dir dir ''.uidnext'') of Some n \<Rightarrow> n | None \<Rightarrow> 0)"

definition uid_write_counter :: "nat \<Rightarrow> path \<Rightarrow> nat \<Rightarrow> fs \<Rightarrow> fs option" where
  "uid_write_counter now dir v = write_via now (in_dir dir ''.uidnext.tmp'') (in_dir dir ''.uidnext'') (show_nat v)"

definition assign_or_read :: "mail_crates \<Rightarrow> nat \<Rightarrow> path \<Rightarrow> nat \<Rightarrow> fs \<times> nat \<Rightarrow> nat \<times> fs \<times> nat" where
  "assign_or_read X now dir mid st =
     (let (D, counter) = st in
      case uid_read X D dir mid of
        Some u \<Rightarrow> (u, D, counter)
      | None \<Rightarrow>
          (let counter = (counter + 1) mod 2 ^ 32
           in (counter, ignoring (uid_write X now dir mid counter) D, counter)))"

text \<open>Seconds since the epoch as a 32-bit number, made odd.\<close>

definition read_or_init :: "nat \<Rightarrow> path \<Rightarrow> fs \<Rightarrow> nat \<times> fs" where
  "read_or_init now dir D =
     (let p = in_dir dir ''.uidvalidity''; fresh = (let v = (now div 10 ^ 9) mod 2 ^ 32 in if even v then v + 1 else v) in
      case read_number 32 D p of
        Some v \<Rightarrow> if v > 0 then (v, D) else (fresh, ignoring (fs_write now p (show_nat fresh)) D)
      | None \<Rightarrow> (fresh, ignoring (fs_write now p (show_nat fresh)) D))"

definition modseq_read :: "mail_crates \<Rightarrow> fs \<Rightarrow> path \<Rightarrow> nat \<Rightarrow> nat" where
  "modseq_read X D dir mid = (case read_number 64 D (sidecar X dir mid ''.modseq'') of Some n \<Rightarrow> n | None \<Rightarrow> 1)"

definition modseq_write :: "mail_crates \<Rightarrow> nat \<Rightarrow> path \<Rightarrow> nat \<Rightarrow> nat \<Rightarrow> fs \<Rightarrow> fs option" where
  "modseq_write X now dir mid v =
     write_via now (sidecar X dir mid ''.modseq.tmp'') (sidecar X dir mid ''.modseq'') (show_nat v)"

definition modseq_read_counter :: "fs \<Rightarrow> path \<Rightarrow> nat" where
  "modseq_read_counter D dir = (case read_number 64 D (in_dir dir ''.modseqctr'') of Some n \<Rightarrow> n | None \<Rightarrow> 1)"

definition next_counter :: "nat \<Rightarrow> path \<Rightarrow> nat io" where
  "next_counter now dir =
     io_bind (io_ask (\<lambda>D. (modseq_read_counter D dir + 1) mod 2 ^ 64)) (\<lambda>next.
     io_bind (io_do (write_via now (in_dir dir ''.modseqctr.tmp'') (in_dir dir ''.modseqctr'') (show_nat next))) (\<lambda>_.
     io_return next))"

definition read_flags :: "mail_crates \<Rightarrow> fs \<Rightarrow> path \<Rightarrow> nat \<Rightarrow> Flag list" where
  "read_flags X D dir mid =
     (case Option.bind (fs_read D (sidecar X dir mid ''.flags'')) (flags_from_json X) of Some fl \<Rightarrow> fl | None \<Rightarrow> [])"

definition write_flags :: "mail_crates \<Rightarrow> nat \<Rightarrow> path \<Rightarrow> nat \<Rightarrow> Flag list \<Rightarrow> fs \<Rightarrow> fs option" where
  "write_flags X now dir mid flags =
     write_via now (sidecar X dir mid ''.flags.tmp'') (sidecar X dir mid ''.flags'') (flags_to_json X flags)"

definition flags_equal :: "Flag list \<Rightarrow> Flag list \<Rightarrow> bool" where
  "flags_equal current new \<longleftrightarrow> list_all (\<lambda>f. f \<in> set new) current \<and> list_all (\<lambda>f. f \<in> set current) new"

text \<open>The expunge log: appending to the file creates it when missing.\<close>

definition fs_append :: "nat \<Rightarrow> path \<Rightarrow> bytes \<Rightarrow> fs \<Rightarrow> fs option" where
  "fs_append now p bs D = fs_write now p ((case fs_read D p of Some old \<Rightarrow> old | None \<Rightarrow> []) @ bs) D"

definition vanished_line :: "nat \<Rightarrow> nat \<Rightarrow> str" where
  "vanished_line modseq uid = show_nat uid @ '' '' @ show_nat modseq @ [LF]"

definition vanished_record :: "nat \<Rightarrow> path \<Rightarrow> nat list \<Rightarrow> nat \<Rightarrow> fs \<Rightarrow> fs option" where
  "vanished_record now dir uids modseq D =
     (if uids = [] then Some D
      else fs_append now (in_dir dir ''.vanished'') (concat (map (vanished_line modseq) uids)) D)"

definition record_advancing :: "nat \<Rightarrow> path \<Rightarrow> nat list \<Rightarrow> unit io" where
  "record_advancing now dir uids =
     (if uids = [] then io_return ()
      else io_try (io_bind (next_counter now dir) (\<lambda>modseq. io_do (vanished_record now dir uids modseq))))"

definition vanished_entry :: "nat \<Rightarrow> str \<Rightarrow> nat option" where
  "vanished_entry modseq line =
     Option.bind (split_once (CHR '' '') line) (\<lambda>(uid, sq).
     Option.bind (parse_unsigned 64 (trim sq)) (\<lambda>n.
     if n > modseq then parse_unsigned 32 (trim uid) else None))"

definition vanished_since :: "fs \<Rightarrow> path \<Rightarrow> nat \<Rightarrow> nat list" where
  "vanished_since D dir modseq =
     (case read_to_string D (in_dir dir ''.vanished'') of
        None \<Rightarrow> []
      | Some t \<Rightarrow> List.map_filter (vanished_entry modseq) (str_lines t))"


section \<open>Adding a message\<close>

text \<open>The new UUID and the random octets of the envelope are arguments. The file appears under its name by a
  rename.\<close>

definition mailbox_append ::
  "mail_crates \<Rightarrow> aead \<Rightarrow> nat \<Rightarrow> bytes option \<Rightarrow> nat \<Rightarrow> path \<Rightarrow> str \<Rightarrow> str \<Rightarrow> Flag list \<Rightarrow> bytes \<Rightarrow> MessageCrypto \<Rightarrow> nat io" where
  "mailbox_append X A now rng mid data_dir account mailbox flags data crypto =
     io_bind (io_of (mailbox_dir data_dir account mailbox)) (\<lambda>dir.
     let tmp_dir = account_root data_dir account @ [''tmp'']; tmp = sidecar X tmp_dir mid ''.eml'' in
     io_bind (io_do (create_dir_all dir)) (\<lambda>_.
     io_bind (io_do (create_dir_all tmp_dir)) (\<lambda>_.
     io_bind (io_of (crypto_encode A crypto rng data)) (\<lambda>stored.
     io_bind (io_do (fs_write now tmp stored)) (\<lambda>_.
     io_bind (io_do (fs_rename tmp (sidecar X dir mid ''.eml''))) (\<lambda>_.
     io_bind (if flags \<noteq> [] then io_do (write_flags X now dir mid flags) else io_return ()) (\<lambda>_.
     io_return mid)))))))"

section \<open>Reading a mailbox\<close>

record MessageRef =
  mr_uid :: nat
  mr_id :: nat
  mr_size :: nat
  mr_flags :: "Flag list"
  mr_date :: nat
  mr_modseq :: nat

definition scan_ids :: "mail_crates \<Rightarrow> fs \<Rightarrow> path \<Rightarrow> nat list" where
  "scan_ids X D dir =
     (case read_dir D dir of
        None \<Rightarrow> []
      | Some names \<Rightarrow>
          sort (List.map_filter (\<lambda>n. Option.bind (from_utf8 n) (\<lambda>n. Option.bind (strip_suffix ''.eml'' n) (uuid_parse X))) names))"

definition message_ref :: "mail_crates \<Rightarrow> MessageCrypto \<Rightarrow> fs \<Rightarrow> path \<Rightarrow> nat \<Rightarrow> nat \<Rightarrow> MessageRef" where
  "message_ref X crypto D dir mid uid =
     (let p = sidecar X dir mid ''.eml''; meta = fs_get D p in
      \<lparr>mr_uid = uid, mr_id = mid,
       mr_size = (case meta of Some (bs, _) \<Rightarrow> stored_plaintext_len crypto D p (length bs) | None \<Rightarrow> 0),
       mr_flags = read_flags X D dir mid,
       mr_date = (case meta of Some (_, t) \<Rightarrow> t | None \<Rightarrow> 0),
       mr_modseq = modseq_read X D dir mid\<rparr>)"

fun scan_loop :: "mail_crates \<Rightarrow> MessageCrypto \<Rightarrow> nat \<Rightarrow> path \<Rightarrow> nat list \<Rightarrow> fs \<times> nat \<Rightarrow> MessageRef list \<times> fs \<times> nat" where
  "scan_loop X crypto now dir [] st = ([], st)"
| "scan_loop X crypto now dir (i # is) st =
     (let (uid, st') = assign_or_read X now dir i st;
          m = message_ref X crypto (fst st') dir i uid;
          (ms, st'') = scan_loop X crypto now dir is st'
      in (m # ms, st''))"

definition scan_mailbox :: "mail_crates \<Rightarrow> MessageCrypto \<Rightarrow> nat \<Rightarrow> path \<Rightarrow> fs \<Rightarrow> MessageRef list \<times> fs" where
  "scan_mailbox X crypto now dir D =
     (let initial_counter = uid_read_counter D dir;
          (ms, D', counter) = scan_loop X crypto now dir (scan_ids X D dir) (D, initial_counter)
      in (ms, if counter > initial_counter then ignoring (uid_write_counter now dir counter) D' else D'))"

section \<open>The metadata index\<close>

definition INDEX_MAGIC :: str where "INDEX_MAGIC = ''EPISTLE-MAILBOX-INDEX''"
definition INDEX_VERSION :: nat where "INDEX_VERSION = 1"

definition index_path :: "path \<Rightarrow> path" where
  "index_path dir = in_dir dir ''.index''"

definition current_generation :: "fs \<Rightarrow> path \<Rightarrow> nat \<times> nat" where
  "current_generation D dir =
     (max (modseq_read_counter D dir) 1,
      case read_dir D dir of
        Some names \<Rightarrow> length (filter (\<lambda>n. from_utf8 n \<noteq> None \<and> ends_with ''.eml'' n) names)
      | None \<Rightarrow> 0)"

text \<open>Adding the time to the epoch panics beyond the 63-bit seconds of a \<^verbatim>\<open>SystemTime\<close>; the outer \<open>None\<close> is that
  panic, the inner one a malformed field.\<close>

definition parse_time :: "str \<Rightarrow> nat option option" where
  "parse_time field =
     (case split_once (CHR ''.'') field of
        None \<Rightarrow> Some None
      | Some (secs, nanos) \<Rightarrow>
          (case (parse_unsigned 64 secs, parse_unsigned 32 nanos) of
             (Some s, Some n) \<Rightarrow>
               if n \<ge> 10 ^ 9 then Some None
               else if s \<ge> 2 ^ 63 then None
               else Some (Some (s * 10 ^ 9 + n))
           | _ \<Rightarrow> Some None))"

definition parse_flags :: "str \<Rightarrow> Flag list option" where
  "parse_flags field =
     (if field = [] then Some [] else those (map (\<lambda>t. flag_parse (CHR 0x5C # t)) (split_on (CHR '','') field)))"

definition parse_record :: "mail_crates \<Rightarrow> str \<Rightarrow> MessageRef option option" where
  "parse_record X line =
     (case split_on (CHR '' '') line of
        i # uid # octets # date # rest \<Rightarrow>
          (case (uuid_parse X i, parse_unsigned 32 uid, parse_unsigned 64 octets) of
             (Some i, Some u, Some sz) \<Rightarrow>
               (case parse_time date of
                  None \<Rightarrow> None
                | Some None \<Rightarrow> Some None
                | Some (Some t) \<Rightarrow>
                    (case rest of
                       [modseq, fl] \<Rightarrow>
                         Some (Option.bind (parse_unsigned 64 modseq) (\<lambda>ms.
                               map_option (\<lambda>fl. \<lparr>mr_uid = u, mr_id = i, mr_size = sz, mr_flags = fl, mr_date = t, mr_modseq = ms\<rparr>)
                                 (parse_flags fl)))
                     | _ \<Rightarrow> Some None))
           | _ \<Rightarrow> Some None)
      | _ \<Rightarrow> Some None)"

fun parse_records :: "mail_crates \<Rightarrow> str list \<Rightarrow> MessageRef list option option" where
  "parse_records X [] = Some (Some [])"
| "parse_records X (l # ls) =
     (case parse_record X l of
        None \<Rightarrow> None
      | Some None \<Rightarrow> Some None
      | Some (Some m) \<Rightarrow> map_option (map_option ((#) m)) (parse_records X ls))"

definition index_load :: "mail_crates \<Rightarrow> fs \<Rightarrow> path \<Rightarrow> nat \<times> nat \<Rightarrow> MessageRef list option option" where
  "index_load X D dir gen =
     (case read_to_string D (index_path dir) of
        None \<Rightarrow> Some None
      | Some t \<Rightarrow>
          (case str_lines t of
             header # stamp # records \<Rightarrow>
               (case split_once (CHR '' '') header of
                  None \<Rightarrow> Some None
                | Some (magic, version) \<Rightarrow>
                    if magic \<noteq> INDEX_MAGIC \<or> parse_unsigned 32 version \<noteq> Some INDEX_VERSION then Some None
                    else
                      (case split_on (CHR '' '') stamp of
                         g # m # n # _ \<Rightarrow>
                           if g \<noteq> ''gen'' \<or> parse_unsigned 64 m \<noteq> Some (fst gen) \<or> parse_unsigned 64 n \<noteq> Some (snd gen) then Some None
                           else
                             (case parse_records X records of
                                Some (Some ms) \<Rightarrow> Some (if length ms \<noteq> snd gen then None else Some ms)
                              | r \<Rightarrow> r)
                       | _ \<Rightarrow> Some None))
           | _ \<Rightarrow> Some None))"

definition write_time :: "nat \<Rightarrow> str" where
  "write_time t = show_nat (t div 10 ^ 9) @ ''.'' @ show_nat (t mod 10 ^ 9)"

definition write_record :: "mail_crates \<Rightarrow> MessageRef \<Rightarrow> str" where
  "write_record X m =
     uuid_show X (mr_id m) @ '' '' @ show_nat (mr_uid m) @ '' '' @ show_nat (mr_size m) @ '' '' @ write_time (mr_date m)
     @ '' '' @ show_nat (mr_modseq m) @ '' ''
     @ join '','' (map (\<lambda>f. to_ascii_lowercase (drop 1 (flag_as_str f))) (mr_flags m)) @ [LF]"

definition index_write :: "mail_crates \<Rightarrow> nat \<Rightarrow> path \<Rightarrow> nat \<times> nat \<Rightarrow> MessageRef list \<Rightarrow> fs \<Rightarrow> fs option" where
  "index_write X now dir gen ms =
     write_via now (in_dir dir ''.index.tmp'') (index_path dir)
       (INDEX_MAGIC @ '' '' @ show_nat INDEX_VERSION @ [LF] @ ''gen '' @ show_nat (fst gen) @ '' '' @ show_nat (snd gen) @ [LF]
        @ concat (map (write_record X) ms))"

section \<open>Snapshots\<close>

record Snapshot =
  sn_dir :: path
  sn_root :: path
  sn_mailbox :: str
  sn_messages :: "MessageRef list"
  sn_uid_validity :: nat
  sn_uid_next :: nat
  sn_highest_modseq :: nat
  sn_crypto :: MessageCrypto
  sn_retention_days :: nat
  sn_now :: nat

text \<open>A panic while reading the index ends the task; like an error it gives no snapshot.\<close>

definition snapshot_open_at ::
  "mail_crates \<Rightarrow> nat \<Rightarrow> path \<Rightarrow> str \<Rightarrow> str \<Rightarrow> MessageCrypto \<Rightarrow> nat \<Rightarrow> nat \<Rightarrow> Snapshot io" where
  "snapshot_open_at X clock data_dir account mailbox crypto retention_days now D =
     (case mailbox_dir data_dir account mailbox of
        None \<Rightarrow> (None, D)
      | Some dir \<Rightarrow>
          (let gen = current_generation D dir;
               snap = \<lambda>ms uv un hm. \<lparr>sn_dir = dir, sn_root = account_root data_dir account, sn_mailbox = mailbox, sn_messages = ms,
                 sn_uid_validity = uv, sn_uid_next = un, sn_highest_modseq = hm, sn_crypto = crypto,
                 sn_retention_days = retention_days, sn_now = now\<rparr> in
           case index_load X D dir gen of
             None \<Rightarrow> (None, D)
           | Some (Some loaded) \<Rightarrow>
               (let (uv, D1) = read_or_init clock dir D
                in (Some (snap loaded uv ((uid_read_counter D1 dir + 1) mod 2 ^ 32) (fst gen)), D1))
           | Some None \<Rightarrow>
               (let (ms, D1) = scan_mailbox X crypto clock dir D;
                    hm = max (max (modseq_read_counter D1 dir) (if ms = [] then 1 else Max (set (map mr_modseq ms)))) 1;
                    un = (uid_read_counter D1 dir + 1) mod 2 ^ 32;
                    D2 = ignoring (index_write X clock dir gen ms) D1;
                    (uv, D3) = read_or_init clock dir D2
                in (Some (snap ms uv un hm), D3))))"

definition snapshot_open :: "mail_crates \<Rightarrow> nat \<Rightarrow> path \<Rightarrow> str \<Rightarrow> str \<Rightarrow> MessageCrypto \<Rightarrow> Snapshot io" where
  "snapshot_open X clock data_dir account mailbox crypto =
     snapshot_open_at X clock data_dir account mailbox crypto 0 (clock div 10 ^ 9)"

end
