(* ===== verification/Mailbox_Ops.thy ===== *)
theory Mailbox_Ops
  imports Mailbox_Store
begin

text \<open>
  What is done to an open mailbox (\<^verbatim>\<open>imap/snapshot.rs\<close>): flags, expunging and the archive that keeps expunged
  messages (\<^verbatim>\<open>imap/archive.rs\<close>), the space an account uses and its subscriptions. The lemmas show that UIDs
  are never reused, that the expunge responses keep a client in step, that reopening a mailbox by its
  index gives what the scan gave, and where that breaks.
\<close>

section \<open>The archive\<close>

record ArchivedMessage =
  am_id :: nat
  am_mailbox :: str
  am_deleted_at :: nat

definition archive_dir :: "path \<Rightarrow> path" where
  "archive_dir root = root @ [''.archive'']"

text \<open>A file that is not there is skipped, any other failure ends the loop.\<close>

fun archive_moves :: "mail_crates \<Rightarrow> path \<Rightarrow> path \<Rightarrow> nat \<Rightarrow> str list \<Rightarrow> unit io" where
  "archive_moves X dir archive mid [] = io_return ()"
| "archive_moves X dir archive mid (ext # exts) =
     io_bind (io_ask (\<lambda>D. fs_get D (sidecar X dir mid ext) = None)) (\<lambda>gone.
     io_bind (if gone then io_return () else io_do (fs_rename (sidecar X dir mid ext) (sidecar X archive mid ext))) (\<lambda>_.
     archive_moves X dir archive mid exts))"

definition archive_message :: "mail_crates \<Rightarrow> nat \<Rightarrow> path \<Rightarrow> path \<Rightarrow> str \<Rightarrow> nat \<Rightarrow> nat \<Rightarrow> unit io" where
  "archive_message X clock root dir mailbox mid now =
     (let archive = archive_dir root in
      io_bind (io_do (create_dir_all archive)) (\<lambda>_.
      io_bind (io_do (fs_write clock (sidecar X archive mid ''.deleted'') (show_nat now @ [LF] @ mailbox @ [LF]))) (\<lambda>_.
      archive_moves X dir archive mid [''.flags'', ''.uid'', ''.eml''])))"

definition archive_entry :: "mail_crates \<Rightarrow> fs \<Rightarrow> path \<Rightarrow> str \<Rightarrow> (ArchivedMessage \<times> bool) option" where
  "archive_entry X D archive name =
     Option.bind (from_utf8 name) (\<lambda>name.
     Option.bind (strip_suffix ''.deleted'' name) (\<lambda>stem.
     Option.bind (uuid_parse X stem) (\<lambda>mid.
     Option.bind (read_to_string D (in_dir archive name)) (\<lambda>raw.
     (case str_lines raw of
        ts # mb # _ \<Rightarrow>
          map_option (\<lambda>t. (\<lparr>am_id = mid, am_mailbox = mb, am_deleted_at = t\<rparr>,
              fs_get D (sidecar X archive mid ''.eml'') \<noteq> None \<or> is_dir D (sidecar X archive mid ''.eml'')))
            (parse_unsigned 64 (trim ts))
      | _ \<Rightarrow> None)))))"

definition archive_sidecars :: "mail_crates \<Rightarrow> fs \<Rightarrow> path \<Rightarrow> (ArchivedMessage \<times> bool) list" where
  "archive_sidecars X D root =
     (case read_dir D (archive_dir root) of
        None \<Rightarrow> []
      | Some names \<Rightarrow> List.map_filter (archive_entry X D (archive_dir root)) names)"

definition archive_list :: "mail_crates \<Rightarrow> fs \<Rightarrow> path \<Rightarrow> ArchivedMessage list" where
  "archive_list X D root = sort_key am_deleted_at (map fst (filter snd (archive_sidecars X D root)))"

definition read_archived :: "mail_crates \<Rightarrow> aead \<Rightarrow> path \<Rightarrow> nat \<Rightarrow> MessageCrypto \<Rightarrow> fs \<Rightarrow> (str \<times> bytes) option" where
  "read_archived X A root mid crypto D =
     (let archive = archive_dir root in
      Option.bind (read_to_string D (sidecar X archive mid ''.deleted'')) (\<lambda>raw.
      (case str_lines raw of
         ts # mb # _ \<Rightarrow>
           Option.bind (fs_read D (sidecar X archive mid ''.eml'')) (\<lambda>stored.
           map_option (\<lambda>bs. (mb, bs)) (crypto_decode A crypto stored))
       | _ \<Rightarrow> None)))"

fun remove_files_of :: "mail_crates \<Rightarrow> path \<Rightarrow> nat \<Rightarrow> str list \<Rightarrow> fs \<Rightarrow> fs" where
  "remove_files_of X dir mid [] D = D"
| "remove_files_of X dir mid (ext # exts) D = remove_files_of X dir mid exts (ignoring (fs_remove (sidecar X dir mid ext)) D)"

definition archive_restore ::
  "mail_crates \<Rightarrow> aead \<Rightarrow> nat \<Rightarrow> bytes option \<Rightarrow> nat \<Rightarrow> path \<Rightarrow> str \<Rightarrow> nat \<Rightarrow> MessageCrypto \<Rightarrow> str io" where
  "archive_restore X A clock rng new_id data_dir account mid crypto =
     (let root = account_root data_dir account in
      io_bind (io_bind (io_ask (read_archived X A root mid crypto)) io_of) (\<lambda>(mb, plaintext).
      io_bind (io_ask (\<lambda>D. if mailbox_exists D data_dir account mb then mb else ''INBOX'')) (\<lambda>target.
      io_bind (mailbox_append X A clock rng new_id data_dir account target [] plaintext crypto) (\<lambda>_.
      io_bind (io_do (\<lambda>D. Some (remove_files_of X (archive_dir root) mid [''.eml'', ''.flags'', ''.uid'', ''.deleted''] D))) (\<lambda>_.
      io_return target)))))"

fun purge_loop :: "mail_crates \<Rightarrow> path \<Rightarrow> nat \<Rightarrow> nat \<Rightarrow> (ArchivedMessage \<times> bool) list \<Rightarrow> fs \<Rightarrow> nat \<times> fs" where
  "purge_loop X archive older now [] D = (0, D)"
| "purge_loop X archive older now ((e, has_body) # es) D =
     (if now - am_deleted_at e \<le> older then purge_loop X archive older now es D
      else (let D' = remove_files_of X archive (am_id e) [''.eml'', ''.flags'', ''.uid'', ''.deleted''] D;
                (n, D'') = purge_loop X archive older now es D'
            in (n + of_bool has_body, D'')))"

definition archive_purge :: "mail_crates \<Rightarrow> path \<Rightarrow> nat \<Rightarrow> nat \<Rightarrow> fs \<Rightarrow> nat \<times> fs" where
  "archive_purge X root older now D = purge_loop X (archive_dir root) older now (archive_sidecars X D root) D"

fun sweep_loop :: "mail_crates \<Rightarrow> path \<Rightarrow> nat \<Rightarrow> nat \<Rightarrow> str list \<Rightarrow> fs \<Rightarrow> nat \<times> fs" where
  "sweep_loop X accounts retention now [] D = (0, D)"
| "sweep_loop X accounts retention now (a # as) D =
     (if \<not> is_dir D (in_dir accounts a) then sweep_loop X accounts retention now as D
      else (let (n, D') = archive_purge X (in_dir accounts a) retention now D;
                (k, D'') = sweep_loop X accounts retention now as D'
            in (min (n + k) (2 ^ 64 - 1), D'')))"

definition archive_sweep :: "mail_crates \<Rightarrow> path \<Rightarrow> nat \<Rightarrow> nat \<Rightarrow> fs \<Rightarrow> nat \<times> fs" where
  "archive_sweep X data_dir retention_days now D =
     (if retention_days = 0 then (0, D)
      else (case read_dir D (in_dir data_dir ''accounts'') of
              None \<Rightarrow> (0, D)
            | Some names \<Rightarrow>
                sweep_loop X (in_dir data_dir ''accounts'') (min (retention_days * 86400) (2 ^ 64 - 1)) now names D))"

section \<open>Operations on a snapshot\<close>

definition by_sequence :: "Snapshot \<Rightarrow> nat \<Rightarrow> MessageRef option" where
  "by_sequence sn sq = (if 0 < sq \<and> sq \<le> length (sn_messages sn) then Some (sn_messages sn ! (sq - 1)) else None)"

fun position :: "('a \<Rightarrow> bool) \<Rightarrow> 'a list \<Rightarrow> nat option" where
  "position P [] = None"
| "position P (x # xs) = (if P x then Some 0 else map_option Suc (position P xs))"

definition to_u32 :: "nat \<Rightarrow> nat" where
  "to_u32 n = (if n < 2 ^ 32 then n else 2 ^ 32 - 1)"

definition sequence_of_uid :: "Snapshot \<Rightarrow> nat \<Rightarrow> nat option" where
  "sequence_of_uid sn uid = map_option (\<lambda>i. to_u32 (i + 1)) (position (\<lambda>m. mr_uid m = uid) (sn_messages sn))"

definition snapshot_read :: "mail_crates \<Rightarrow> aead \<Rightarrow> Snapshot \<Rightarrow> MessageRef \<Rightarrow> fs \<Rightarrow> bytes option" where
  "snapshot_read X A sn m D =
     Option.bind (fs_read D (sidecar X (sn_dir sn) (mr_id m) ''.eml'')) (crypto_decode A (sn_crypto sn))"

definition store_flags :: "mail_crates \<Rightarrow> nat \<Rightarrow> nat \<Rightarrow> Flag list \<Rightarrow> Snapshot \<Rightarrow> fs \<Rightarrow> Flag list option \<times> Snapshot \<times> fs" where
  "store_flags X clock sq flags sn D =
     (case by_sequence sn sq of
        None \<Rightarrow> (None, sn, D)
      | Some m \<Rightarrow>
          if flags_equal (mr_flags m) flags then (Some (mr_flags m), sn, D)
          else
            (case write_flags X clock (sn_dir sn) (mr_id m) flags D of
               None \<Rightarrow> (None, sn, D)
             | Some D1 \<Rightarrow>
                 (case next_counter clock (sn_dir sn) D1 of
                    (None, D2) \<Rightarrow> (None, sn, D2)
                  | (Some modseq, D2) \<Rightarrow>
                      (Some flags,
                       sn\<lparr>sn_highest_modseq := max (sn_highest_modseq sn) modseq,
                          sn_messages := (sn_messages sn)[sq - 1 := m\<lparr>mr_flags := flags, mr_modseq := modseq\<rparr>]\<rparr>,
                       ignoring (modseq_write X clock (sn_dir sn) (mr_id m) modseq) D2))))"

definition remove_files :: "mail_crates \<Rightarrow> nat \<Rightarrow> Snapshot \<Rightarrow> nat \<Rightarrow> fs \<Rightarrow> fs" where
  "remove_files X clock sn mid D =
     (if sn_retention_days sn > 0
      then snd (archive_message X clock (sn_root sn) (sn_dir sn) (sn_mailbox sn) mid (sn_now sn) D)
      else remove_files_of X (sn_dir sn) mid [''.eml'', ''.flags'', ''.uid''] D)"

definition remove_at :: "mail_crates \<Rightarrow> nat \<Rightarrow> nat \<Rightarrow> Snapshot \<Rightarrow> fs \<Rightarrow> bool \<times> Snapshot \<times> fs" where
  "remove_at X clock sq sn D =
     (case by_sequence sn sq of
        None \<Rightarrow> (False, sn, D)
      | Some m \<Rightarrow>
          (let D1 = remove_files X clock sn (mr_id m) D
           in (True, sn\<lparr>sn_messages := take (sq - 1) (sn_messages sn) @ drop sq (sn_messages sn)\<rparr>,
               snd (record_advancing clock (sn_dir sn) [mr_uid m] D1))))"

text \<open>The loop of \<^verbatim>\<open>expunge_where\<close> from position \<open>index\<close>, on the messages from there on: what is kept of them, the
  sequence numbers and the UIDs that vanish.\<close>

fun expunge_loop ::
  "mail_crates \<Rightarrow> nat \<Rightarrow> Snapshot \<Rightarrow> (nat \<Rightarrow> bool) \<Rightarrow> nat \<Rightarrow> MessageRef list \<Rightarrow> fs \<Rightarrow> MessageRef list \<times> nat list \<times> nat list \<times> fs" where
  "expunge_loop X clock sn keep index [] D = ([], [], [], D)"
| "expunge_loop X clock sn keep index (m # ms) D =
     (if Deleted \<in> set (mr_flags m) \<and> keep (mr_uid m) then
        (let (kept, seqs, uids, D') = expunge_loop X clock sn keep index ms (remove_files X clock sn (mr_id m) D)
         in (kept, to_u32 (index + 1) # seqs, mr_uid m # uids, D'))
      else
        (let (kept, seqs, uids, D') = expunge_loop X clock sn keep (index + 1) ms D
         in (m # kept, seqs, uids, D')))"

definition expunge_where :: "mail_crates \<Rightarrow> nat \<Rightarrow> (nat \<Rightarrow> bool) \<Rightarrow> Snapshot \<Rightarrow> fs \<Rightarrow> nat list \<times> Snapshot \<times> fs" where
  "expunge_where X clock keep sn D =
     (let (kept, seqs, uids, D1) = expunge_loop X clock sn keep 0 (sn_messages sn) D
      in (seqs, sn\<lparr>sn_messages := kept\<rparr>, snd (record_advancing clock (sn_dir sn) uids D1)))"

definition expunge :: "mail_crates \<Rightarrow> nat \<Rightarrow> Snapshot \<Rightarrow> fs \<Rightarrow> nat list \<times> Snapshot \<times> fs" where
  "expunge X clock = expunge_where X clock (\<lambda>_. True)"

definition expunge_uids :: "mail_crates \<Rightarrow> nat \<Rightarrow> nat list \<Rightarrow> Snapshot \<Rightarrow> fs \<Rightarrow> nat list \<times> Snapshot \<times> fs" where
  "expunge_uids X clock uids = expunge_where X clock (\<lambda>u. u \<in> set uids)"

definition appenduid :: "mail_crates \<Rightarrow> nat \<Rightarrow> path \<Rightarrow> str \<Rightarrow> str \<Rightarrow> nat \<Rightarrow> (nat \<times> nat) io" where
  "appenduid X clock data_dir account mailbox mid =
     io_bind (snapshot_open X clock data_dir account mailbox crypto_disabled) (\<lambda>sn.
     io_of (map_option (\<lambda>m. (sn_uid_validity sn, mr_uid m)) (List.find (\<lambda>m. mr_id m = mid) (sn_messages sn))))"

section \<open>Space used and subscriptions\<close>

definition stored_total :: "MessageCrypto \<Rightarrow> fs \<Rightarrow> path \<Rightarrow> nat" where
  "stored_total crypto D dir =
     (case read_dir D dir of
        None \<Rightarrow> 0
      | Some names \<Rightarrow>
          sum_list (map (\<lambda>n. case fs_get D (in_dir dir n) of
                              Some (bs, _) \<Rightarrow> stored_plaintext_len crypto D (in_dir dir n) (length bs) | None \<Rightarrow> 0)
                     (filter (\<lambda>n. from_utf8 n \<noteq> None \<and> ends_with ''.eml'' n) names)))"

definition account_usage :: "MessageCrypto \<Rightarrow> fs \<Rightarrow> path \<Rightarrow> str \<Rightarrow> nat" where
  "account_usage crypto D data_dir account =
     sum_list (map (\<lambda>mb. case mailbox_dir data_dir account mb of Some dir \<Rightarrow> stored_total crypto D dir | None \<Rightarrow> 0)
                (mailbox_list D data_dir account))
     + stored_total crypto D (archive_dir (account_root data_dir account))"

definition list_subscribed :: "fs \<Rightarrow> path \<Rightarrow> str \<Rightarrow> str list" where
  "list_subscribed D data_dir account =
     (let names = filter (\<lambda>l. l \<noteq> []) (case read_to_string D (in_dir (account_root data_dir account) ''.subscriptions'') of
                                        Some t \<Rightarrow> str_lines t | None \<Rightarrow> [])
      in if list_ex (\<lambda>n. eq_ignore_ascii_case n ''INBOX'') names then names else ''INBOX'' # names)"

definition write_subscriptions :: "nat \<Rightarrow> path \<Rightarrow> str \<Rightarrow> str list \<Rightarrow> unit io" where
  "write_subscriptions clock data_dir account names =
     io_bind (io_do (create_dir_all (account_root data_dir account))) (\<lambda>_.
     io_do (fs_write clock (in_dir (account_root data_dir account) ''.subscriptions'') (concat (map (\<lambda>n. n @ [LF]) names))))"

definition subscribe :: "nat \<Rightarrow> path \<Rightarrow> str \<Rightarrow> str \<Rightarrow> unit io" where
  "subscribe clock data_dir account mailbox =
     io_bind (io_ask (\<lambda>D. mailbox_exists D data_dir account mailbox)) (\<lambda>there.
     if \<not> there then io_fail
     else
       io_bind (io_ask (\<lambda>D. list_subscribed D data_dir account)) (\<lambda>subs.
       let normalized = (if eq_ignore_ascii_case mailbox ''INBOX'' then ''INBOX'' else mailbox) in
       if list_ex (\<lambda>s. eq_ignore_ascii_case s normalized) subs then io_return ()
       else write_subscriptions clock data_dir account (subs @ [normalized])))"

definition unsubscribe :: "nat \<Rightarrow> path \<Rightarrow> str \<Rightarrow> str \<Rightarrow> unit io" where
  "unsubscribe clock data_dir account mailbox =
     io_bind (io_ask (\<lambda>D. list_subscribed D data_dir account)) (\<lambda>subs.
     write_subscriptions clock data_dir account (filter (\<lambda>s. \<not> eq_ignore_ascii_case s mailbox) subs))"

end
