(* ===== verification/Mailbox_Uids.thy ===== *)
theory Mailbox_Uids
  imports Mailbox_Ops
begin

text \<open>
  Why a UID never names two messages: the files an operation touches, the invariant on UID files, counter and
  index, and its preservation by every operation on a mailbox.
\<close>

section \<open>What the text forms must give\<close>

definition uuid_char :: "char \<Rightarrow> bool" where
  "uuid_char c \<longleftrightarrow> is_ascii_alphanumeric c \<or> c = CHR ''-''"

definition uuid_ok :: "mail_crates \<Rightarrow> bool" where
  "uuid_ok X \<longleftrightarrow> (\<forall>u. uuid_parse X (uuid_show X u) = Some u \<and> uuid_show X u \<noteq> [] \<and> list_all uuid_char (uuid_show X u))"

definition flags_json_ok :: "mail_crates \<Rightarrow> bool" where
  "flags_json_ok X \<longleftrightarrow> (\<forall>fl. flags_from_json X (flags_to_json X fl) = Some fl)"

lemma uuid_show_inj: "uuid_ok X \<Longrightarrow> uuid_show X i = uuid_show X j \<longleftrightarrow> i = j"
  by (metis option.inject uuid_ok_def)

lemma uuid_char_facts: "uuid_char c \<Longrightarrow> c \<noteq> CHR ''.'' \<and> c \<noteq> CHR '' '' \<and> c \<noteq> LF \<and> c \<noteq> CR \<and> is_ascii_char c"
  by (auto simp: uuid_char_def ascii_simps)

lemma uuid_show_chars: "uuid_ok X \<Longrightarrow> c \<in> set (uuid_show X i) \<Longrightarrow> c \<noteq> CHR ''.'' \<and> c \<noteq> CHR '' '' \<and> c \<noteq> LF \<and> c \<noteq> CR \<and> is_ascii_char c"
  using uuid_char_facts unfolding uuid_ok_def list_all_iff by blast

lemma sidecar_eq_iff:
  assumes "uuid_ok X"
  shows "sidecar X d i (CHR ''.'' # e) = sidecar X d' j (CHR ''.'' # f) \<longleftrightarrow> d = d' \<and> i = j \<and> e = f"
proof -
  have "CHR ''.'' \<notin> set (uuid_show X k)" for k
    using uuid_show_chars [OF assms, of "CHR ''.''" k] by blast
  then show ?thesis
    unfolding sidecar_def using append_sep_eq uuid_show_inj [OF assms] by (simp add: append1_eq_conv)
qed

lemma sidecar_hidden:
  assumes "uuid_ok X"
  shows "sidecar X d i e \<noteq> in_dir d' (CHR ''.'' # f)" "in_dir d' (CHR ''.'' # f) \<noteq> sidecar X d i e"
proof -
  obtain c r where "uuid_show X i = c # r" "c \<noteq> CHR ''.''"
    using assms uuid_show_chars [OF assms, of _ i] unfolding uuid_ok_def
    by (metis list.exhaust list.set_intros(1))
  then show "sidecar X d i e \<noteq> in_dir d' (CHR ''.'' # f)" "in_dir d' (CHR ''.'' # f) \<noteq> sidecar X d i e"
    by (simp_all add: sidecar_def)
qed

lemma butlast_sidecar [simp]: "butlast (sidecar X d i e) = d"
  by (simp add: sidecar_def)

section \<open>Frames\<close>

lemma read_to_string_cong: "fs_get D p = fs_get D' p \<Longrightarrow> read_to_string D p = read_to_string D' p"
  by (simp add: read_to_string_def fs_read_def)

lemma read_number_cong: "fs_get D p = fs_get D' p \<Longrightarrow> read_number w D p = read_number w D' p"
  by (simp add: read_number_def read_to_string_def fs_read_def)

lemma read_number_written:
  assumes "fs_get D p = Some (show_nat n, t)" "n < 2 ^ w"
  shows "read_number w D p = Some n"
proof -
  have "from_utf8 (show_nat n) = Some (show_nat n)"
    using from_utf8_ascii printable_ascii graphic_printable show_nat_graphic by (metis list_all_iff)
  then show ?thesis
    using assms trim_graphic [OF show_nat_graphic, of n] parse_unsigned_show_nat [OF assms(2)]
    by (simp add: read_number_def read_to_string_def fs_read_def)
qed

text \<open>A mailbox directory: it exists and holds files only.\<close>

definition dir_ok :: "fs \<Rightarrow> path \<Rightarrow> bool" where
  "dir_ok D dir \<longleftrightarrow> is_dir D dir \<and> (\<forall>n. \<not> is_dir D (in_dir dir n))"

lemma dir_ok_cong: "fs_dirs D = fs_dirs D' \<Longrightarrow> dir_ok D dir = dir_ok D' dir"
  by (simp add: dir_ok_def is_dir_def)

lemma uid_write_ok:
  assumes "dir_ok D dir" "uuid_ok X"
  obtains D' where "uid_write X now dir i u D = Some D'" "fs_dirs D' = fs_dirs D"
    "fs_get D' = (fs_get D)(sidecar X dir i ''.uid.tmp'' := None, sidecar X dir i ''.uid'' \<mapsto> (show_nat u, now))"
proof -
  have ne: "sidecar X dir i ''.uid.tmp'' \<noteq> sidecar X dir i ''.uid''"
    using sidecar_eq_iff [OF assms(2)] by simp
  have "\<not> is_dir D (sidecar X dir i e)" "is_dir D dir" for e
    using assms(1) by (simp_all add: dir_ok_def sidecar_def)
  then obtain D' where "uid_write X now dir i u D = Some D'"
    unfolding uid_write_def using write_via_ok [of "sidecar X dir i ''.uid.tmp''" "sidecar X dir i ''.uid''" D now "show_nat u"] ne
    by simp
  then show ?thesis
    using that write_via_Some [OF _ ne] unfolding uid_write_def by blast
qed


section \<open>Scanning\<close>

text \<open>\<open>H\<close> is the history: every UID ever given out, with its message.\<close>

definition counted :: "mail_crates \<Rightarrow> path \<Rightarrow> (nat \<times> nat) set \<Rightarrow> fs \<Rightarrow> nat \<Rightarrow> bool" where
  "counted X dir H D c \<longleftrightarrow>
     single_valued H \<and> (\<forall>u i. (u, i) \<in> H \<longrightarrow> 0 < u \<and> u \<le> c) \<and> (\<forall>i u. uid_read X D dir i = Some u \<longrightarrow> (u, i) \<in> H)"

definition touches_uids :: "mail_crates \<Rightarrow> path \<Rightarrow> fs \<Rightarrow> fs \<Rightarrow> bool" where
  "touches_uids X dir D D' \<longleftrightarrow>
     fs_dirs D' = fs_dirs D \<and>
     (\<forall>p. (\<forall>i. p \<noteq> sidecar X dir i ''.uid'' \<and> p \<noteq> sidecar X dir i ''.uid.tmp'') \<longrightarrow> fs_get D' p = fs_get D p)"

lemma touches_uids_trans: "touches_uids X dir D D' \<Longrightarrow> touches_uids X dir D' D'' \<Longrightarrow> touches_uids X dir D D''"
  by (simp add: touches_uids_def)

lemma uid_read_written:
  assumes "uuid_ok X" "fs_get D' = (fs_get D)(sidecar X dir i ''.uid.tmp'' := None, sidecar X dir i ''.uid'' \<mapsto> (show_nat u, now))"
    "u < 2 ^ 32"
  shows "uid_read X D' dir = (uid_read X D dir)(i \<mapsto> u)"
proof
  fix j
  show "uid_read X D' dir j = ((uid_read X D dir)(i \<mapsto> u)) j"
  proof (cases "j = i")
    case True
    have "fs_get D' (sidecar X dir i ''.uid'') = Some (show_nat u, now)"
      using assms(2) by simp
    then show ?thesis
      using True read_number_written [OF _ assms(3)] by (simp add: uid_read_def)
  next
    case False
    then have "fs_get D' (sidecar X dir j ''.uid'') = fs_get D (sidecar X dir j ''.uid'')"
      using sidecar_eq_iff [OF assms(1), of dir j "''uid''" dir i] by (simp add: assms(2))
    from read_number_cong [OF this] False show ?thesis
      by (simp add: uid_read_def)
  qed
qed

lemma assign_or_read_step:
  assumes "uuid_ok X" "dir_ok D dir" "counted X dir H D c" "c + 1 < 2 ^ 32"
    "assign_or_read X now dir i (D, c) = (u, D', c')"
  obtains "(u, i) \<in> H" "D' = D" "c' = c" "uid_read X D dir i = Some u"
  | "u = c + 1" "c' = c + 1" "uid_read X D dir i = None" "uid_read X D' dir = (uid_read X D dir)(i \<mapsto> u)"
    "touches_uids X dir D D'" "counted X dir (insert (u, i) H) D' c'"
proof (cases "uid_read X D dir i")
  case (Some v)
  then have "u = v" "D' = D" "c' = c"
    using assms(5) by (simp_all add: assign_or_read_def)
  moreover have "(v, i) \<in> H"
    using assms(3) Some by (simp add: counted_def)
  ultimately show ?thesis
    using that(1) Some by simp
next
  case None
  obtain E where E: "uid_write X now dir i (c + 1) D = Some E" "fs_dirs E = fs_dirs D"
    "fs_get E = (fs_get D)(sidecar X dir i ''.uid.tmp'' := None, sidecar X dir i ''.uid'' \<mapsto> (show_nat (c + 1), now))"
    using uid_write_ok [OF assms(2, 1)] by blast
  have eq: "u = c + 1" "c' = c + 1" "D' = E"
    using assms(4, 5) None E(1) by (auto simp: assign_or_read_def Let_def ignoring_def)
  have rd: "uid_read X D' dir = (uid_read X D dir)(i \<mapsto> u)"
    using uid_read_written [OF assms(1) E(3) assms(4)] eq by simp
  have "touches_uids X dir D D'"
    using E eq by (simp add: touches_uids_def)
  moreover have "(c + 1, j) \<notin> H" for j
    using assms(3) by (auto simp: counted_def)
  then have "counted X dir (insert (u, i) H) D' c'"
    using assms(3) eq rd unfolding counted_def single_valued_def by (auto split: if_splits)
  ultimately show ?thesis
    using that(2) eq None rd by blast
qed

lemma scan_loop_counted:
  assumes "uuid_ok X" "dir_ok D dir" "counted X dir H D c" "c + length is < 2 ^ 32"
    "scan_loop X crypto now dir is (D, c) = (ms, D', c')"
  shows "\<exists>H'. H \<subseteq> H' \<and> counted X dir H' D' c' \<and> c \<le> c' \<and> c' \<le> c + length is \<and> touches_uids X dir D D' \<and> (\<forall>m \<in> set ms. (mr_uid m, mr_id m) \<in> H')"
  using assms
proof (induction "is" arbitrary: D c H ms)
  case Nil
  then show ?case
    by (intro exI [of _ H]) (auto simp: touches_uids_def)
next
  case (Cons i "is")
  obtain u D1 c1 where a: "assign_or_read X now dir i (D, c) = (u, D1, c1)"
    by (rule prod_cases3)
  obtain ms' where l: "scan_loop X crypto now dir is (D1, c1) = (ms', D', c')" and ms: "ms = message_ref X crypto D1 dir i u # ms'"
    using Cons.prems(5) a by (auto simp: Let_def split: prod.splits)
  obtain H1 where H1: "H \<subseteq> H1" "counted X dir H1 D1 c1" "c \<le> c1" "c1 \<le> c + 1" "touches_uids X dir D D1" "(u, i) \<in> H1"
  proof (rule assign_or_read_step [OF Cons.prems(1-3) _ a])
    show "c + 1 < 2 ^ 32"
      using Cons.prems(4) by simp
  next
    assume "(u, i) \<in> H" "D1 = D" "c1 = c"
    then show ?thesis
      using that [of H] Cons.prems(3) by (simp add: touches_uids_def)
  next
    assume "u = c + 1" "c1 = c + 1" "touches_uids X dir D D1" "counted X dir (insert (u, i) H) D1 c1"
    then show ?thesis
      using that [of "insert (u, i) H"] by (simp add: subset_insertI)
  qed
  have "dir_ok D1 dir"
    using Cons.prems(2) H1(5) dir_ok_cong unfolding touches_uids_def by metis
  moreover have "c1 + length is < 2 ^ 32"
    using Cons.prems(4) H1(4) by simp
  ultimately obtain H' where H': "H1 \<subseteq> H'" "counted X dir H' D' c'" "c1 \<le> c'" "c' \<le> c1 + length is" "touches_uids X dir D1 D'"
    "\<forall>m \<in> set ms'. (mr_uid m, mr_id m) \<in> H'"
    using Cons.IH [OF Cons.prems(1) _ H1(2) _ l] by blast
  have "touches_uids X dir D D'"
    using touches_uids_trans H1(5) H'(5) by blast
  moreover have "\<forall>m \<in> set ms. (mr_uid m, mr_id m) \<in> H'"
    using H'(1, 6) H1(6) by (auto simp: ms message_ref_def Let_def)
  moreover have "H \<subseteq> H'" "c \<le> c'" "c' \<le> c + length (i # is)"
    using H1(1, 3, 4) H'(1, 3, 4) by auto
  ultimately show ?case
    using H'(2) by blast
qed

lemma scan_loop_wf:
  "scan_loop X crypto now dir is (D, c) = (ms, D', c') \<Longrightarrow> wf_fs D \<Longrightarrow> wf_fs D'"
proof (induction "is" arbitrary: D c ms)
  case (Cons i "is")
  obtain u D1 c1 where a: "assign_or_read X now dir i (D, c) = (u, D1, c1)"
    by (rule prod_cases3)
  obtain ms' where l: "scan_loop X crypto now dir is (D1, c1) = (ms', D', c')"
    using Cons.prems(1) a by (auto simp: Let_def split: prod.splits)
  have "D1 = D \<or> (\<exists>n. D1 = ignoring (uid_write X now dir i n) D)"
    using a by (auto simp: assign_or_read_def Let_def split: option.splits)
  then have "wf_fs D1"
    using wf_fs_ignoring wf_fs_write_via Cons.prems(2) unfolding uid_write_def by metis
  then show ?case
    using Cons.IH [OF l] by blast
qed simp

end
