(* ===== verification/Mailbox_Index.thy ===== *)
theory Mailbox_Index
  imports Mailbox_Uids
begin

text \<open>
  The text of the metadata index (\<^verbatim>\<open>imap/index.rs\<close>): what is written is read back.
\<close>

section \<open>Fields\<close>

lemma digit_facts: "is_ascii_digit c \<Longrightarrow> c \<noteq> CHR ''.'' \<and> c \<noteq> CHR '' '' \<and> c \<noteq> CHR '','' \<and> c \<noteq> LF \<and> c \<noteq> CR \<and> is_ascii_char c"
  by (auto simp: ascii_simps)

lemma show_nat_chars: "c \<in> set (show_nat n) \<Longrightarrow> c \<noteq> CHR ''.'' \<and> c \<noteq> CHR '' '' \<and> c \<noteq> CHR '','' \<and> c \<noteq> LF \<and> c \<noteq> CR \<and> is_ascii_char c"
  using show_nat_digits [of n] digit_facts by (auto simp: list_all_iff)

lemma parse_unsigned_show_nat_iff: "parse_unsigned w (show_nat n) = (if n < 2 ^ w then Some n else None)"
  using show_nat_digits [of n] show_nat_hd_not_plus [of n]
  by (cases "show_nat n") (auto simp: parse_unsigned_def Let_def)

lemma parse_time_write_time:
  "parse_time (write_time t) =
     (if t div 10 ^ 9 \<ge> 2 ^ 64 then Some None else if t div 10 ^ 9 \<ge> 2 ^ 63 then None else Some (Some t))"
proof -
  have "split_once (CHR ''.'') (write_time t) = Some (show_nat (t div 10 ^ 9), show_nat (t mod 10 ^ 9))"
    using show_nat_chars [of "CHR ''.''" "t div 10 ^ 9"] unfolding write_time_def append_Cons append_Nil by (intro split_once_SomeI) blast
  moreover have "parse_unsigned 32 (show_nat (t mod 10 ^ 9)) = Some (t mod 10 ^ 9)"
    by (rule parse_unsigned_show_nat) (rule less_trans [OF mod_less_divisor], simp_all)
  ultimately show ?thesis
    by (simp add: parse_time_def parse_unsigned_show_nat_iff)
qed

definition flag_token :: "Flag \<Rightarrow> str" where
  "flag_token f = to_ascii_lowercase (drop 1 (flag_as_str f))"

lemma flag_tokens:
  "flag_token Seen = ''seen''" "flag_token Answered = ''answered''" "flag_token Flagged = ''flagged''"
  "flag_token Deleted = ''deleted''" "flag_token Draft = ''draft''"
  by code_simp+

lemma flag_parse_tokens:
  "flag_parse (CHR 0x5C # ''seen'') = Some Seen" "flag_parse (CHR 0x5C # ''answered'') = Some Answered"
  "flag_parse (CHR 0x5C # ''flagged'') = Some Flagged" "flag_parse (CHR 0x5C # ''deleted'') = Some Deleted"
  "flag_parse (CHR 0x5C # ''draft'') = Some Draft"
  by code_simp+

lemma flag_token_parse: "flag_parse (CHR 0x5C # flag_token f) = Some f"
  by (cases f) (simp_all only: flag_tokens flag_parse_tokens)

lemma flag_token_chars: "c \<in> set (flag_token f) \<Longrightarrow> c \<noteq> CHR '' '' \<and> c \<noteq> CHR '','' \<and> c \<noteq> LF \<and> c \<noteq> CR \<and> is_ascii_char c"
  by (cases f) (auto simp: flag_tokens is_ascii_char_def)

lemma flag_token_not_Nil: "flag_token f \<noteq> []"
  by (cases f) (simp_all add: flag_tokens)

lemma those_map_Some: "(\<And>x. x \<in> set xs \<Longrightarrow> f x = Some (g x)) \<Longrightarrow> those (map f xs) = Some (map g xs)"
  by (induction xs) auto

lemma parse_flags_tokens: "parse_flags (join '','' (map flag_token fl)) = Some fl"
proof (cases "fl = []")
  case False
  then obtain f fs where fl: "fl = f # fs"
    by (cases fl) auto
  have "join '','' (map flag_token fl) \<noteq> []"
    using flag_token_not_Nil [of f] unfolding fl by (cases fs) auto
  moreover have "split_on (CHR '','') (join '','' (map flag_token fl)) = map flag_token fl"
    using flag_token_chars False by (intro split_on_join) fastforce+
  moreover have "those (map (\<lambda>t. flag_parse (CHR 0x5C # t)) (map flag_token fl)) = Some fl"
    using those_map_Some [of fl "\<lambda>f. flag_parse (CHR 0x5C # flag_token f)" "\<lambda>f. f"]
    by (simp add: flag_token_parse comp_def)
  ultimately show ?thesis
    by (simp add: parse_flags_def)
qed (simp add: parse_flags_def)

lemma set_join: "set (join sep ws) \<subseteq> set sep \<union> \<Union> (set (map set ws))"
  by (induction sep ws rule: join.induct) auto

section \<open>Records\<close>

definition record_line :: "mail_crates \<Rightarrow> MessageRef \<Rightarrow> str" where
  "record_line X m =
     uuid_show X (mr_id m) @ CHR '' '' # show_nat (mr_uid m) @ CHR '' '' # show_nat (mr_size m) @ CHR '' '' # write_time (mr_date m)
     @ CHR '' '' # show_nat (mr_modseq m) @ CHR '' '' # join '','' (map flag_token (mr_flags m))"

lemma write_record_line: "write_record X m = record_line X m @ [LF]"
  by (simp add: write_record_def record_line_def flag_token_def [abs_def])

lemma write_time_chars: "c \<in> set (write_time t) \<Longrightarrow> c \<noteq> CHR '' '' \<and> c \<noteq> LF \<and> c \<noteq> CR \<and> is_ascii_char c"
  using show_nat_chars by (auto simp: write_time_def ascii_simps)

lemma flags_field_chars: "c \<in> set (join '','' (map flag_token fl)) \<Longrightarrow> c \<noteq> CHR '' '' \<and> c \<noteq> LF \<and> c \<noteq> CR \<and> is_ascii_char c"
proof -
  assume "c \<in> set (join '','' (map flag_token fl))"
  then have "c = CHR '','' \<or> (\<exists>f. c \<in> set (flag_token f))"
    using set_join [of "'',''" "map flag_token fl"] by auto
  then show ?thesis
    using flag_token_chars by (auto simp: ascii_simps)
qed

lemma record_line_chars:
  assumes "uuid_ok X" "c \<in> set (record_line X m)"
  shows "c \<noteq> LF \<and> c \<noteq> CR \<and> is_ascii_char c"
proof -
  consider "c \<in> set (uuid_show X (mr_id m))" | "c = CHR '' ''" | n where "c \<in> set (show_nat n)" | "c \<in> set (write_time (mr_date m))"
    | "c \<in> set (join '','' (map flag_token (mr_flags m)))"
    using assms(2) unfolding record_line_def by auto
  then show ?thesis
  proof cases
    case 1
    then show ?thesis
      using uuid_show_chars [OF assms(1)] by blast
  next
    case 2
    then show ?thesis
      by (simp add: is_ascii_char_def)
  next
    case 3
    then show ?thesis
      using show_nat_chars by blast
  next
    case 4
    then show ?thesis
      using write_time_chars by blast
  next
    case 5
    then show ?thesis
      using flags_field_chars by blast
  qed
qed

lemma split_record_line:
  assumes "uuid_ok X"
  shows "split_on (CHR '' '') (record_line X m) =
           [uuid_show X (mr_id m), show_nat (mr_uid m), show_nat (mr_size m), write_time (mr_date m), show_nat (mr_modseq m),
            join '','' (map flag_token (mr_flags m))]"
proof -
  have "CHR '' '' \<notin> set (uuid_show X i)" "CHR '' '' \<notin> set (show_nat n)" "CHR '' '' \<notin> set (write_time t)"
    "CHR '' '' \<notin> set (join '','' (map flag_token fl))" for i n t fl
    using uuid_show_chars [OF assms] show_nat_chars write_time_chars flags_field_chars by blast+
  then show ?thesis
    unfolding record_line_def by (simp add: split_on_append_sep split_on_absent)
qed

definition record_fits :: "MessageRef \<Rightarrow> bool" where
  "record_fits m \<longleftrightarrow> mr_uid m < 2 ^ 32 \<and> mr_size m < 2 ^ 64 \<and> mr_modseq m < 2 ^ 64 \<and> mr_date m div 10 ^ 9 < 2 ^ 63"

lemma parse_record_line:
  assumes "uuid_ok X"
  shows "record_fits m \<Longrightarrow> parse_record X (record_line X m) = Some (Some m)"
    and "parse_record X (record_line X m) = Some (Some m') \<Longrightarrow> m' = m"
proof -
  have u: "uuid_parse X (uuid_show X i) = Some i" for i
    using assms by (simp add: uuid_ok_def)
  show "record_fits m \<Longrightarrow> parse_record X (record_line X m) = Some (Some m)"
    using u by (simp add: parse_record_def split_record_line [OF assms] parse_unsigned_show_nat_iff parse_time_write_time
        parse_flags_tokens record_fits_def)
  show "parse_record X (record_line X m) = Some (Some m') \<Longrightarrow> m' = m"
    using u by (auto simp: parse_record_def split_record_line [OF assms] parse_unsigned_show_nat_iff parse_time_write_time
        parse_flags_tokens split: if_splits)
qed

lemma parse_records_lines:
  assumes "uuid_ok X"
  shows "list_all record_fits ms \<Longrightarrow> parse_records X (map (record_line X) ms) = Some (Some ms)"
    and "parse_records X (map (record_line X) ms) = Some (Some ms') \<Longrightarrow> ms' = ms"
proof -
  show "list_all record_fits ms \<Longrightarrow> parse_records X (map (record_line X) ms) = Some (Some ms)"
    by (induction ms) (simp_all add: parse_record_line(1) [OF assms])
  show "parse_records X (map (record_line X) ms) = Some (Some ms') \<Longrightarrow> ms' = ms"
  proof (induction ms arbitrary: ms')
    case (Cons m ms)
    then show ?case
      using parse_record_line(2) [OF assms, of m] by (auto split: option.splits)
  qed simp
qed


section \<open>The whole file\<close>

lemma str_lines_concat:
  "(\<And>l. l \<in> set ls \<Longrightarrow> LF \<notin> set l \<and> CR \<notin> set l) \<Longrightarrow> str_lines (concat (map (\<lambda>l. l @ [LF]) ls)) = ls"
proof (induction ls)
  case (Cons l ls)
  have "l \<noteq> [] \<Longrightarrow> last l \<noteq> CR"
    using Cons.prems [of l] by (metis last_in_set list.set_intros(1))
  then have "strip_cr l = l"
    by (auto simp: strip_cr_def)
  then show ?case
    using Cons str_lines_Cons [of l "concat (map (\<lambda>l. l @ [LF]) ls)"] by simp
qed simp

definition index_lines :: "mail_crates \<Rightarrow> nat \<times> nat \<Rightarrow> MessageRef list \<Rightarrow> str list" where
  "index_lines X gen ms =
     (INDEX_MAGIC @ CHR '' '' # show_nat INDEX_VERSION) # (''gen'' @ CHR '' '' # show_nat (fst gen) @ CHR '' '' # show_nat (snd gen))
     # map (record_line X) ms"

lemma index_write_lines:
  "index_write X now dir gen ms =
     write_via now (in_dir dir ''.index.tmp'') (index_path dir) (concat (map (\<lambda>l. l @ [LF]) (index_lines X gen ms)))"
  by (simp add: index_write_def index_lines_def write_record_line [abs_def] comp_def)

lemma INDEX_MAGIC_chars: "c \<in> set INDEX_MAGIC \<Longrightarrow> c \<noteq> CHR '' '' \<and> c \<noteq> LF \<and> c \<noteq> CR \<and> is_ascii_char c"
  by (auto simp: INDEX_MAGIC_def is_ascii_char_def)

lemma index_lines_chars:
  assumes "uuid_ok X" "l \<in> set (index_lines X gen ms)" "c \<in> set l"
  shows "c \<noteq> LF \<and> c \<noteq> CR \<and> is_ascii_char c"
proof -
  consider "c \<in> set INDEX_MAGIC" | "c \<in> set ''gen ''" | n where "c \<in> set (show_nat n)" | m where "c \<in> set (record_line X m)"
    using assms(2, 3) unfolding index_lines_def by auto
  then show ?thesis
  proof cases
    case 1
    then show ?thesis
      using INDEX_MAGIC_chars by blast
  next
    case 2
    then show ?thesis
      by (auto simp: is_ascii_char_def)
  next
    case 3
    then show ?thesis
      using show_nat_chars by blast
  next
    case 4
    then show ?thesis
      using record_line_chars [OF assms(1)] by blast
  qed
qed

lemma set_concat_lines: "set (concat (map (\<lambda>l. l @ [LF]) ls)) \<subseteq> insert LF (\<Union> (set ` set ls))"
  by (induction ls) auto

lemma index_text:
  assumes "uuid_ok X" "fs_get D (index_path dir) = Some (concat (map (\<lambda>l. l @ [LF]) (index_lines X gen ms)), t)"
  shows "map_option str_lines (read_to_string D (index_path dir)) = Some (index_lines X gen ms)"
proof -
  let ?t = "concat (map (\<lambda>l. l @ [LF]) (index_lines X gen ms))"
  have "is_ascii_char c" if "c \<in> set ?t" for c
  proof -
    have "c = LF \<or> (\<exists>l \<in> set (index_lines X gen ms). c \<in> set l)"
      using that set_concat_lines [of "index_lines X gen ms"] by blast
    then show ?thesis
      using index_lines_chars [OF assms(1)] by (cases "c = LF") (simp add: is_ascii_char_def, blast)
  qed
  then have "is_ascii ?t"
    by (simp add: is_ascii_def list_all_iff)
  moreover have "str_lines ?t = index_lines X gen ms"
    using index_lines_chars [OF assms(1)] by (intro str_lines_concat) blast
  ultimately show ?thesis
    using assms(2) by (simp add: read_to_string_def fs_read_def from_utf8_ascii)
qed

lemma index_load_written:
  assumes "uuid_ok X" "fs_get D (index_path dir) = Some (concat (map (\<lambda>l. l @ [LF]) (index_lines X gen ms)), t)"
  shows "fst gen < 2 ^ 64 \<Longrightarrow> snd gen < 2 ^ 64 \<Longrightarrow> length ms = snd gen \<Longrightarrow> list_all record_fits ms \<Longrightarrow>
           index_load X D dir gen = Some (Some ms)"
    and "index_load X D dir gen' = Some (Some ms') \<Longrightarrow> ms' = ms \<and> gen' = gen"
proof -
  obtain s where s: "read_to_string D (index_path dir) = Some s" "str_lines s = index_lines X gen ms"
    using index_text [OF assms] by auto
  have head: "split_once (CHR '' '') (INDEX_MAGIC @ CHR '' '' # show_nat INDEX_VERSION) = Some (INDEX_MAGIC, show_nat INDEX_VERSION)"
    using INDEX_MAGIC_chars by (intro split_once_SomeI) blast
  have version: "parse_unsigned 32 (show_nat INDEX_VERSION) = Some INDEX_VERSION"
    by (rule parse_unsigned_show_nat) (simp add: INDEX_VERSION_def)
  have stamp: "split_on (CHR '' '') (''gen'' @ CHR '' '' # show_nat (fst gen) @ CHR '' '' # show_nat (snd gen)) =
      [''gen'', show_nat (fst gen), show_nat (snd gen)]"
  proof -
    have sp: "CHR '' '' \<notin> set (show_nat n)" for n
      using show_nat_chars by blast
    show ?thesis
      using split_on_append_sep [of "CHR '' ''" "''gen''"] sp by (simp add: split_on_append_sep split_on_absent)
  qed
  have load: "index_load X D dir g =
      (if parse_unsigned 64 (show_nat (fst gen)) \<noteq> Some (fst g) \<or> parse_unsigned 64 (show_nat (snd gen)) \<noteq> Some (snd g) then Some None
       else (case parse_records X (map (record_line X) ms) of
               Some (Some ms) \<Rightarrow> Some (if length ms \<noteq> snd g then None else Some ms) | r \<Rightarrow> r))" for g
    unfolding index_load_def s(1) option.case s(2) index_lines_def list.case head prod.case version stamp by simp
  show "fst gen < 2 ^ 64 \<Longrightarrow> snd gen < 2 ^ 64 \<Longrightarrow> length ms = snd gen \<Longrightarrow> list_all record_fits ms \<Longrightarrow>
      index_load X D dir gen = Some (Some ms)"
    by (simp add: load parse_unsigned_show_nat parse_records_lines(1) [OF assms(1)])
  assume "index_load X D dir gen' = Some (Some ms')"
  then obtain ms1 where "parse_records X (map (record_line X) ms) = Some (Some ms1)" "ms' = ms1"
    "parse_unsigned 64 (show_nat (fst gen)) = Some (fst gen')" "parse_unsigned 64 (show_nat (snd gen)) = Some (snd gen')"
    unfolding load by (auto split: if_splits option.splits)
  then show "ms' = ms \<and> gen' = gen"
    using parse_records_lines(2) [OF assms(1), of ms ms1] by (auto simp: parse_unsigned_show_nat_iff prod_eq_iff split: if_splits)
qed

end
