(* ===== verification/Mailbox_Steps.thy ===== *)
theory Mailbox_Steps
  imports Mailbox_Index "HOL-Library.Code_Target_Nat"
begin

text \<open>
  A mailbox over time. Operations that leave the UID files, the counters and the index of a mailbox alone are
  recognised by rules on the code of the operations; the steps of a mailbox are a relation on the disk,
  one rule per operation, in any order and by any number of sessions.
\<close>

section \<open>Frames\<close>

text \<open>\<open>frame Ks Rs dir\<close>: the mailbox directory stays one, the files \<open>Ks\<close> keep their content and the files \<open>Rs\<close> keep it or
  disappear.\<close>

named_theorems frame_intros \<open>rules for what an operation leaves alone\<close>

definition frame :: "path set \<Rightarrow> path set \<Rightarrow> path \<Rightarrow> fs \<Rightarrow> fs \<Rightarrow> bool" where
  "frame Ks Rs dir D D' \<longleftrightarrow>
     (dir_ok D dir \<and> wf_fs D \<longrightarrow>
      dir_ok D' dir \<and> wf_fs D' \<and> (\<forall>p \<in> Ks. fs_get D' p = fs_get D p) \<and>
      (\<forall>p \<in> Rs. fs_get D' p = fs_get D p \<or> fs_get D' p = None))"

lemma frame_refl [frame_intros]: "frame Ks Rs dir D D"
  by (simp add: frame_def)

lemma frame_trans: "frame Ks Rs dir D D' \<Longrightarrow> frame Ks Rs dir D' D'' \<Longrightarrow> frame Ks Rs dir D D''"
  unfolding frame_def by metis

lemma frame_files:
  assumes "fs_dirs D' = fs_dirs D" "wf_fs D \<Longrightarrow> wf_fs D'" "\<And>p. p \<in> Ks \<Longrightarrow> fs_get D' p = fs_get D p"
    "\<And>p. p \<in> Rs \<Longrightarrow> fs_get D' p = fs_get D p \<or> fs_get D' p = None"
  shows "frame Ks Rs dir D D'"
  using assms dir_ok_cong [OF assms(1)] by (simp add: frame_def)

definition framed_op :: "path set \<Rightarrow> path set \<Rightarrow> path \<Rightarrow> (fs \<Rightarrow> fs option) \<Rightarrow> bool" where
  "framed_op Ks Rs dir f \<longleftrightarrow> (\<forall>D D'. f D = Some D' \<longrightarrow> frame Ks Rs dir D D')"

lemma framed_write [frame_intros]: "p \<notin> Ks \<Longrightarrow> p \<notin> Rs \<Longrightarrow> framed_op Ks Rs dir (fs_write now p bs)"
  unfolding framed_op_def
proof (intro allI impI)
  fix D D'
  assume p: "p \<notin> Ks" "p \<notin> Rs" and w: "fs_write now p bs D = Some D'"
  have "fs_get D' = (fs_get D)(p \<mapsto> (bs, now))" "fs_dirs D' = fs_dirs D"
    using w by (auto simp: fs_write_Some_iff)
  then show "frame Ks Rs dir D D'"
    using p wf_fs_write [OF _ w] by (intro frame_files) auto
qed

lemma framed_write_via [frame_intros]:
  "tmp \<noteq> p \<Longrightarrow> p \<notin> Ks \<Longrightarrow> p \<notin> Rs \<Longrightarrow> tmp \<notin> Ks \<Longrightarrow> tmp \<notin> Rs \<Longrightarrow> framed_op Ks Rs dir (write_via now tmp p bs)"
  unfolding framed_op_def
proof (intro allI impI)
  fix D D'
  assume p: "tmp \<noteq> p" "p \<notin> Ks" "p \<notin> Rs" "tmp \<notin> Ks" "tmp \<notin> Rs" and w: "write_via now tmp p bs D = Some D'"
  have "fs_dirs D' = fs_dirs D" "fs_get D' = (fs_get D)(tmp := None, p \<mapsto> (bs, now))"
    using write_via_Some [OF w p(1)] by blast+
  then show "frame Ks Rs dir D D'"
    using p wf_fs_write_via [OF _ w] by (intro frame_files) auto
qed

lemma framed_remove [frame_intros]: "p \<notin> Ks \<Longrightarrow> framed_op Ks Rs dir (fs_remove p)"
  unfolding framed_op_def
proof (intro allI impI)
  fix D D'
  assume p: "p \<notin> Ks" and r: "fs_remove p D = Some D'"
  have "fs_get D' = (fs_get D)(p := None)" "fs_dirs D' = fs_dirs D"
    using r by (auto simp: fs_remove_def split: if_splits)
  then show "frame Ks Rs dir D D'"
    using p wf_fs_remove [OF _ r] by (intro frame_files) auto
qed

lemma framed_rename [frame_intros]: "p \<notin> Ks \<Longrightarrow> q \<notin> Ks \<Longrightarrow> q \<notin> Rs \<Longrightarrow> framed_op Ks Rs dir (fs_rename p q)"
  unfolding framed_op_def
proof (intro allI impI)
  fix D D'
  assume p: "p \<notin> Ks" "q \<notin> Ks" "q \<notin> Rs" and r: "fs_rename p q D = Some D'"
  obtain f where "\<And>r. fs_get D' r = (if r = q then Some f else if r = p then None else fs_get D r)" "fs_dirs D' = fs_dirs D"
    using r by (cases "fs_get D p") (auto simp: fs_rename_def split: if_splits)
  then show "frame Ks Rs dir D D'"
    using p wf_fs_rename [OF _ r] by (intro frame_files) auto
qed

lemma distinct_prefixes: "distinct (map (\<lambda>n. take n p) [0..<Suc (length p)])"
proof -
  have "inj_on (\<lambda>n. take n p) (set [0..<Suc (length p)])"
    by (rule inj_onI) (metis atLeastLessThan_iff length_take less_Suc_eq_le min.absorb2 set_upt)
  then show ?thesis
    by (simp add: distinct_map del: upt_Suc)
qed

lemma framed_create_dir_all [frame_intros]:
  assumes "\<And>n x. take n p \<noteq> in_dir dir x"
  shows "framed_op Ks Rs dir (create_dir_all p)"
  unfolding framed_op_def
proof (intro allI impI)
  fix D D'
  assume c: "create_dir_all p D = Some D'"
  let ?new = "filter (\<lambda>q. \<not> is_dir D q) (map (\<lambda>n. take n p) [0..<Suc (length p)])"
  have D': "D' = D\<lparr>fs_dirs := fs_dirs D @ ?new\<rparr>"
    using c unfolding create_dir_all_def by (simp del: upt_Suc split: if_splits)
  have "in_dir dir x \<notin> set ?new" for x
    using assms [symmetric] by (auto simp: image_iff simp del: upt_Suc)
  moreover have "distinct ?new" "set ?new \<inter> set (fs_dirs D) = {}"
    using distinct_prefixes [of p] by (auto simp: is_dir_def simp del: upt_Suc intro: distinct_filter)
  ultimately show "frame Ks Rs dir D D'"
    unfolding frame_def D' dir_ok_def wf_fs_def is_dir_def by (auto simp del: upt_Suc filter.simps set_filter)
qed

lemma frame_ignoring: "framed_op Ks Rs dir f \<Longrightarrow> frame Ks Rs dir D (ignoring f D)"
  by (simp add: framed_op_def ignoring_def frame_refl split: option.split)

text \<open>The same for code in the style of \<open>io\<close>.\<close>

definition framed :: "path set \<Rightarrow> path set \<Rightarrow> path \<Rightarrow> 'a io \<Rightarrow> bool" where
  "framed Ks Rs dir m \<longleftrightarrow> (\<forall>D. frame Ks Rs dir D (snd (m D)))"

lemma framed_pure [frame_intros]:
  "framed Ks Rs dir (io_return x)" "framed Ks Rs dir io_fail" "framed Ks Rs dir (io_ask f)" "framed Ks Rs dir (io_of y)"
  by (simp_all add: framed_def frame_refl fs_simps)

lemma framed_do [frame_intros]: "framed_op Ks Rs dir f \<Longrightarrow> framed Ks Rs dir (io_do f)"
  by (simp add: framed_def framed_op_def frame_refl fs_simps split: option.split)

lemma framed_try [frame_intros]: "framed Ks Rs dir m \<Longrightarrow> framed Ks Rs dir (io_try m)"
  by (simp add: framed_def fs_simps)

lemma framed_bind [frame_intros]:
  assumes "framed Ks Rs dir m" "\<And>x. framed Ks Rs dir (f x)"
  shows "framed Ks Rs dir (io_bind m f)"
  unfolding framed_def
proof
  fix D
  obtain r D1 where m: "m D = (r, D1)"
    by (rule prod.exhaust)
  have "frame Ks Rs dir D D1"
    using assms(1) m unfolding framed_def by (metis snd_conv)
  then show "frame Ks Rs dir D (snd (io_bind m f D))"
    using assms(2) frame_trans unfolding framed_def io_bind_def m by (cases r) auto
qed

lemma framed_if [frame_intros]: "(b \<Longrightarrow> framed Ks Rs dir m) \<Longrightarrow> (\<not> b \<Longrightarrow> framed Ks Rs dir n) \<Longrightarrow> framed Ks Rs dir (if b then m else n)"
  by simp


section \<open>What the operations on a mailbox leave alone\<close>

definition uid_files :: "mail_crates \<Rightarrow> path \<Rightarrow> path set" where
  "uid_files X dir = range (\<lambda>i. sidecar X dir i ''.uid'')"

definition uid_state :: "path \<Rightarrow> path set" where
  "uid_state dir = {in_dir dir ''.uidnext'', index_path dir}"

definition steady :: "path \<Rightarrow> path set" where
  "steady dir = insert (in_dir dir ''.modseqctr'') (uid_state dir)"

lemma steady_sub: "uid_state dir \<subseteq> steady dir"
  by (auto simp: steady_def)

lemma frame_mono: "frame Ks Rs dir D D' \<Longrightarrow> Ls \<subseteq> Ks \<Longrightarrow> frame Ls Rs dir D D'"
  by (auto simp: frame_def)

lemma framed_mono: "framed Ks Rs dir m \<Longrightarrow> Ls \<subseteq> Ks \<Longrightarrow> framed Ls Rs dir m"
  using frame_mono unfolding framed_def by blast

lemma sidecar_not_steady: "uuid_ok X \<Longrightarrow> sidecar X d i e \<notin> steady dir"
  by (simp add: steady_def uid_state_def index_path_def sidecar_hidden)

lemma sidecar_not_uid: "uuid_ok X \<Longrightarrow> e \<noteq> ''uid'' \<Longrightarrow> sidecar X d i (CHR ''.'' # e) \<notin> uid_files X dir"
  by (auto simp: uid_files_def sidecar_eq_iff)

lemma other_dir_not_steady: "butlast p \<noteq> dir \<Longrightarrow> p \<notin> steady dir"
  by (auto simp: steady_def uid_state_def index_path_def)

lemma other_dir_not_uid: "butlast p \<noteq> dir \<Longrightarrow> p \<notin> uid_files X dir"
  by (auto simp: uid_files_def)

lemma hidden_not_uid: "uuid_ok X \<Longrightarrow> in_dir d (CHR ''.'' # e) \<notin> uid_files X dir"
  by (auto simp: uid_files_def sidecar_hidden)

lemma steady_hidden:
  "in_dir dir ''.vanished'' \<notin> steady dir" "in_dir dir ''.modseqctr'' \<notin> uid_state dir" "in_dir dir ''.modseqctr.tmp'' \<notin> uid_state dir"
  by (simp_all add: steady_def uid_state_def index_path_def)

lemmas path_facts = sidecar_not_steady sidecar_not_uid other_dir_not_steady other_dir_not_uid hidden_not_uid steady_hidden sidecar_eq_iff

lemma framed_write_flags [frame_intros]: "uuid_ok X \<Longrightarrow> framed_op (steady dir) (uid_files X dir) dir (write_flags X now dir i fl)"
  unfolding write_flags_def by (intro frame_intros) (simp_all add: path_facts)

lemma framed_modseq_write [frame_intros]: "uuid_ok X \<Longrightarrow> framed_op (steady dir) (uid_files X dir) dir (modseq_write X now dir i n)"
  unfolding modseq_write_def by (intro frame_intros) (simp_all add: path_facts)

lemma framed_next_counter [frame_intros]: "uuid_ok X \<Longrightarrow> framed (uid_state dir) (uid_files X dir) dir (next_counter now dir)"
  unfolding next_counter_def by (intro frame_intros) (simp_all add: path_facts)

lemma framed_vanished [frame_intros]: "uuid_ok X \<Longrightarrow> framed_op (steady dir) (uid_files X dir) dir (vanished_record now dir uids n)"
proof -
  assume X: "uuid_ok X"
  have "framed_op (steady dir) (uid_files X dir) dir (fs_write now (in_dir dir ''.vanished'') bs)" for bs
    using X by (intro frame_intros) (simp_all add: path_facts)
  then show ?thesis
    unfolding framed_op_def vanished_record_def fs_append_def by (auto simp: frame_refl split: if_splits)
qed

lemma framed_op_mono: "framed_op Ks Rs dir f \<Longrightarrow> Ls \<subseteq> Ks \<Longrightarrow> framed_op Ls Rs dir f"
  using frame_mono unfolding framed_op_def by blast

lemma framed_record_advancing: "uuid_ok X \<Longrightarrow> framed (uid_state dir) (uid_files X dir) dir (record_advancing now dir uids)"
  unfolding record_advancing_def
  using framed_op_mono [OF framed_vanished steady_sub] by (intro frame_intros) auto

text \<open>Where a mailbox lies in its account.\<close>

lemma mailbox_dir_shape:
  assumes "mailbox_dir dd a mb = Some dir"
  shows "\<exists>x xs. dir = account_root dd a @ x # xs \<and> x \<in> {''new'', ''folders''}" "length (account_root dd a) < length dir"
  using assms by (auto simp: mailbox_dir_def Let_def split: if_splits)

lemma shorter_ne: "length a < length b \<Longrightarrow> a \<noteq> b"
  by auto

lemma beside_mailbox:
  assumes "mailbox_dir dd a mb = Some dir" "x \<notin> {''new'', ''folders''}"
  shows "account_root dd a @ [x] \<noteq> dir" "take n (account_root dd a @ [x]) \<noteq> in_dir dir y"
proof -
  show "account_root dd a @ [x] \<noteq> dir"
    using mailbox_dir_shape(1) [OF assms(1)] assms(2) by auto
  have "length (take n (account_root dd a @ [x])) < length (in_dir dir y)"
    using mailbox_dir_shape(2) [OF assms(1)] by simp
  then show "take n (account_root dd a @ [x]) \<noteq> in_dir dir y"
    by (rule shorter_ne)
qed

lemma inside_mailbox: "take n dir \<noteq> in_dir dir x"
proof -
  have "length (take n dir) < length (in_dir dir x)"
    by simp
  then show ?thesis
    by (rule shorter_ne)
qed

lemma frame_remove_files_of: "uuid_ok X \<Longrightarrow> frame (steady dir) (uid_files X dir) dir D (remove_files_of X d i es D)"
proof (induction es arbitrary: D)
  case (Cons e es)
  have "frame (steady dir) (uid_files X dir) dir D (ignoring (fs_remove (sidecar X d i e)) D)"
    using Cons.prems by (intro frame_ignoring frame_intros sidecar_not_steady)
  then show ?case
    using frame_trans Cons.IH [OF Cons.prems] unfolding remove_files_of.simps by blast
qed (simp add: frame_refl)

lemma framed_archive_moves:
  assumes "uuid_ok X" "arch \<noteq> dir"
  shows "framed (steady dir) (uid_files X dir) dir (archive_moves X d arch i es)"
proof (induction es)
  case (Cons e es)
  then show ?case
    unfolding archive_moves.simps using assms by (intro frame_intros) (simp_all add: path_facts)
qed (simp add: frame_intros)

lemma frame_remove_files:
  assumes "uuid_ok X" "mailbox_dir dd a mb = Some dir" "sn_dir sn = dir" "sn_root sn = account_root dd a"
  shows "frame (steady dir) (uid_files X dir) dir D (remove_files X now sn i D)"
proof -
  have arch: "archive_dir (account_root dd a) \<noteq> dir" "take n (archive_dir (account_root dd a)) \<noteq> in_dir dir y" for n y
    unfolding archive_dir_def using beside_mailbox [OF assms(2), of "''.archive''"] by simp_all
  have "framed (steady dir) (uid_files X dir) dir (archive_message X now (sn_root sn) (sn_dir sn) (sn_mailbox sn) i (sn_now sn))"
    unfolding archive_message_def Let_def
    by (intro frame_intros framed_archive_moves) (use assms arch in \<open>simp_all add: path_facts\<close>)
  then show ?thesis
    using frame_remove_files_of [OF assms(1)] unfolding remove_files_def framed_def assms(3) by (auto simp del: remove_files_of.simps)
qed


lemma frame_expunge_loop:
  assumes "uuid_ok X" "mailbox_dir dd a mb = Some dir" "sn_dir sn = dir" "sn_root sn = account_root dd a"
    "expunge_loop X now sn keep n ms D = (kept, seqs, uids, D')"
  shows "frame (steady dir) (uid_files X dir) dir D D'"
  using assms(5)
proof (induction ms arbitrary: n D kept seqs uids)
  case (Cons m ms)
  then show ?case
    using frame_remove_files [OF assms(1-4)] frame_trans by (auto simp: Let_def split: if_splits prod.splits) blast+
qed (simp add: frame_refl)

lemma frame_expunge_where:
  assumes "uuid_ok X" "mailbox_dir dd a mb = Some dir" "sn_dir sn = dir" "sn_root sn = account_root dd a"
    "expunge_where X now keep sn D = (seqs, sn', D')"
  shows "frame (uid_state dir) (uid_files X dir) dir D D'"
proof -
  obtain kept uids D1 where l: "expunge_loop X now sn keep 0 (sn_messages sn) D = (kept, seqs, uids, D1)"
    and D': "D' = snd (record_advancing now dir uids D1)"
    using assms(3, 5) by (auto simp: expunge_where_def Let_def split: prod.splits)
  show ?thesis
    using frame_mono [OF frame_expunge_loop [OF assms(1-4) l] steady_sub] framed_record_advancing [OF assms(1)] frame_trans
    unfolding D' framed_def by blast
qed

lemma frame_remove_at:
  assumes "uuid_ok X" "mailbox_dir dd a mb = Some dir" "sn_dir sn = dir" "sn_root sn = account_root dd a"
    "remove_at X now sq sn D = (ok, sn', D')"
  shows "frame (uid_state dir) (uid_files X dir) dir D D'"
proof (cases "by_sequence sn sq")
  case None
  then show ?thesis
    using assms(5) by (simp add: remove_at_def frame_refl)
next
  case (Some m)
  then have "D' = snd (record_advancing now dir [mr_uid m] (remove_files X now sn (mr_id m) D))"
    using assms(3, 5) by (simp add: remove_at_def Let_def)
  then show ?thesis
    using frame_mono [OF frame_remove_files [OF assms(1-4)] steady_sub] framed_record_advancing [OF assms(1)] frame_trans
    unfolding framed_def by blast
qed

lemma frame_store_flags:
  assumes "uuid_ok X" "sn_dir sn = dir" "store_flags X now sq fl sn D = (res, sn', D')"
  shows "frame (uid_state dir) (uid_files X dir) dir D D'"
proof (cases "by_sequence sn sq")
  case None
  then show ?thesis
    using assms(3) by (simp add: store_flags_def frame_refl)
next
  case (Some m)
  have counter: "frame (uid_state dir) (uid_files X dir) dir E E'" if "next_counter now dir E = (r, E')" for E r E'
    using framed_next_counter [OF assms(1)] that unfolding framed_def by (metis snd_conv)
  have stamp: "frame (uid_state dir) (uid_files X dir) dir E (ignoring (modseq_write X now dir i n) E)" for E i n
    by (rule frame_mono [OF frame_ignoring [OF framed_modseq_write] steady_sub]) (rule assms(1))
  have written: "frame (uid_state dir) (uid_files X dir) dir D E" if "write_flags X now dir (mr_id m) fl D = Some E" for E
    using framed_op_mono [OF framed_write_flags [OF assms(1)] steady_sub] that unfolding framed_op_def by blast
  show ?thesis
    using assms(2, 3) Some counter stamp written frame_trans
    by (auto simp: store_flags_def frame_refl split: if_splits option.splits prod.splits) metis+
qed

lemma framed_append:
  assumes "uuid_ok X" "mailbox_dir dd a mb = Some dir"
  shows "framed (steady dir) (uid_files X dir) dir (mailbox_append X A now rng i dd a mb fl bs crypto)"
proof -
  have tmp: "account_root dd a @ [''tmp''] \<noteq> dir" "take n (account_root dd a @ [''tmp'']) \<noteq> in_dir dir y" for n y
    using beside_mailbox [OF assms(2), of "''tmp''"] by simp_all
  have "framed (steady dir) (uid_files X dir) dir
      (let tmp_dir = account_root dd a @ [''tmp'']; tmp = sidecar X tmp_dir i ''.eml'' in
       io_bind (io_do (create_dir_all dir)) (\<lambda>_.
       io_bind (io_do (create_dir_all tmp_dir)) (\<lambda>_.
       io_bind (io_of (crypto_encode A crypto rng bs)) (\<lambda>stored.
       io_bind (io_do (fs_write now tmp stored)) (\<lambda>_.
       io_bind (io_do (fs_rename tmp (sidecar X dir i ''.eml''))) (\<lambda>_.
       io_bind (if fl \<noteq> [] then io_do (write_flags X now dir i fl) else io_return ()) (\<lambda>_.
       io_return i)))))))"
    unfolding Let_def
    by (intro frame_intros inside_mailbox) (use assms tmp in \<open>simp_all add: path_facts\<close>)
  then show ?thesis
    unfolding mailbox_append_def framed_def by (simp add: io_bind_def [of "io_of _"] io_of_def assms(2))
qed

section \<open>The steps of a mailbox\<close>

definition opened :: "path \<Rightarrow> str \<Rightarrow> str \<Rightarrow> Snapshot \<Rightarrow> bool" where
  "opened dd a mb sn \<longleftrightarrow> mailbox_dir dd a mb = Some (sn_dir sn) \<and> sn_root sn = account_root dd a"

text \<open>There are UIDs and mod-sequences left.\<close>

definition room :: "mail_crates \<Rightarrow> path \<Rightarrow> fs \<Rightarrow> bool" where
  "room X dir D \<longleftrightarrow> uid_read_counter D dir + length (scan_ids X D dir) < 2 ^ 32 \<and> modseq_read_counter D dir + 1 < 2 ^ 64"

text \<open>One operation of any session on the mailbox. Every session opens mailboxes with the same key. The last rule
  is the removal of a message by the POP3 server; \<open>pop\<close> tells whether there is one.\<close>

inductive mailbox_step :: "mail_crates \<Rightarrow> aead \<Rightarrow> MessageCrypto \<Rightarrow> bool \<Rightarrow> path \<Rightarrow> str \<Rightarrow> str \<Rightarrow> fs \<Rightarrow> fs \<Rightarrow> bool"
  for X A crypto pop dd a mb where
  do_open: "mailbox_dir dd a mb = Some dir \<Longrightarrow> room X dir D \<Longrightarrow>
     snapshot_open_at X clock dd a mb crypto days now D = (res, D') \<Longrightarrow> mailbox_step X A crypto pop dd a mb D D'"
| do_append: "mailbox_dir dd a mb = Some dir \<Longrightarrow> fs_get D (sidecar X dir i ''.eml'') = None \<Longrightarrow>
     mailbox_append X A clock rng i dd a mb fl bs crypto D = (res, D') \<Longrightarrow> mailbox_step X A crypto pop dd a mb D D'"
| do_store: "opened dd a mb sn \<Longrightarrow> room X (sn_dir sn) D \<Longrightarrow>
     store_flags X clock sq fl sn D = (res, sn', D') \<Longrightarrow> mailbox_step X A crypto pop dd a mb D D'"
| do_expunge: "opened dd a mb sn \<Longrightarrow> room X (sn_dir sn) D \<Longrightarrow>
     expunge_where X clock keep sn D = (seqs, sn', D') \<Longrightarrow> mailbox_step X A crypto pop dd a mb D D'"
| do_remove: "opened dd a mb sn \<Longrightarrow> room X (sn_dir sn) D \<Longrightarrow>
     remove_at X clock sq sn D = (ok, sn', D') \<Longrightarrow> mailbox_step X A crypto pop dd a mb D D'"
| do_pop: "pop \<Longrightarrow> mailbox_dir dd a mb = Some dir \<Longrightarrow>
     D' = ignoring (fs_remove (sidecar X dir i ''.eml'')) D \<Longrightarrow> mailbox_step X A crypto pop dd a mb D D'"


section \<open>UIDs are never reused\<close>

definition uid_inv :: "mail_crates \<Rightarrow> path \<Rightarrow> (nat \<times> nat) set \<Rightarrow> fs \<Rightarrow> bool" where
  "uid_inv X dir H D \<longleftrightarrow>
     dir_ok D dir \<and> wf_fs D \<and> counted X dir H D (uid_read_counter D dir) \<and>
     (\<forall>gen ms m. index_load X D dir gen = Some (Some ms) \<longrightarrow> m \<in> set ms \<longrightarrow> (mr_uid m, mr_id m) \<in> H)"

lemma uid_read_frame:
  assumes "fs_get D' (sidecar X dir i ''.uid'') = fs_get D (sidecar X dir i ''.uid'') \<or> fs_get D' (sidecar X dir i ''.uid'') = None"
    "uid_read X D' dir i = Some u"
  shows "uid_read X D dir i = Some u"
  using assms by (auto simp: uid_read_def read_number_def read_to_string_def fs_read_def)

lemma index_load_cong: "fs_get D' (index_path dir) = fs_get D (index_path dir) \<Longrightarrow> index_load X D' dir gen = index_load X D dir gen"
  by (simp add: index_load_def read_to_string_cong [of D' "index_path dir" D])

lemma uid_read_counter_cong: "fs_get D' (in_dir dir ''.uidnext'') = fs_get D (in_dir dir ''.uidnext'') \<Longrightarrow> uid_read_counter D' dir = uid_read_counter D dir"
  by (simp add: uid_read_counter_def read_number_cong [of D' "in_dir dir ''.uidnext''" D])

lemma uid_inv_frame:
  assumes "frame (uid_state dir) (uid_files X dir) dir D D'" "uid_inv X dir H D"
  shows "uid_inv X dir H D'"
proof -
  have f: "dir_ok D' dir" "wf_fs D'" "fs_get D' (in_dir dir ''.uidnext'') = fs_get D (in_dir dir ''.uidnext'')"
    "fs_get D' (index_path dir) = fs_get D (index_path dir)"
    "\<And>i. fs_get D' (sidecar X dir i ''.uid'') = fs_get D (sidecar X dir i ''.uid'') \<or> fs_get D' (sidecar X dir i ''.uid'') = None"
    using assms by (auto simp: frame_def uid_inv_def uid_state_def uid_files_def)
  have "counted X dir H D' (uid_read_counter D' dir)"
    using assms(2) uid_read_frame [OF f(5)] unfolding uid_inv_def counted_def uid_read_counter_cong [OF f(3)] by blast
  then show ?thesis
    using assms(2) f(1, 2) unfolding uid_inv_def index_load_cong [OF f(4)] by blast
qed

lemma frame_read_or_init: "uuid_ok X \<Longrightarrow> frame (steady dir) (uid_files X dir) dir D (snd (read_or_init now dir D))"
proof -
  assume X: "uuid_ok X"
  have "framed_op (steady dir) (uid_files X dir) dir (fs_write now (in_dir dir ''.uidvalidity'') bs)" for bs
    by (intro frame_intros) (simp_all add: steady_def uid_state_def index_path_def hidden_not_uid X)
  then show ?thesis
    using frame_ignoring by (auto simp: read_or_init_def Let_def frame_refl split: option.split)
qed

lemma uid_write_counter_ok:
  assumes "dir_ok D dir"
  obtains D' where "uid_write_counter now dir n D = Some D'" "fs_dirs D' = fs_dirs D"
    "\<And>p. fs_get D' p = (if p = in_dir dir ''.uidnext'' then Some (show_nat n, now) else if p = in_dir dir ''.uidnext.tmp'' then None else fs_get D p)"
proof -
  have "\<not> is_dir D (in_dir dir e)" "is_dir D dir" for e
    using assms by (simp_all add: dir_ok_def)
  then obtain D' where w: "write_via now (in_dir dir ''.uidnext.tmp'') (in_dir dir ''.uidnext'') (show_nat n) D = Some D'"
    using write_via_ok [of "in_dir dir ''.uidnext.tmp''" "in_dir dir ''.uidnext''" D now "show_nat n"] by simp
  have "in_dir dir ''.uidnext.tmp'' \<noteq> in_dir dir ''.uidnext''"
    by simp
  then have "fs_dirs D' = fs_dirs D"
    "fs_get D' = (fs_get D)(in_dir dir ''.uidnext.tmp'' := None, in_dir dir ''.uidnext'' \<mapsto> (show_nat n, now))"
    using write_via_Some [OF w] by blast+
  then show ?thesis
    using that w unfolding uid_write_counter_def by simp
qed

lemma scan_mailbox_uids:
  assumes "uuid_ok X" "uid_inv X dir H D" "room X dir D" "scan_mailbox X crypto now dir D = (ms, D1)"
  shows "\<exists>H'. H \<subseteq> H' \<and> uid_inv X dir H' D1 \<and> (\<forall>m \<in> set ms. (mr_uid m, mr_id m) \<in> H')"
proof -
  let ?c = "uid_read_counter D dir"
  obtain E c' where l: "scan_loop X crypto now dir (scan_ids X D dir) (D, ?c) = (ms, E, c')"
    and D1: "D1 = (if c' > ?c then ignoring (uid_write_counter now dir c') E else E)"
    using assms(4) by (auto simp: scan_mailbox_def Let_def split: prod.splits)
  have inv: "dir_ok D dir" "wf_fs D" "counted X dir H D ?c" "?c + length (scan_ids X D dir) < 2 ^ 32"
    using assms(2, 3) by (simp_all add: uid_inv_def room_def)
  obtain H' where H': "H \<subseteq> H'" "counted X dir H' E c'" "?c \<le> c'" "c' \<le> ?c + length (scan_ids X D dir)" "touches_uids X dir D E"
    "\<forall>m \<in> set ms. (mr_uid m, mr_id m) \<in> H'"
    using scan_loop_counted [OF assms(1) inv(1, 3, 4) l] by blast
  have hid: "fs_get E (in_dir dir (CHR ''.'' # e)) = fs_get D (in_dir dir (CHR ''.'' # e))" for e
    using H'(5) sidecar_hidden [OF assms(1)] unfolding touches_uids_def by blast
  have E: "dir_ok E dir" "wf_fs E"
    using inv(1) H'(5) dir_ok_cong scan_loop_wf [OF l inv(2)] unfolding touches_uids_def by metis+
  have D1_facts: "dir_ok D1 dir" "wf_fs D1" "uid_read_counter D1 dir = c'" "uid_read X D1 dir = uid_read X E dir"
    "fs_get D1 (index_path dir) = fs_get E (index_path dir)"
  proof -
    have "dir_ok D1 dir \<and> wf_fs D1 \<and> uid_read_counter D1 dir = c' \<and> (\<forall>i. uid_read X D1 dir i = uid_read X E dir i) \<and>
        fs_get D1 (index_path dir) = fs_get E (index_path dir)"
    proof (cases "c' > ?c")
      case True
      obtain F where F: "uid_write_counter now dir c' E = Some F" "fs_dirs F = fs_dirs E"
        "\<And>p. fs_get F p = (if p = in_dir dir ''.uidnext'' then Some (show_nat c', now) else if p = in_dir dir ''.uidnext.tmp'' then None else fs_get E p)"
        using uid_write_counter_ok [OF E(1)] by blast
      have "D1 = F"
        using D1 True F(1) by (simp add: ignoring_def)
      moreover have "c' < 2 ^ 32"
        using H'(4) inv(4) by simp
      then have "uid_read_counter F dir = c'"
        using read_number_written [of F "in_dir dir ''.uidnext''" c' now 32] F(3) by (simp add: uid_read_counter_def)
      moreover have "uid_read X F dir i = uid_read X E dir i" for i
        unfolding uid_read_def by (rule read_number_cong) (simp add: F(3) sidecar_hidden assms(1))
      moreover have "wf_fs F"
        using F(1) E(2) wf_fs_write_via unfolding uid_write_counter_def by blast
      ultimately show ?thesis
        using E(1) dir_ok_cong [OF F(2)] F(3) by (simp add: index_path_def)
    next
      case False
      then have "uid_read_counter E dir = c'"
        using H'(3) uid_read_counter_cong [OF hid] by simp
      then show ?thesis
        using False D1 E by simp
    qed
    then show "dir_ok D1 dir" "wf_fs D1" "uid_read_counter D1 dir = c'" "uid_read X D1 dir = uid_read X E dir"
      "fs_get D1 (index_path dir) = fs_get E (index_path dir)"
      by auto
  qed
  have idx: "fs_get D1 (index_path dir) = fs_get D (index_path dir)"
    using D1_facts(5) hid [of "''index''"] by (simp add: index_path_def)
  have "\<forall>gen ms m. index_load X D1 dir gen = Some (Some ms) \<longrightarrow> m \<in> set ms \<longrightarrow> (mr_uid m, mr_id m) \<in> H'"
    using assms(2) H'(1) unfolding uid_inv_def index_load_cong [OF idx] by blast
  moreover have "counted X dir H' D1 (uid_read_counter D1 dir)"
    using H'(2) unfolding counted_def D1_facts(3, 4) .
  ultimately have "uid_inv X dir H' D1"
    using D1_facts(1, 2) unfolding uid_inv_def by blast
  then show ?thesis
    using H' by blast
qed


lemma frame_index_write:
  "uuid_ok X \<Longrightarrow> frame {in_dir dir ''.uidnext'', in_dir dir ''.modseqctr''} (uid_files X dir) dir D (ignoring (index_write X now dir gen ms) D)"
  unfolding index_write_def by (intro frame_ignoring frame_intros) (simp_all add: index_path_def hidden_not_uid)

lemma index_write_result:
  assumes "dir_ok D dir"
  shows "fs_get (ignoring (index_write X now dir gen ms) D) (index_path dir) =
           Some (concat (map (\<lambda>l. l @ [LF]) (index_lines X gen ms)), now)"
proof -
  let ?t = "concat (map (\<lambda>l. l @ [LF]) (index_lines X gen ms))"
  have "\<not> is_dir D (in_dir dir e)" "is_dir D dir" for e
    using assms by (simp_all add: dir_ok_def)
  then obtain D' where w: "write_via now (in_dir dir ''.index.tmp'') (index_path dir) ?t D = Some D'"
    using write_via_ok [of "in_dir dir ''.index.tmp''" "index_path dir" D now ?t] by (simp add: index_path_def)
  then have "fs_get D' (index_path dir) = Some (?t, now)"
    using write_via_Some [OF w] by (simp add: index_path_def)
  then show ?thesis
    using w by (simp add: ignoring_def index_write_lines)
qed

lemma uid_inv_index_write:
  assumes "uuid_ok X" "uid_inv X dir H D" "\<forall>m \<in> set ms. (mr_uid m, mr_id m) \<in> H"
  shows "uid_inv X dir H (ignoring (index_write X now dir gen ms) D)"
proof -
  let ?D = "ignoring (index_write X now dir gen ms) D"
  have f: "dir_ok ?D dir" "wf_fs ?D" "fs_get ?D (in_dir dir ''.uidnext'') = fs_get D (in_dir dir ''.uidnext'')"
    "\<And>i. fs_get ?D (sidecar X dir i ''.uid'') = fs_get D (sidecar X dir i ''.uid'') \<or> fs_get ?D (sidecar X dir i ''.uid'') = None"
    using frame_index_write [OF assms(1), of dir D now gen ms] assms(2) by (auto simp: frame_def uid_inv_def uid_files_def)
  have "counted X dir H ?D (uid_read_counter ?D dir)"
    using assms(2) uid_read_frame [OF f(4)] unfolding uid_inv_def counted_def uid_read_counter_cong [OF f(3)] by blast
  moreover have "dir_ok D dir"
    using assms(2) by (simp add: uid_inv_def)
  then have "ms' = ms" if "index_load X ?D dir gen' = Some (Some ms')" for gen' ms'
    using index_load_written(2) [OF assms(1) index_write_result that] by blast
  ultimately show ?thesis
    using f(1, 2) assms(3) unfolding uid_inv_def by blast
qed

lemma open_uids:
  assumes "uuid_ok X" "mailbox_dir dd a mb = Some dir" "uid_inv X dir H D" "room X dir D"
    "snapshot_open_at X clock dd a mb crypto days now D = (res, D')"
  shows "\<exists>H'. H \<subseteq> H' \<and> uid_inv X dir H' D' \<and> (\<forall>sn m. res = Some sn \<longrightarrow> m \<in> set (sn_messages sn) \<longrightarrow> (mr_uid m, mr_id m) \<in> H')"
proof (cases "index_load X D dir (current_generation D dir)")
  case None
  then show ?thesis
    using assms(2, 3, 5) by (intro exI [of _ H]) (simp add: snapshot_open_at_def Let_def)
next
  case (Some r)
  show ?thesis
  proof (cases r)
    case (Some loaded)
    have D': "D' = snd (read_or_init clock dir D)" and sn: "\<And>sn. res = Some sn \<Longrightarrow> sn_messages sn = loaded"
      using assms(2, 5) \<open>index_load X D dir (current_generation D dir) = Some r\<close> Some
      by (auto simp: snapshot_open_at_def Let_def split: prod.splits)
    have "uid_inv X dir H D'"
      using uid_inv_frame [OF frame_mono [OF frame_read_or_init [OF assms(1)] steady_sub] assms(3)] D' by simp
    moreover have "(mr_uid m, mr_id m) \<in> H" if "m \<in> set loaded" for m
      using assms(3) that Some \<open>index_load X D dir (current_generation D dir) = Some r\<close> unfolding uid_inv_def by blast
    ultimately show ?thesis
      using sn by (intro exI [of _ H]) auto
  next
    case None
    obtain ms D1 where scan: "scan_mailbox X crypto clock dir D = (ms, D1)"
      by (rule prod.exhaust)
    let ?D2 = "ignoring (index_write X clock dir (current_generation D dir) ms) D1"
    have D': "D' = snd (read_or_init clock dir ?D2)" and sn: "\<And>sn. res = Some sn \<Longrightarrow> sn_messages sn = ms"
      using assms(2, 5) \<open>index_load X D dir (current_generation D dir) = Some r\<close> None scan
      by (auto simp: snapshot_open_at_def Let_def split: prod.splits)
    obtain H' where H': "H \<subseteq> H'" "uid_inv X dir H' D1" "\<forall>m \<in> set ms. (mr_uid m, mr_id m) \<in> H'"
      using scan_mailbox_uids [OF assms(1, 3, 4) scan] by blast
    have "uid_inv X dir H' ?D2"
      by (rule uid_inv_index_write [OF assms(1) H'(2, 3)])
    then have "uid_inv X dir H' D'"
      using uid_inv_frame [OF frame_mono [OF frame_read_or_init [OF assms(1)] steady_sub]] D' by blast
    then show ?thesis
      using H'(1, 3) sn by (intro exI [of _ H']) auto
  qed
qed

lemma step_uids:
  assumes "uuid_ok X" "mailbox_dir dd a mb = Some dir" "mailbox_step X A crypto pop dd a mb D D'" "uid_inv X dir H D"
  shows "\<exists>H'. H \<subseteq> H' \<and> uid_inv X dir H' D'"
  using assms(3)
proof cases
  case (do_open dir' clock days now res)
  then show ?thesis
    using open_uids [OF assms(1, 2, 4)] assms(2) by (metis option.inject)
next
  case (do_append dir' i clock rng fl bs res)
  have "frame (uid_state dir) (uid_files X dir) dir D D'"
    using frame_mono [OF _ steady_sub] framed_append [OF assms(1, 2)] do_append(3) unfolding framed_def by (metis snd_conv)
  then show ?thesis
    using uid_inv_frame assms(4) by blast
next
  case (do_store sn clock sq fl res sn')
  then show ?thesis
    using uid_inv_frame [OF frame_store_flags [OF assms(1)] assms(4)] assms(2) unfolding opened_def by (metis option.inject subset_refl)
next
  case (do_expunge sn clock keep seqs sn')
  then show ?thesis
    using uid_inv_frame [OF frame_expunge_where [OF assms(1, 2)] assms(4)] assms(2) unfolding opened_def by (metis option.inject subset_refl)
next
  case (do_remove sn clock sq ok sn')
  then show ?thesis
    using uid_inv_frame [OF frame_remove_at [OF assms(1, 2)] assms(4)] assms(2) unfolding opened_def by (metis option.inject subset_refl)
next
  case (do_pop dir' i)
  have "frame (uid_state dir) (uid_files X dir) dir D D'"
    unfolding do_pop(3) using frame_mono [OF frame_ignoring [OF framed_remove [OF sidecar_not_steady]] steady_sub] assms(1) by blast
  then show ?thesis
    using uid_inv_frame assms(4) by blast
qed

lemma run_uids:
  assumes "uuid_ok X" "mailbox_dir dd a mb = Some dir" "(mailbox_step X A crypto pop dd a mb)\<^sup>*\<^sup>* D D'" "uid_inv X dir H D"
  shows "\<exists>H'. H \<subseteq> H' \<and> uid_inv X dir H' D'"
  using assms(3)
proof (induction rule: rtranclp_induct)
  case base
  then show ?case
    using assms(4) by blast
next
  case (step E F)
  then show ?case
    using step_uids [OF assms(1, 2)] by (meson order_trans)
qed


definition empty_mailbox :: "path \<Rightarrow> fs \<Rightarrow> bool" where
  "empty_mailbox dir D \<longleftrightarrow> wf_fs D \<and> dir_ok D dir \<and> (\<forall>n. fs_get D (in_dir dir n) = None)"

lemma empty_mailbox_inv: "empty_mailbox dir D \<Longrightarrow> uid_inv X dir {} D"
  by (simp add: empty_mailbox_def uid_inv_def counted_def uid_read_def read_number_def read_to_string_def fs_read_def sidecar_def
      index_load_def index_path_def)

text \<open>C10. A UID never names two messages. Take a mailbox from its creation on, with any number of sessions (and
  POP3 connections) adding messages, changing flags, expunging, removing and reopening it in any order;
  if it shows a UID now and a UID then, and they are the same number, they are the same message.
  This holds as long as the 32-bit UIDs do not run out.\<close>

theorem uids_never_reused:
  assumes "uuid_ok X" "mailbox_dir dd a mb = Some dir" "empty_mailbox dir D0"
    and "(mailbox_step X A crypto pop dd a mb)\<^sup>*\<^sup>* D0 D1" "room X dir D1"
    and "snapshot_open_at X clock1 dd a mb crypto days1 now1 D1 = (Some sn, D2)"
    and "(mailbox_step X A crypto pop dd a mb)\<^sup>*\<^sup>* D2 D3" "room X dir D3"
    and "snapshot_open_at X clock2 dd a mb crypto days2 now2 D3 = (Some sn', D4)"
    and "m \<in> set (sn_messages sn)" "m' \<in> set (sn_messages sn')" "mr_uid m = mr_uid m'"
  shows "mr_id m = mr_id m'"
proof -
  obtain H1 where H1: "uid_inv X dir H1 D1"
    using run_uids [OF assms(1, 2, 4) empty_mailbox_inv [OF assms(3)]] by blast
  obtain H2 where H2: "uid_inv X dir H2 D2" "(mr_uid m, mr_id m) \<in> H2"
    using open_uids [OF assms(1, 2) H1 assms(5, 6)] assms(10) by blast
  obtain H3 where H3: "H2 \<subseteq> H3" "uid_inv X dir H3 D3"
    using run_uids [OF assms(1, 2, 7) H2(1)] by blast
  obtain H4 where "H3 \<subseteq> H4" "uid_inv X dir H4 D4" "(mr_uid m', mr_id m') \<in> H4"
    using open_uids [OF assms(1, 2) H3(2) assms(8, 9)] assms(11) by blast
  then have "single_valued H4" "(mr_uid m, mr_id m) \<in> H4" "(mr_uid m, mr_id m') \<in> H4"
    using H2(2) H3(1) assms(12) by (auto simp: uid_inv_def counted_def)
  then show ?thesis
    by (simp add: single_valued_def)
qed

definition sample_mail :: mail_crates where
  "sample_mail = \<lparr>uuid_parse = (\<lambda>s. if s \<noteq> [] \<and> list_all is_ascii_digit s then Some (digits_value s) else None), uuid_show = show_nat,
     flags_to_json = map (\<lambda>f. hd (drop 1 (flag_as_str f))),
     flags_from_json = (\<lambda>s. those (map (\<lambda>c. List.find (\<lambda>f. hd (drop 1 (flag_as_str f)) = c) [Seen, Answered, Flagged, Draft]) s))\<rparr>"

lemma sample_mail_ok: "uuid_ok sample_mail"
proof -
  have "list_all uuid_char (show_nat u)" for u
    using show_nat_digits [of u] by (auto simp: list_all_iff uuid_char_def is_ascii_alphanumeric_def)
  then show ?thesis
    using show_nat_digits by (simp add: uuid_ok_def sample_mail_def)
qed

definition sample_inbox :: path where
  "sample_inbox = [''d'', ''accounts'', ''bob'', ''new'']"

definition sample_disk :: fs where
  "sample_disk = \<lparr>fs_files = [], fs_dirs = [[], [''d''], [''d'', ''accounts''], [''d'', ''accounts'', ''bob''], sample_inbox]\<rparr>"

definition with_message :: "nat \<Rightarrow> bytes \<Rightarrow> fs \<Rightarrow> fs" where
  "with_message i bs D = snd (mailbox_append sample_mail sample_aead 0 None i [''d''] ''bob'' ''INBOX'' [] bs crypto_disabled D)"

definition open_inbox :: "fs \<Rightarrow> Snapshot option \<times> fs" where
  "open_inbox D = snapshot_open_at sample_mail (10 ^ 9) [''d''] ''bob'' ''INBOX'' crypto_disabled 0 1 D"

definition inbox_listing :: "fs \<Rightarrow> (nat \<times> nat) list" where
  "inbox_listing D = map (\<lambda>m. (mr_id m, mr_uid m)) (sn_messages (the (fst (open_inbox D))))"

definition first_open :: fs where
  "first_open = snd (open_inbox (with_message 7 ''hi'' sample_disk))"

lemma sample_listings:
  "inbox_listing (with_message 7 ''hi'' sample_disk) = [(7, 1)]"
  "inbox_listing (with_message 9 ''ho'' first_open) = [(7, 1), (9, 2)]"
  "fst (open_inbox (with_message 7 ''hi'' sample_disk)) \<noteq> None" "fst (open_inbox (with_message 9 ''ho'' first_open)) \<noteq> None"
  by code_simp+

lemma sample_room:
  "room sample_mail sample_inbox (with_message 7 ''hi'' sample_disk)" "room sample_mail sample_inbox (with_message 9 ''ho'' first_open)"
  by code_simp+

lemma sample_steps:
  "mailbox_step sample_mail sample_aead crypto_disabled pop [''d''] ''bob'' ''INBOX'' sample_disk (with_message 7 ''hi'' sample_disk)"
  "mailbox_step sample_mail sample_aead crypto_disabled pop [''d''] ''bob'' ''INBOX'' first_open (with_message 9 ''ho'' first_open)"
proof -
  have dir: "mailbox_dir [''d''] ''bob'' ''INBOX'' = Some sample_inbox"
    by code_simp
  have "fs_get sample_disk (sidecar sample_mail sample_inbox 7 ''.eml'') = None" "fs_get first_open (sidecar sample_mail sample_inbox 9 ''.eml'') = None"
    by code_simp+
  then show "mailbox_step sample_mail sample_aead crypto_disabled pop [''d''] ''bob'' ''INBOX'' sample_disk (with_message 7 ''hi'' sample_disk)"
    "mailbox_step sample_mail sample_aead crypto_disabled pop [''d''] ''bob'' ''INBOX'' first_open (with_message 9 ''ho'' first_open)"
    using do_append [OF dir] unfolding with_message_def by (metis prod.collapse)+
qed

lemma sample_disk_empty: "empty_mailbox sample_inbox sample_disk"
  by (auto simp: empty_mailbox_def wf_fs_def dir_ok_def is_dir_def sample_disk_def sample_inbox_def)

theorem uids_never_reused_witness:
  "mr_id (hd (sn_messages (the (fst (open_inbox (with_message 7 ''hi'' sample_disk)))))) =
   mr_id (hd (sn_messages (the (fst (open_inbox (with_message 9 ''ho'' first_open))))))"
proof -
  let ?D1 = "with_message 7 ''hi'' sample_disk"
  let ?D3 = "with_message 9 ''ho'' first_open"
  obtain sn D2 sn' D4 where s: "open_inbox ?D1 = (Some sn, D2)" "open_inbox ?D3 = (Some sn', D4)"
    using sample_listings(3, 4) by (cases "open_inbox ?D1"; cases "open_inbox ?D3") auto
  have D2: "D2 = first_open"
    using s(1) by (simp add: first_open_def)
  have l: "map (\<lambda>m. (mr_id m, mr_uid m)) (sn_messages sn) = [(7, 1)]" "map (\<lambda>m. (mr_id m, mr_uid m)) (sn_messages sn') = [(7, 1), (9, 2)]"
    using sample_listings(1, 2) s by (simp_all add: inbox_listing_def)
  then have m: "hd (sn_messages sn) \<in> set (sn_messages sn)" "hd (sn_messages sn') \<in> set (sn_messages sn')"
    "mr_uid (hd (sn_messages sn)) = mr_uid (hd (sn_messages sn'))"
    by (cases "sn_messages sn"; cases "sn_messages sn'"; auto)+
  have dir: "mailbox_dir [''d''] ''bob'' ''INBOX'' = Some sample_inbox"
    by code_simp
  have steps: "(mailbox_step sample_mail sample_aead crypto_disabled True [''d''] ''bob'' ''INBOX'')\<^sup>*\<^sup>* sample_disk ?D1"
    "(mailbox_step sample_mail sample_aead crypto_disabled True [''d''] ''bob'' ''INBOX'')\<^sup>*\<^sup>* D2 ?D3"
    using sample_steps [of True] unfolding D2 by blast+
  have "mr_id (hd (sn_messages sn)) = mr_id (hd (sn_messages sn'))"
    by (rule uids_never_reused [OF sample_mail_ok dir sample_disk_empty steps(1) sample_room(1) s(1) [unfolded open_inbox_def]
        steps(2) sample_room(2) s(2) [unfolded open_inbox_def] m])
  then show ?thesis
    using s by simp
qed

end
