(* ===== verification/Mailbox_Coherence.thy ===== *)
theory Mailbox_Coherence
  imports Mailbox_Steps "HOL-Library.Multiset"
begin

text \<open>
  The metadata index against the scan it replaces: with IMAP sessions only, opening a mailbox gives what a
  scan of the directory gives. The last section shows what breaks this, and what an expunge tells a
  client.
\<close>

section \<open>What a scan finds\<close>

text \<open>The listing a scan makes, as a function of the files: UIDs are read or counted on.\<close>

fun listing :: "mail_crates \<Rightarrow> MessageCrypto \<Rightarrow> fs \<Rightarrow> path \<Rightarrow> (nat \<Rightarrow> nat option) \<Rightarrow> nat \<Rightarrow> nat list \<Rightarrow> MessageRef list" where
  "listing X crypto D dir f c [] = []"
| "listing X crypto D dir f c (i # is) =
     (case f i of
        Some u \<Rightarrow> message_ref X crypto D dir i u # listing X crypto D dir f c is
      | None \<Rightarrow> (let c = (c + 1) mod 2 ^ 32 in message_ref X crypto D dir i c # listing X crypto D dir (f(i \<mapsto> c)) c is))"

definition scanned :: "mail_crates \<Rightarrow> MessageCrypto \<Rightarrow> path \<Rightarrow> fs \<Rightarrow> MessageRef list" where
  "scanned X crypto dir D = listing X crypto D dir (uid_read X D dir) (uid_read_counter D dir) (scan_ids X D dir)"

lemma message_ref_cong:
  assumes "\<And>e. e \<in> {''.eml'', ''.flags'', ''.modseq''} \<Longrightarrow> fs_get D' (sidecar X dir i e) = fs_get D (sidecar X dir i e)"
  shows "message_ref X crypto D' dir i u = message_ref X crypto D dir i u"
proof -
  have "stored_plaintext_len crypto D' (sidecar X dir i ''.eml'') n = stored_plaintext_len crypto D (sidecar X dir i ''.eml'') n" for n
    using assms by (simp add: stored_plaintext_len_def file_has_magic_def fs_read_def)
  then show ?thesis
    using assms read_number_cong [of D' "sidecar X dir i ''.modseq''" D]
    by (simp add: message_ref_def Let_def fs_read_def read_flags_def modseq_read_def split: option.split)
qed

lemma listing_cong:
  assumes "\<And>i e. e \<in> {''.eml'', ''.flags'', ''.modseq''} \<Longrightarrow> fs_get D' (sidecar X dir i e) = fs_get D (sidecar X dir i e)"
  shows "listing X crypto D' dir f c is = listing X crypto D dir f c is"
  using message_ref_cong [OF assms] by (induction "is" arbitrary: f c) (auto simp: Let_def split: option.split)

lemma touches_uids_files:
  assumes "uuid_ok X" "touches_uids X dir D D'" "e \<in> {''.eml'', ''.flags'', ''.modseq''}"
  shows "fs_get D' (sidecar X dir i e) = fs_get D (sidecar X dir i e)"
  using assms by (auto simp: touches_uids_def sidecar_eq_iff)

lemma assign_or_read_cases:
  assumes "uuid_ok X" "dir_ok D dir" "assign_or_read X now dir i (D, c) = (u, D', c')"
  obtains "uid_read X D dir i = Some u" "D' = D" "c' = c"
  | "uid_read X D dir i = None" "u = (c + 1) mod 2 ^ 32" "c' = u" "uid_read X D' dir = (uid_read X D dir)(i \<mapsto> u)" "touches_uids X dir D D'"
proof (cases "uid_read X D dir i")
  case (Some v)
  then have "u = v" "D' = D" "c' = c"
    using assms(3) by (simp_all add: assign_or_read_def)
  then show ?thesis
    using that(1) Some by blast
next
  case None
  let ?u = "(c + 1) mod 2 ^ 32"
  obtain E where E: "uid_write X now dir i ?u D = Some E" "fs_dirs E = fs_dirs D"
    "fs_get E = (fs_get D)(sidecar X dir i ''.uid.tmp'' := None, sidecar X dir i ''.uid'' \<mapsto> (show_nat ?u, now))"
    using uid_write_ok [OF assms(2, 1)] by blast
  have eq: "u = ?u" "c' = ?u" "D' = E"
    using assms(3) None E(1) by (auto simp: assign_or_read_def Let_def ignoring_def)
  have "uid_read X D' dir = (uid_read X D dir)(i \<mapsto> u)"
    using uid_read_written [OF assms(1) E(3)] eq by simp
  moreover have "touches_uids X dir D D'"
    using E eq by (simp add: touches_uids_def)
  ultimately show ?thesis
    using that(2) None eq by blast
qed

lemma scan_loop_listing:
  assumes "uuid_ok X" "dir_ok D dir" "scan_loop X crypto now dir is (D, c) = (ms, D', c')"
  shows "ms = listing X crypto D dir (uid_read X D dir) c is \<and> touches_uids X dir D D' \<and> map mr_id ms = is \<and>
         (\<forall>m \<in> set ms. uid_read X D' dir (mr_id m) = Some (mr_uid m)) \<and>
         (\<forall>i u. uid_read X D dir i = Some u \<longrightarrow> uid_read X D' dir i = Some u)"
  using assms(2, 3)
proof (induction "is" arbitrary: D c ms)
  case Nil
  then show ?case
    by (auto simp: touches_uids_def)
next
  case (Cons i "is")
  obtain u D1 c1 where a: "assign_or_read X now dir i (D, c) = (u, D1, c1)"
    by (rule prod_cases3)
  obtain ms' where l: "scan_loop X crypto now dir is (D1, c1) = (ms', D', c')" and ms: "ms = message_ref X crypto D1 dir i u # ms'"
    using Cons.prems(2) a by (auto simp: Let_def split: prod.splits)
  have t: "touches_uids X dir D D1" and r: "uid_read X D1 dir i = Some u"
    and first: "listing X crypto D dir (uid_read X D dir) c (i # is) =
        message_ref X crypto D dir i u # listing X crypto D dir (uid_read X D1 dir) c1 is"
    and keep: "\<And>j v. uid_read X D dir j = Some v \<Longrightarrow> uid_read X D1 dir j = Some v"
    by (rule assign_or_read_cases [OF assms(1) Cons.prems(1) a]; auto simp: Let_def touches_uids_def split: if_splits)+
  have "dir_ok D1 dir"
    using Cons.prems(1) t dir_ok_cong unfolding touches_uids_def by metis
  from Cons.IH [OF this l] have IH: "ms' = listing X crypto D1 dir (uid_read X D1 dir) c1 is" "touches_uids X dir D1 D'" "map mr_id ms' = is"
    "\<forall>m \<in> set ms'. uid_read X D' dir (mr_id m) = Some (mr_uid m)" "\<And>j v. uid_read X D1 dir j = Some v \<Longrightarrow> uid_read X D' dir j = Some v"
    by blast+
  have files: "fs_get D1 (sidecar X dir j e) = fs_get D (sidecar X dir j e)" if "e \<in> {''.eml'', ''.flags'', ''.modseq''}" for j e
    using touches_uids_files [OF assms(1) t that] .
  have whole: "ms = listing X crypto D dir (uid_read X D dir) c (i # is)"
    unfolding first ms IH(1) using message_ref_cong [OF files] listing_cong [OF files] by simp
  have "mr_id (message_ref X crypto D1 dir i u) = i" "mr_uid (message_ref X crypto D1 dir i u) = u"
    by (simp_all add: message_ref_def Let_def)
  then have "map mr_id ms = i # is" "\<forall>m \<in> set ms. uid_read X D' dir (mr_id m) = Some (mr_uid m)"
    using IH(3, 4, 5) r unfolding ms by simp_all
  then show ?case
    using whole touches_uids_trans [OF t IH(2)] IH(5) keep by blast
qed

lemma listing_settled:
  "(\<And>i. i \<in> set is \<Longrightarrow> f i \<noteq> None) \<Longrightarrow> listing X crypto D dir f c is = map (\<lambda>i. message_ref X crypto D dir i (the (f i))) is"
  by (induction "is") fastforce+

section \<open>The message files of a directory\<close>

definition emls :: "path \<Rightarrow> fs \<Rightarrow> str set" where
  "emls dir D = {n. from_utf8 n \<noteq> None \<and> ends_with ''.eml'' n \<and> fs_get D (in_dir dir n) \<noteq> None}"

lemma read_dir_names:
  assumes "dir_ok D dir" "wf_fs D"
  obtains ns where "read_dir D dir = Some ns" "distinct ns" "\<And>n. n \<in> set ns \<longleftrightarrow> fs_get D (in_dir dir n) \<noteq> None"
proof -
  have "in_dir dir n \<notin> set (fs_dirs D)" for n
    using assms(1) by (simp add: dir_ok_def is_dir_def)
  then have "child_names dir (fs_dirs D) = []"
    using child_names_iff [of _ dir "fs_dirs D"] by (metis list.set_intros(1) neq_Nil_conv)
  then have "read_dir D dir = Some (child_names dir (map fst (fs_files D)))"
    using assms(1) by (simp add: read_dir_def dir_ok_def)
  then show ?thesis
    using that distinct_child_names [of "map fst (fs_files D)"] assms(2) child_names_iff key_iff unfolding wf_fs_def by metis
qed

lemma generation_count:
  assumes "dir_ok D dir" "wf_fs D"
  shows "snd (current_generation D dir) = card (emls dir D)" "finite (emls dir D)"
proof -
  obtain ns where ns: "read_dir D dir = Some ns" "distinct ns" "\<And>n. n \<in> set ns \<longleftrightarrow> fs_get D (in_dir dir n) \<noteq> None"
    using read_dir_names [OF assms] by blast
  let ?ms = "filter (\<lambda>n. from_utf8 n \<noteq> None \<and> ends_with ''.eml'' n) ns"
  have e: "emls dir D = set ?ms"
    using ns(3) by (auto simp: emls_def)
  have "snd (current_generation D dir) = length ?ms"
    unfolding current_generation_def ns(1) by simp
  then show "snd (current_generation D dir) = card (emls dir D)"
    unfolding e using distinct_card [OF distinct_filter [OF ns(2)]] by metis
  show "finite (emls dir D)"
    unfolding e by (rule finite_set)
qed

lemma scan_ids_cong:
  assumes "dir_ok D dir" "wf_fs D" "dir_ok D' dir" "wf_fs D'" "emls dir D' = emls dir D"
  shows "scan_ids X D' dir = scan_ids X D dir"
proof -
  let ?P = "\<lambda>n. from_utf8 n \<noteq> None \<and> ends_with ''.eml'' n"
  let ?f = "\<lambda>n. Option.bind (from_utf8 n) (\<lambda>n. Option.bind (strip_suffix ''.eml'' n) (uuid_parse X))"
  obtain ns where ns: "read_dir D dir = Some ns" "distinct ns" "\<And>n. n \<in> set ns \<longleftrightarrow> fs_get D (in_dir dir n) \<noteq> None"
    using read_dir_names [OF assms(1, 2)] by blast
  obtain ns' where ns': "read_dir D' dir = Some ns'" "distinct ns'" "\<And>n. n \<in> set ns' \<longleftrightarrow> fs_get D' (in_dir dir n) \<noteq> None"
    using read_dir_names [OF assms(3, 4)] by blast
  have P: "?P n" if "?f n \<noteq> None" for n
    using that by (auto simp: from_utf8_def strip_suffix_def ends_with_def starts_with_def split: if_splits Option.bind_splits)
  have mf: "List.map_filter ?f xs = map (the \<circ> ?f) (filter (\<lambda>n. ?f n \<noteq> None) (filter ?P xs))" for xs
    unfolding List.map_filter_def filter_filter using P by (intro arg_cong [of _ _ "map _"] filter_cong) blast+
  have "set (filter ?P ns) = emls dir D" "set (filter ?P ns') = emls dir D'"
    using ns(3) ns'(3) by (auto simp: emls_def)
  then have "set (filter ?P ns') = set (filter ?P ns)"
    using assms(5) by metis
  then have "mset (filter ?P ns') = mset (filter ?P ns)"
    using ns(2) ns'(2) by (simp only: set_eq_iff_mset_eq_distinct distinct_filter)
  then have "mset (List.map_filter ?f ns') = mset (List.map_filter ?f ns)"
    unfolding mf mset_map mset_filter by simp
  then have "sort (List.map_filter ?f ns') = sort (List.map_filter ?f ns)"
    by (intro properties_for_sort) simp_all
  then show ?thesis
    by (simp only: scan_ids_def ns(1) ns'(1) option.case)
qed

section \<open>Coherence\<close>

text \<open>What a scan and the generation stamp depend on.\<close>

definition view_files :: "mail_crates \<Rightarrow> path \<Rightarrow> path set" where
  "view_files X dir = steady dir \<union> {sidecar X dir i e |i e. e \<in> {''.flags'', ''.modseq'', ''.uid''}} \<union> {in_dir dir n |n. ends_with ''.eml'' n}"

definition older :: "nat \<times> nat \<Rightarrow> nat \<times> nat \<Rightarrow> bool" where
  "older g h \<longleftrightarrow> fst g < fst h \<or> fst g = fst h \<and> snd g < snd h"

definition coherent :: "mail_crates \<Rightarrow> MessageCrypto \<Rightarrow> path \<Rightarrow> fs \<Rightarrow> bool" where
  "coherent X crypto dir D \<longleftrightarrow>
     dir_ok D dir \<and> wf_fs D \<and> 1 \<le> modseq_read_counter D dir \<and>
     (\<forall>gen ms. index_load X D dir gen = Some (Some ms) \<longrightarrow>
        older gen (current_generation D dir) \<or> gen = current_generation D dir \<and> ms = scanned X crypto dir D)"

lemma older_trans: "older g h \<Longrightarrow> older h k \<Longrightarrow> older g k"
  by (auto simp: older_def)

lemma sidecar_eml: "uuid_ok X \<Longrightarrow> \<exists>n. sidecar X dir i ''.eml'' = in_dir dir n \<and> n = uuid_show X i @ ''.eml'' \<and> ends_with ''.eml'' n"
  by (simp add: sidecar_def ends_with_def starts_with_def)

lemma sidecar_in_view: "uuid_ok X \<Longrightarrow> e \<in> {''.eml'', ''.flags'', ''.modseq'', ''.uid''} \<Longrightarrow> sidecar X dir i e \<in> view_files X dir"
  using sidecar_eml unfolding view_files_def by blast

lemma modseq_counter_cong:
  "fs_get D' (in_dir dir ''.modseqctr'') = fs_get D (in_dir dir ''.modseqctr'') \<Longrightarrow> modseq_read_counter D' dir = modseq_read_counter D dir"
  by (simp add: modseq_read_counter_def read_number_cong [of D' "in_dir dir ''.modseqctr''" D])

lemma emls_cong:
  "(\<And>n. ends_with ''.eml'' n \<Longrightarrow> fs_get D' (in_dir dir n) = fs_get D (in_dir dir n)) \<Longrightarrow> emls dir D' = emls dir D"
  by (auto simp: emls_def)

lemma generation_eq:
  assumes "dir_ok D dir" "wf_fs D"
  shows "current_generation D dir = (max (modseq_read_counter D dir) 1, card (emls dir D))"
  using generation_count(1) [OF assms] by (simp add: current_generation_def)

lemma index_not_eml: "index_path dir = in_dir dir n \<Longrightarrow> \<not> ends_with ''.eml'' n"
  by (auto simp: index_path_def ends_with_def starts_with_def)

lemma view_same:
  assumes "uuid_ok X" "frame (view_files X dir - {index_path dir}) {} dir D D'" "dir_ok D dir" "wf_fs D"
  shows "current_generation D' dir = current_generation D dir" "scanned X crypto dir D' = scanned X crypto dir D"
    "modseq_read_counter D' dir = modseq_read_counter D dir"
proof -
  have f: "dir_ok D' dir" "wf_fs D'" "\<And>p. p \<in> view_files X dir \<Longrightarrow> p \<noteq> index_path dir \<Longrightarrow> fs_get D' p = fs_get D p"
    using assms(2-4) by (auto simp: frame_def)
  have side: "fs_get D' (sidecar X dir i e) = fs_get D (sidecar X dir i e)" if "e \<in> {''.eml'', ''.flags'', ''.modseq'', ''.uid''}" for i e
    by (rule f(3) [OF sidecar_in_view [OF assms(1) that]]) (simp add: index_path_def sidecar_hidden assms(1))
  have emls: "emls dir D' = emls dir D"
  proof (rule emls_cong)
    fix n
    assume n: "ends_with ''.eml'' n"
    show "fs_get D' (in_dir dir n) = fs_get D (in_dir dir n)"
      by (rule f(3)) (use n index_not_eml [of dir n] in \<open>auto simp: view_files_def\<close>)
  qed
  show ms: "modseq_read_counter D' dir = modseq_read_counter D dir"
    by (intro modseq_counter_cong f(3)) (simp_all add: view_files_def steady_def index_path_def)
  show "current_generation D' dir = current_generation D dir"
    by (simp add: generation_eq f(1, 2) assms(3, 4) ms emls)
  have uids: "uid_read X D' dir = uid_read X D dir"
    unfolding uid_read_def fun_eq_iff by (intro allI read_number_cong side) simp
  have cnt: "uid_read_counter D' dir = uid_read_counter D dir"
    by (intro uid_read_counter_cong f(3)) (simp_all add: view_files_def steady_def uid_state_def index_path_def)
  show "scanned X crypto dir D' = scanned X crypto dir D"
    unfolding scanned_def uids cnt scan_ids_cong [OF assms(3, 4) f(1, 2) emls] by (intro listing_cong side) auto
qed

lemma coherent_frame:
  assumes "uuid_ok X" "frame (view_files X dir) {} dir D D'" "coherent X crypto dir D"
  shows "coherent X crypto dir D'"
proof -
  have D: "dir_ok D dir" "wf_fs D"
    using assms(3) by (simp_all add: coherent_def)
  have f: "frame (view_files X dir - {index_path dir}) {} dir D D'"
    using frame_mono [OF assms(2)] by blast
  have D': "dir_ok D' dir" "wf_fs D'" "fs_get D' (index_path dir) = fs_get D (index_path dir)"
    using assms(2) D by (simp_all add: frame_def view_files_def steady_def uid_state_def)
  show ?thesis
    using assms(3) D' unfolding coherent_def view_same [OF assms(1) f D] index_load_cong [OF D'(3)] by blast
qed

lemma coherent_older:
  assumes "coherent X crypto dir D" "dir_ok D' dir" "wf_fs D'" "1 \<le> modseq_read_counter D' dir"
    "fs_get D' (index_path dir) = fs_get D (index_path dir)" "older (current_generation D dir) (current_generation D' dir)"
  shows "coherent X crypto dir D'"
  using assms older_trans unfolding coherent_def index_load_cong [OF assms(5)] by metis

lemma coherent_bumped:
  assumes "coherent X crypto dir D" "frame (uid_state dir) Rs dir D D'" "modseq_read_counter D' dir = modseq_read_counter D dir + 1"
  shows "coherent X crypto dir D'"
proof -
  have D: "dir_ok D dir" "wf_fs D" "1 \<le> modseq_read_counter D dir"
    using assms(1) by (simp_all add: coherent_def)
  have D': "dir_ok D' dir" "wf_fs D'" "fs_get D' (index_path dir) = fs_get D (index_path dir)"
    using assms(2) D by (simp_all add: frame_def uid_state_def)
  have "older (current_generation D dir) (current_generation D' dir)"
    using D(3) assms(3) by (simp add: older_def generation_eq D D')
  then show ?thesis
    using coherent_older [OF assms(1) D'(1, 2) _ D'(3)] assms(3) by simp
qed

lemma next_counter_result:
  assumes "uuid_ok X" "dir_ok D dir" "wf_fs D" "modseq_read_counter D dir + 1 < 2 ^ 64"
  obtains D' where "next_counter now dir D = (Some (modseq_read_counter D dir + 1), D')" "modseq_read_counter D' dir = modseq_read_counter D dir + 1"
    "frame (uid_state dir) (uid_files X dir) dir D D'"
proof -
  let ?n = "modseq_read_counter D dir + 1"
  have "\<not> is_dir D (in_dir dir e)" "is_dir D dir" for e
    using assms(2) by (simp_all add: dir_ok_def)
  then obtain D' where w: "write_via now (in_dir dir ''.modseqctr.tmp'') (in_dir dir ''.modseqctr'') (show_nat ?n) D = Some D'"
    using write_via_ok [of "in_dir dir ''.modseqctr.tmp''" "in_dir dir ''.modseqctr''" D now "show_nat ?n"] by simp
  have n: "next_counter now dir D = (Some ?n, D')"
    using w assms(4) by (simp add: next_counter_def fs_simps)
  have "fs_get D' (in_dir dir ''.modseqctr'') = Some (show_nat ?n, now)"
    using write_via_Some [OF w] by simp
  then have "modseq_read_counter D' dir = ?n"
    using read_number_written [of D' "in_dir dir ''.modseqctr''" ?n now 64] assms(4) by (simp add: modseq_read_counter_def)
  moreover have "frame (uid_state dir) (uid_files X dir) dir D D'"
    using framed_next_counter [OF assms(1), of dir now] n unfolding framed_def by (metis snd_conv)
  ultimately show ?thesis
    using that n by blast
qed

lemma advancing_result:
  assumes "uuid_ok X" "dir_ok D dir" "wf_fs D" "modseq_read_counter D dir + 1 < 2 ^ 64" "uids \<noteq> []"
  shows "modseq_read_counter (snd (record_advancing now dir uids D)) dir = modseq_read_counter D dir + 1"
proof -
  obtain E where E: "next_counter now dir D = (Some (modseq_read_counter D dir + 1), E)" "modseq_read_counter E dir = modseq_read_counter D dir + 1"
    "frame (uid_state dir) (uid_files X dir) dir D E"
    using next_counter_result [OF assms(1-4)] by blast
  have "dir_ok E dir" "wf_fs E"
    using E(3) assms(2, 3) by (simp_all add: frame_def)
  have "framed (steady dir) (uid_files X dir) dir (io_do (vanished_record now dir uids (modseq_read_counter D dir + 1)))"
    by (intro frame_intros assms(1))
  then have "frame (steady dir) (uid_files X dir) dir E (snd (io_do (vanished_record now dir uids (modseq_read_counter D dir + 1)) E))"
    by (simp add: framed_def)
  then have "fs_get (snd (io_do (vanished_record now dir uids (modseq_read_counter D dir + 1)) E)) (in_dir dir ''.modseqctr'') =
      fs_get E (in_dir dir ''.modseqctr'')"
    using \<open>dir_ok E dir\<close> \<open>wf_fs E\<close> by (simp add: frame_def steady_def)
  then have "modseq_read_counter (snd (io_do (vanished_record now dir uids (modseq_read_counter D dir + 1)) E)) dir = modseq_read_counter D dir + 1"
    using modseq_counter_cong E(2) by metis
  then show ?thesis
    using assms(5) E(1) by (simp add: record_advancing_def io_try_def io_bind_def)
qed

lemma steady_counter: "frame (steady dir) Rs dir D D' \<Longrightarrow> dir_ok D dir \<Longrightarrow> wf_fs D \<Longrightarrow> modseq_read_counter D' dir = modseq_read_counter D dir"
  by (rule modseq_counter_cong) (simp add: frame_def steady_def)

lemma expunge_loop_none: "expunge_loop X now sn keep n ms D = (kept, seqs, [], D') \<Longrightarrow> D' = D"
  by (induction ms arbitrary: n D kept seqs) (auto simp: Let_def split: if_splits prod.splits)

section \<open>Opening\<close>

lemma listing_refs: "m \<in> set (listing X crypto D dir f c is) \<Longrightarrow> m = message_ref X crypto D dir (mr_id m) (mr_uid m)"
  by (induction "is" arbitrary: f c) (auto simp: message_ref_def Let_def split: option.splits)

lemma scan_settles:
  assumes "uuid_ok X" "dir_ok D dir" "wf_fs D" "scan_mailbox X crypto now dir D = (ms, D1)"
  shows "ms = scanned X crypto dir D" "scanned X crypto dir D1 = ms" "current_generation D1 dir = current_generation D dir"
    "dir_ok D1 dir" "wf_fs D1" "modseq_read_counter D1 dir = modseq_read_counter D dir"
proof -
  let ?c = "uid_read_counter D dir"
  obtain E c' where l: "scan_loop X crypto now dir (scan_ids X D dir) (D, ?c) = (ms, E, c')"
    and D1: "D1 = (if c' > ?c then ignoring (uid_write_counter now dir c') E else E)"
    using assms(4) by (auto simp: scan_mailbox_def Let_def split: prod.splits)
  have E: "ms = listing X crypto D dir (uid_read X D dir) ?c (scan_ids X D dir)" "touches_uids X dir D E" "map mr_id ms = scan_ids X D dir"
    "\<forall>m \<in> set ms. uid_read X E dir (mr_id m) = Some (mr_uid m)"
    using scan_loop_listing [OF assms(1, 2) l] by blast+
  show scanned: "ms = scanned X crypto dir D"
    unfolding scanned_def by (rule E(1))
  have dE: "dir_ok E dir" "wf_fs E"
    using assms(2) E(2) dir_ok_cong scan_loop_wf [OF l assms(3)] unfolding touches_uids_def by metis+
  have "framed_op {p. p \<noteq> in_dir dir ''.uidnext'' \<and> p \<noteq> in_dir dir ''.uidnext.tmp''} {} dir (uid_write_counter now dir c')"
    unfolding uid_write_counter_def by (intro frame_intros) simp_all
  then have f: "frame {p. p \<noteq> in_dir dir ''.uidnext'' \<and> p \<noteq> in_dir dir ''.uidnext.tmp''} {} dir E D1"
    using frame_ignoring frame_refl unfolding D1 by (cases "c' > ?c") auto
  show dD1: "dir_ok D1 dir" "wf_fs D1"
    using f dE by (simp_all add: frame_def)
  have D1E: "fs_get D1 p = fs_get E p" if "p \<noteq> in_dir dir ''.uidnext''" "p \<noteq> in_dir dir ''.uidnext.tmp''" for p
    using f dE that by (auto simp: frame_def)
  have side: "fs_get D1 (sidecar X dir i e) = fs_get E (sidecar X dir i e)" for i e
    by (rule D1E) (simp_all add: sidecar_hidden assms(1))
  have sideD: "fs_get D1 (sidecar X dir i e) = fs_get D (sidecar X dir i e)" if "e \<in> {''.eml'', ''.flags'', ''.modseq''}" for i e
    using side touches_uids_files [OF assms(1) E(2) that] by simp
  have uids: "uid_read X D1 dir = uid_read X E dir"
    unfolding uid_read_def fun_eq_iff by (intro allI read_number_cong side)
  have "fs_get E p = fs_get D p" if "\<And>i e. p = sidecar X dir i e \<Longrightarrow> e \<noteq> ''.uid'' \<and> e \<noteq> ''.uid.tmp''" for p
    using E(2) that unfolding touches_uids_def by metis
  moreover have "n \<noteq> ''.uidnext''" "n \<noteq> ''.uidnext.tmp''" "in_dir dir n = sidecar X dir i e \<Longrightarrow> e \<noteq> ''.uid'' \<and> e \<noteq> ''.uid.tmp''"
    if "ends_with ''.eml'' n" for n i e
    using that by (auto simp: ends_with_def starts_with_def sidecar_def)
  ultimately have emls: "emls dir D1 = emls dir D"
    using D1E by (intro emls_cong) simp
  show ctr: "modseq_read_counter D1 dir = modseq_read_counter D dir"
  proof (rule modseq_counter_cong)
    show "fs_get D1 (in_dir dir ''.modseqctr'') = fs_get D (in_dir dir ''.modseqctr'')"
      using D1E [of "in_dir dir ''.modseqctr''"] E(2) sidecar_hidden [OF assms(1)] unfolding touches_uids_def by simp
  qed
  show "current_generation D1 dir = current_generation D dir"
    by (simp add: generation_eq dD1 assms(2, 3) ctr emls)
  have "scanned X crypto dir D1 = map (\<lambda>i. message_ref X crypto D1 dir i (the (uid_read X E dir i))) (map mr_id ms)"
    unfolding scanned_def uids scan_ids_cong [OF assms(2, 3) dD1 emls] E(3) [symmetric]
    by (rule listing_settled) (use E(4) in auto)
  also have "\<dots> = map (\<lambda>m. message_ref X crypto D dir (mr_id m) (mr_uid m)) ms"
    using E(4) message_ref_cong [OF sideD] by simp
  also have "\<dots> = ms"
    using listing_refs unfolding E(1) by (intro map_idI) (metis)
  finally show "scanned X crypto dir D1 = ms" .
qed

lemma hidden_not_view:
  assumes "uuid_ok X" "\<not> ends_with ''.eml'' (CHR ''.'' # e)" "CHR ''.'' # e \<notin> {''.uidnext'', ''.index'', ''.modseqctr''}"
  shows "in_dir dir (CHR ''.'' # e) \<notin> view_files X dir"
  using assms sidecar_hidden [OF assms(1)] by (auto simp: view_files_def steady_def uid_state_def index_path_def)

lemma hidden_names: "\<not> ends_with ''.eml'' ''.uidvalidity''" "\<not> ends_with ''.eml'' ''.index.tmp''" "\<not> ends_with ''.eml'' ''.vanished''"
  by (simp_all add: ends_with_def starts_with_def)

lemma view_read_or_init: "uuid_ok X \<Longrightarrow> frame (view_files X dir) {} dir D (snd (read_or_init now dir D))"
proof -
  assume X: "uuid_ok X"
  have "framed_op (view_files X dir) {} dir (fs_write now (in_dir dir ''.uidvalidity'') bs)" for bs
    by (intro frame_intros) (simp_all add: hidden_not_view hidden_names X)
  then show ?thesis
    using frame_ignoring by (auto simp: read_or_init_def Let_def frame_refl split: option.split)
qed

lemma view_index_write: "uuid_ok X \<Longrightarrow> frame (view_files X dir - {index_path dir}) {} dir D (ignoring (index_write X now dir gen ms) D)"
  unfolding index_write_def by (intro frame_ignoring frame_intros) (simp_all add: hidden_not_view hidden_names index_path_def)

lemma open_coherent:
  assumes "uuid_ok X" "mailbox_dir dd a mb = Some dir" "coherent X crypto dir D"
    "snapshot_open_at X clock dd a mb crypto days now D = (res, D')"
  shows "coherent X crypto dir D'" "\<And>sn. res = Some sn \<Longrightarrow> sn_messages sn = scanned X crypto dir D"
proof -
  let ?gen = "current_generation D dir"
  have D: "dir_ok D dir" "wf_fs D" "1 \<le> modseq_read_counter D dir"
    using assms(3) by (simp_all add: coherent_def)
  consider (panic) "index_load X D dir ?gen = None" | (loaded) ms where "index_load X D dir ?gen = Some (Some ms)"
    | (stale) "index_load X D dir ?gen = Some None"
    by (cases "index_load X D dir ?gen"; auto)
  then have "coherent X crypto dir D' \<and> (\<forall>sn. res = Some sn \<longrightarrow> sn_messages sn = scanned X crypto dir D)"
  proof cases
    case panic
    then show ?thesis
      using assms by (auto simp: snapshot_open_at_def Let_def)
  next
    case loaded
    have "ms = scanned X crypto dir D"
      using assms(3) loaded unfolding coherent_def older_def by blast
    moreover have D': "D' = snd (read_or_init clock dir D)" and "\<And>sn. res = Some sn \<Longrightarrow> sn_messages sn = ms"
      using assms(2, 4) loaded by (auto simp: snapshot_open_at_def Let_def split: prod.splits)
    moreover have "coherent X crypto dir D'"
      unfolding D' by (rule coherent_frame [OF assms(1) view_read_or_init [OF assms(1)] assms(3)])
    ultimately show ?thesis
      by blast
  next
    case stale
    obtain ms D1 where scan: "scan_mailbox X crypto clock dir D = (ms, D1)"
      by (rule prod.exhaust)
    note s = scan_settles [OF assms(1) D(1, 2) scan]
    let ?D2 = "ignoring (index_write X clock dir ?gen ms) D1"
    have D': "D' = snd (read_or_init clock dir ?D2)" and sn: "\<And>sn. res = Some sn \<Longrightarrow> sn_messages sn = ms"
      using assms(2, 4) stale scan by (auto simp: snapshot_open_at_def Let_def split: prod.splits)
    note v = view_same [OF assms(1) view_index_write [OF assms(1)] s(4, 5)]
    have "dir_ok ?D2 dir" "wf_fs ?D2"
      using view_index_write [OF assms(1), of dir D1 clock ?gen ms] s(4, 5) by (simp_all add: frame_def)
    moreover have "ms' = ms \<and> gen' = ?gen" if "index_load X ?D2 dir gen' = Some (Some ms')" for gen' ms'
      using index_load_written(2) [OF assms(1) index_write_result [OF s(4)] that] .
    ultimately have "coherent X crypto dir ?D2"
      using D(3) unfolding coherent_def v s(2, 3, 6) by blast
    then have "coherent X crypto dir D'"
      unfolding D' by (rule coherent_frame [OF assms(1) view_read_or_init [OF assms(1)]])
    then show ?thesis
      using sn s(1) by blast
  qed
  then show "coherent X crypto dir D'" "\<And>sn. res = Some sn \<Longrightarrow> sn_messages sn = scanned X crypto dir D"
    by blast+
qed

section \<open>Changing\<close>

lemma expunge_coherent:
  assumes "uuid_ok X" "mailbox_dir dd a mb = Some dir" "sn_dir sn = dir" "sn_root sn = account_root dd a" "room X dir D"
    "coherent X crypto dir D" "expunge_where X now keep sn D = (seqs, sn', D')"
  shows "coherent X crypto dir D'"
proof -
  obtain kept uids D1 where l: "expunge_loop X now sn keep 0 (sn_messages sn) D = (kept, seqs, uids, D1)"
    and D': "D' = snd (record_advancing now dir uids D1)"
    using assms(3, 7) by (auto simp: expunge_where_def Let_def split: prod.splits)
  have D: "dir_ok D dir" "wf_fs D"
    using assms(6) by (simp_all add: coherent_def)
  show ?thesis
  proof (cases "uids = []")
    case True
    then have "D' = D"
      using expunge_loop_none l D' by (auto simp: record_advancing_def io_return_def)
    then show ?thesis
      using assms(6) by simp
  next
    case False
    have f: "frame (steady dir) (uid_files X dir) dir D D1"
      by (rule frame_expunge_loop [OF assms(1-4) l])
    then have D1: "dir_ok D1 dir" "wf_fs D1" "modseq_read_counter D1 dir = modseq_read_counter D dir"
      using D steady_counter [OF f D] by (simp_all add: frame_def)
    have "modseq_read_counter D' dir = modseq_read_counter D dir + 1"
      unfolding D' D1(3) [symmetric] using advancing_result [OF assms(1) D1(1, 2) _ False] assms(5) D1(3) by (simp add: room_def)
    then show ?thesis
      by (rule coherent_bumped [OF assms(6) frame_expunge_where [OF assms(1-4, 7)]])
  qed
qed

lemma remove_coherent:
  assumes "uuid_ok X" "mailbox_dir dd a mb = Some dir" "sn_dir sn = dir" "sn_root sn = account_root dd a" "room X dir D"
    "coherent X crypto dir D" "remove_at X now sq sn D = (ok, sn', D')"
  shows "coherent X crypto dir D'"
proof (cases "by_sequence sn sq")
  case None
  then show ?thesis
    using assms(6, 7) by (simp add: remove_at_def)
next
  case (Some m)
  then have D': "D' = snd (record_advancing now dir [mr_uid m] (remove_files X now sn (mr_id m) D))"
    using assms(3, 7) by (simp add: remove_at_def Let_def)
  let ?D1 = "remove_files X now sn (mr_id m) D"
  have D: "dir_ok D dir" "wf_fs D"
    using assms(6) by (simp_all add: coherent_def)
  have f: "frame (steady dir) (uid_files X dir) dir D ?D1"
    by (rule frame_remove_files [OF assms(1-4)])
  then have D1: "dir_ok ?D1 dir" "wf_fs ?D1" "modseq_read_counter ?D1 dir = modseq_read_counter D dir"
    using D steady_counter [OF f D] by (simp_all add: frame_def)
  have "modseq_read_counter D' dir = modseq_read_counter D dir + 1"
    unfolding D' D1(3) [symmetric] using advancing_result [OF assms(1) D1(1, 2)] assms(5) D1(3) by (simp add: room_def)
  then show ?thesis
    by (rule coherent_bumped [OF assms(6) frame_remove_at [OF assms(1-4, 7)]])
qed

lemma store_coherent:
  assumes "uuid_ok X" "sn_dir sn = dir" "room X dir D" "coherent X crypto dir D" "store_flags X now sq fl sn D = (res, sn', D')"
  shows "coherent X crypto dir D'"
proof -
  have D: "dir_ok D dir" "wf_fs D"
    using assms(4) by (simp_all add: coherent_def)
  consider "D' = D" | m D1 where "by_sequence sn sq = Some m" "\<not> flags_equal (mr_flags m) fl" "write_flags X now dir (mr_id m) fl D = Some D1"
    using assms(2, 5) by (auto simp: store_flags_def split: if_splits option.splits)
  then show ?thesis
  proof cases
    case 1
    then show ?thesis
      using assms(4) by simp
  next
    case 2
    have f: "frame (steady dir) (uid_files X dir) dir D D1"
      using framed_write_flags [OF assms(1)] 2(3) unfolding framed_op_def by blast
    then have D1: "dir_ok D1 dir" "wf_fs D1" "modseq_read_counter D1 dir = modseq_read_counter D dir"
      using D steady_counter [OF f D] by (simp_all add: frame_def)
    obtain D2 where D2: "next_counter now dir D1 = (Some (modseq_read_counter D dir + 1), D2)" "modseq_read_counter D2 dir = modseq_read_counter D dir + 1"
      "frame (uid_state dir) (uid_files X dir) dir D1 D2"
      using next_counter_result [OF assms(1) D1(1, 2)] assms(3) unfolding room_def D1(3) by blast
    have d2: "dir_ok D2 dir" "wf_fs D2"
      using D2(3) D1 by (simp_all add: frame_def)
    have D': "D' = ignoring (modseq_write X now dir (mr_id m) (modseq_read_counter D dir + 1)) D2"
      using assms(2, 5) 2 D2(1) by (simp add: store_flags_def)
    have "frame (steady dir) (uid_files X dir) dir D2 D'"
      unfolding D' by (intro frame_ignoring framed_modseq_write assms(1))
    then have "modseq_read_counter D' dir = modseq_read_counter D dir + 1"
      using steady_counter [OF _ d2] D2(2) by metis
    then show ?thesis
      by (rule coherent_bumped [OF assms(4) frame_store_flags [OF assms(1, 2, 5)]])
  qed
qed

lemma io_bind_assoc: "io_bind (io_bind m f) g = io_bind m (\<lambda>x. io_bind (f x) g)"
  by (rule ext) (auto simp: io_bind_def split: prod.split option.split)

lemma io_bind_of: "io_bind (io_of (Some x)) f = f x"
  by (rule ext) (simp add: io_bind_def io_of_def)

lemma append_stages:
  assumes "uuid_ok X" "mailbox_dir dd a mb = Some dir" "mailbox_append X A now rng i dd a mb fl bs crypto D = (res, D')"
  shows "\<exists>E. frame (view_files X dir) {} dir D E \<and>
           (D' = E \<or> (\<exists>F. fs_rename (sidecar X (account_root dd a @ [''tmp'']) i ''.eml'') (sidecar X dir i ''.eml'') E = Some F \<and>
                            (D' = F \<or> write_flags X now dir i fl F = Some D')))"
proof -
  let ?td = "account_root dd a @ [''tmp'']"
  let ?tmp = "sidecar X ?td i ''.eml''"
  have tmp: "?td \<noteq> dir" "take n ?td \<noteq> in_dir dir y" for n y
    using beside_mailbox [OF assms(2), of "''tmp''"] by simp_all
  then have "?tmp \<notin> view_files X dir"
    by (auto simp: view_files_def sidecar_def steady_def uid_state_def index_path_def)
  then have f: "framed_op (view_files X dir) {} dir (create_dir_all dir)" "framed_op (view_files X dir) {} dir (create_dir_all ?td)"
    "\<And>bs. framed_op (view_files X dir) {} dir (fs_write now ?tmp bs)"
    using tmp by (auto intro!: frame_intros inside_mailbox)
  let ?stages = "io_bind (io_do (create_dir_all dir)) (\<lambda>_. io_bind (io_do (create_dir_all ?td)) (\<lambda>_.
       io_bind (io_of (crypto_encode A crypto rng bs)) (\<lambda>stored. io_do (fs_write now ?tmp stored))))"
  have "framed (view_files X dir) {} dir ?stages"
    by (intro framed_bind framed_do f framed_pure)
  then have st: "frame (view_files X dir) {} dir D (snd (?stages D))"
    unfolding framed_def by blast
  have "mailbox_append X A now rng i dd a mb fl bs crypto = io_bind ?stages (\<lambda>_.
       io_bind (io_do (fs_rename ?tmp (sidecar X dir i ''.eml''))) (\<lambda>_.
       io_bind (if fl \<noteq> [] then io_do (write_flags X now dir i fl) else io_return ()) (\<lambda>_. io_return i)))"
    by (simp only: mailbox_append_def Let_def assms(2) io_bind_assoc io_bind_of)
  moreover obtain r E where E: "?stages D = (r, E)"
    by (rule prod.exhaust)
  ultimately have whole: "(res, D') = (case r of None \<Rightarrow> (None, E) | Some _ \<Rightarrow>
       io_bind (io_do (fs_rename ?tmp (sidecar X dir i ''.eml''))) (\<lambda>_.
       io_bind (if fl \<noteq> [] then io_do (write_flags X now dir i fl) else io_return ()) (\<lambda>_. io_return i)) E)"
    using assms(3) by (simp only: io_bind_def [of ?stages] prod.case)
  have "D' = E \<or> (\<exists>F. fs_rename ?tmp (sidecar X dir i ''.eml'') E = Some F \<and> (D' = F \<or> write_flags X now dir i fl F = Some D'))"
  proof (cases r)
    case (Some u)
    then show ?thesis
    proof (cases "fs_rename ?tmp (sidecar X dir i ''.eml'') E")
      case None
      then show ?thesis
        using whole Some by (simp add: io_bind_def io_do_def)
    next
      case (Some F)
      then show ?thesis
        using whole \<open>r = Some u\<close>
        by (cases "fl = []"; cases "write_flags X now dir i fl F") (simp_all add: io_bind_def io_do_def io_return_def)
    qed
  qed (use whole in simp)
  then show ?thesis
    using st unfolding E snd_conv by blast
qed

lemma flags_not_eml: "sidecar X dir i ''.flags'' = in_dir dir n \<Longrightarrow> \<not> ends_with ''.eml'' n" "sidecar X dir i ''.flags.tmp'' = in_dir dir n \<Longrightarrow> \<not> ends_with ''.eml'' n"
  by (auto simp: sidecar_def ends_with_def starts_with_def)

lemma append_coherent:
  assumes "uuid_ok X" "mailbox_dir dd a mb = Some dir" "fs_get D (sidecar X dir i ''.eml'') = None" "coherent X crypto dir D"
    "mailbox_append X A now rng i dd a mb fl bs crypto' D = (res, D')"
  shows "coherent X crypto dir D'"
proof -
  let ?eml = "sidecar X dir i ''.eml''"
  let ?n = "uuid_show X i @ ''.eml''"
  obtain E where E: "frame (view_files X dir) {} dir D E"
    and D': "D' = E \<or> (\<exists>F. fs_rename (sidecar X (account_root dd a @ [''tmp'']) i ''.eml'') ?eml E = Some F \<and>
                             (D' = F \<or> write_flags X now dir i fl F = Some D'))"
    using append_stages [OF assms(1, 2, 5)] by blast
  have cE: "coherent X crypto dir E"
    by (rule coherent_frame [OF assms(1) E assms(4)])
  then have dE: "dir_ok E dir" "wf_fs E" "1 \<le> modseq_read_counter E dir"
    by (simp_all add: coherent_def)
  have none: "fs_get E ?eml = None"
    using E assms(3, 4) sidecar_in_view [OF assms(1), of "''.eml''" dir i] unfolding frame_def coherent_def by simp
  consider (early) "D' = E" | (renamed) F where
      "fs_rename (sidecar X (account_root dd a @ [''tmp'']) i ''.eml'') ?eml E = Some F" "D' = F \<or> write_flags X now dir i fl F = Some D'"
    using D' by blast
  then show ?thesis
  proof cases
    case early
    then show ?thesis
      using cE by simp
  next
    case renamed
    let ?Ks = "steady dir \<union> {in_dir dir n |n. ends_with ''.eml'' n}"
    have "is_ascii ?n"
      using uuid_show_chars [OF assms(1)] by (auto simp: is_ascii_def list_all_iff is_ascii_char_def)
    then have eml: "ends_with ''.eml'' ?n" "from_utf8 ?n \<noteq> None"
      by (simp_all add: from_utf8_ascii ends_with_def starts_with_def)
    have td: "butlast (sidecar X (account_root dd a @ [''tmp'']) i ''.eml'') \<noteq> dir"
      using beside_mailbox(1) [OF assms(2), of "''tmp''"] by simp
    have "framed_op (?Ks - {?eml}) {} dir (fs_rename (sidecar X (account_root dd a @ [''tmp'']) i ''.eml'') ?eml)"
      by (intro frame_intros) (use td other_dir_not_steady in \<open>auto simp: sidecar_def\<close>)
    then have fF: "frame (?Ks - {?eml}) {} dir E F" and got: "fs_get F ?eml \<noteq> None"
      using renamed(1) unfolding framed_op_def by (blast, auto simp: fs_rename_def split: if_splits option.splits)
    have "framed_op ?Ks {} dir (write_flags X now dir i fl)"
      unfolding write_flags_def
      by (intro frame_intros) (auto simp: sidecar_eq_iff assms(1) sidecar_not_steady dest: flags_not_eml)
    then have fD: "frame ?Ks {} dir F D'"
      using renamed(2) frame_refl unfolding framed_op_def by blast
    have dF: "dir_ok F dir" "wf_fs F"
      using fF dE by (simp_all add: frame_def)
    have d': "dir_ok D' dir" "wf_fs D'"
      using fD dF by (simp_all add: frame_def)
    have same: "fs_get D' p = fs_get E p" if "p \<in> ?Ks" "p \<noteq> ?eml" for p
      using fF fD dE dF that by (simp add: frame_def)
    have "fs_get D' ?eml = fs_get F ?eml"
      using fD dF eml(1) by (auto simp: frame_def sidecar_def)
    then have "fs_get D' (in_dir dir ?n) \<noteq> None"
      using got by (simp add: sidecar_def)
    moreover have "fs_get D' (in_dir dir n) = fs_get E (in_dir dir n)" if "ends_with ''.eml'' n" "n \<noteq> ?n" for n
      using that by (intro same) (auto simp: sidecar_def)
    ultimately have "n \<in> emls dir D' \<longleftrightarrow> n = ?n \<or> n \<in> emls dir E" for n
      using eml unfolding emls_def by (cases "n = ?n") auto
    then have "emls dir D' = insert ?n (emls dir E)"
      by blast
    moreover have "?n \<notin> emls dir E" "finite (emls dir E)"
      using none generation_count(2) [OF dE(1, 2)] by (simp_all add: emls_def sidecar_def)
    moreover have ctr: "modseq_read_counter D' dir = modseq_read_counter E dir"
      by (intro modseq_counter_cong same) (simp_all add: steady_def sidecar_hidden assms(1))
    ultimately have "older (current_generation E dir) (current_generation D' dir)"
      by (simp add: older_def generation_eq dE d')
    moreover have idx: "fs_get D' (index_path dir) = fs_get E (index_path dir)"
      by (intro same) (simp_all add: steady_def uid_state_def, simp add: index_path_def sidecar_hidden assms(1))
    ultimately show ?thesis
      using coherent_older [OF cE d' _ idx] dE(3) ctr by simp
  qed
qed

section \<open>The index and the scan agree\<close>

lemma step_coherent:
  assumes "uuid_ok X" "mailbox_dir dd a mb = Some dir" "mailbox_step X A crypto False dd a mb D D'" "coherent X crypto dir D"
  shows "coherent X crypto dir D'"
  using assms(3)
proof cases
  case (do_open dir' clock days now res)
  then show ?thesis
    using open_coherent(1) [OF assms(1, 2, 4)] by blast
next
  case (do_append dir' i clock rng fl bs res)
  then have "fs_get D (sidecar X dir i ''.eml'') = None"
    using assms(2) by simp
  then show ?thesis
    using append_coherent [OF assms(1, 2) _ assms(4)] do_append(3) by blast
next
  case (do_store sn clock sq fl res sn')
  then have "sn_dir sn = dir"
    using assms(2) by (simp add: opened_def)
  then show ?thesis
    using store_coherent [OF assms(1) _ _ assms(4)] do_store by blast
next
  case (do_expunge sn clock keep seqs sn')
  then have "sn_dir sn = dir" "sn_root sn = account_root dd a"
    using assms(2) by (simp_all add: opened_def)
  then show ?thesis
    using expunge_coherent [OF assms(1, 2) _ _ _ assms(4)] do_expunge by blast
next
  case (do_remove sn clock sq ok sn')
  then have "sn_dir sn = dir" "sn_root sn = account_root dd a"
    using assms(2) by (simp_all add: opened_def)
  then show ?thesis
    using remove_coherent [OF assms(1, 2) _ _ _ assms(4)] do_remove by blast
qed simp

lemma run_coherent:
  assumes "uuid_ok X" "mailbox_dir dd a mb = Some dir" "(mailbox_step X A crypto False dd a mb)\<^sup>*\<^sup>* D D'" "coherent X crypto dir D"
  shows "coherent X crypto dir D'"
  using assms(3, 4) by (induction rule: rtranclp_induct) (blast intro: step_coherent [OF assms(1, 2)])+

lemma empty_mailbox_coherent: "empty_mailbox dir D \<Longrightarrow> coherent X crypto dir D"
  by (simp add: empty_mailbox_def coherent_def modseq_read_counter_def read_number_def read_to_string_def fs_read_def index_load_def index_path_def)


lemma sample_open:
  "mailbox_step sample_mail sample_aead crypto_disabled pop [''d''] ''bob'' ''INBOX'' (with_message 7 ''hi'' sample_disk) first_open"
proof -
  have "mailbox_dir [''d''] ''bob'' ''INBOX'' = Some sample_inbox"
    by code_simp
  then show ?thesis
    unfolding first_open_def open_inbox_def
    by (rule do_open [OF _ sample_room(1) prod.collapse [symmetric]])
qed


text \<open>A removal by POP3 goes unnoticed: with one message gone and another one delivered the stamp of the index is
  current, so that a session is shown the message that is gone and not the new one.\<close>

lemma index_stale:
  "let D = with_message 9 ''ho'' (ignoring (fs_remove (sidecar sample_mail sample_inbox 7 ''.eml'')) first_open)
   in inbox_listing D = [(7, 1)] \<and> scan_ids sample_mail D sample_inbox = [9]"
  by code_simp

text \<open>The UIDs of new messages are on disk before the counter is: after a crash in between, the next message
  gets a UID that is in use.\<close>

lemma crash_duplicates_uid:
  "let D = with_message 7 ''hi'' sample_disk; (ms, E, c) = scan_loop sample_mail crypto_disabled 0 sample_inbox [7] (D, 0)
   in inbox_listing (with_message 9 ''ho'' E) = [(7, 1), (9, 1)]"
  by code_simp

section \<open>What an expunge tells the client\<close>

text \<open>A client removes the messages the untagged EXPUNGE responses name, one after the other, each number
  counting what is left by then.\<close>

definition client_expunge :: "'a list \<Rightarrow> nat list \<Rightarrow> 'a list" where
  "client_expunge ms seqs = foldl (\<lambda>ms n. take (n - 1) ms @ drop n ms) ms seqs"

lemma expunge_loop_client:
  assumes "expunge_loop X now sn keep n ms D = (kept, seqs, uids, D')" "length pre = n" "n + length ms < 2 ^ 32"
  shows "client_expunge (pre @ ms) seqs = pre @ kept \<and> kept = filter (\<lambda>m. \<not> (Deleted \<in> set (mr_flags m) \<and> keep (mr_uid m))) ms"
  using assms
proof (induction ms arbitrary: n pre D kept seqs uids)
  case Nil
  then show ?case
    by (simp add: client_expunge_def)
next
  case (Cons m ms)
  show ?case
  proof (cases "Deleted \<in> set (mr_flags m) \<and> keep (mr_uid m)")
    case True
    obtain seqs' uids' where l: "expunge_loop X now sn keep n ms (remove_files X now sn (mr_id m) D) = (kept, seqs', uids', D')"
      and s: "seqs = to_u32 (n + 1) # seqs'"
      using Cons.prems(1) True by (auto simp: Let_def split: prod.splits)
    have "to_u32 (n + 1) = n + 1"
      using Cons.prems(3) by (simp add: to_u32_def)
    then have "client_expunge (pre @ m # ms) seqs = client_expunge (pre @ ms) seqs'"
      using s Cons.prems(2) by (simp add: client_expunge_def)
    then show ?thesis
      using Cons.IH [OF l Cons.prems(2)] Cons.prems(3) True by simp
  next
    case False
    obtain kept' where l: "expunge_loop X now sn keep (n + 1) ms D = (kept', seqs, uids, D')" and k: "kept = m # kept'"
      using Cons.prems(1) False by (auto simp: Let_def split: prod.splits)
    have "client_expunge ((pre @ [m]) @ ms) seqs = (pre @ [m]) @ kept' \<and>
        kept' = filter (\<lambda>m. \<not> (Deleted \<in> set (mr_flags m) \<and> keep (mr_uid m))) ms"
      using Cons.prems(2, 3) by (intro Cons.IH [OF l]) simp_all
    then show ?thesis
      using False k by simp
  qed
qed

text \<open>C23. After an expunge, a client that follows the responses has exactly the list of messages the server
  keeps, and these are the ones that were not to be expunged, in their order.\<close>

theorem expunge_client_view:
  assumes "expunge_where X now keep sn D = (seqs, sn', D')" "length (sn_messages sn) < 2 ^ 32"
  shows "client_expunge (sn_messages sn) seqs = sn_messages sn' \<and>
         sn_messages sn' = filter (\<lambda>m. \<not> (Deleted \<in> set (mr_flags m) \<and> keep (mr_uid m))) (sn_messages sn)"
proof -
  obtain kept uids D1 where l: "expunge_loop X now sn keep 0 (sn_messages sn) D = (kept, seqs, uids, D1)" and k: "sn_messages sn' = kept"
    using assms(1) by (auto simp: expunge_where_def Let_def split: prod.splits)
  show ?thesis
    using expunge_loop_client [OF l, of "[]"] assms(2) k by simp
qed

definition sample_snapshot :: Snapshot where
  "sample_snapshot = (the (fst (open_inbox (with_message 9 ''ho'' first_open))))
     \<lparr>sn_messages := map (\<lambda>m. m\<lparr>mr_flags := if mr_id m = 7 then [Deleted] else []\<rparr>)
        (sn_messages (the (fst (open_inbox (with_message 9 ''ho'' first_open)))))\<rparr>"

theorem expunge_client_view_witness:
  "client_expunge (sn_messages sample_snapshot) (fst (expunge sample_mail 0 sample_snapshot first_open)) =
   sn_messages (fst (snd (expunge sample_mail 0 sample_snapshot first_open)))"
proof -
  have "length (sn_messages sample_snapshot) = 2"
    by code_simp
  then have "length (sn_messages sample_snapshot) < 2 ^ 32"
    by simp
  moreover obtain seqs sn' D' where "expunge_where sample_mail 0 (\<lambda>_. True) sample_snapshot first_open = (seqs, sn', D')"
    by (rule prod_cases3)
  ultimately show ?thesis
    using expunge_client_view [of sample_mail 0 "\<lambda>_. True" sample_snapshot first_open] by (simp add: expunge_def)
qed

section \<open>The UID of a new message\<close>

text \<open>\<^verbatim>\<open>appenduid\<close> opens the mailbox without the key. With encryption on it leaves an index with the sizes of the
  envelopes, and sessions that have the key then show these.\<close>

definition sample_key :: MessageCrypto where
  "sample_key = \<lparr>mc_key = Some (replicate 32 NUL), mc_enabled = True\<rparr>"

lemma appenduid_wrong_sizes:
  "let D = snd (mailbox_append sample_mail sample_aead 0 (Some (replicate 12 NUL)) 7 [''d''] ''bob'' ''INBOX'' [] ''hi'' sample_key sample_disk);
       E = snd (appenduid sample_mail (10 ^ 9) [''d''] ''bob'' ''INBOX'' 7 D);
       sizes = \<lambda>D. map mr_size (sn_messages (the (fst (snapshot_open sample_mail (10 ^ 9) [''d''] ''bob'' ''INBOX'' sample_key D))))
   in sizes D = [2] \<and> sizes E = [37]"
  by code_simp

end
