(* ===== verification/Pop3_Session.thy ===== *)
theory Pop3_Session
  imports Mail_Directory Credentials Mail_Trace
begin

text \<open>
  POP3: the command parser (\<^verbatim>\<open>pop3/command.rs\<close>) and the session machine (\<^verbatim>\<open>pop3/session.rs\<close>). The storage behind a
  session is a record of operations on a world, as the code has a trait.
\<close>

section \<open>Commands\<close>

definition POP_MAX_COMMAND_LINE :: nat where "POP_MAX_COMMAND_LINE = 512"

datatype PopCommand =
    PopUser str
  | PopPass str
  | PopStat
  | PopList "nat option"
  | PopRetr nat
  | PopDele nat
  | PopNoop
  | PopRset
  | PopQuit
  | PopUidl "nat option"
  | PopTop nat nat
  | PopCapa
  | PopAuth "str option" "str option"

datatype PopParseError = PopLineTooLong | PopInvalidCharacters | PopUnknownCommand | PopInvalidArguments

definition one_arg :: "str \<Rightarrow> str \<Rightarrow> PopParseError + str" where
  "one_arg line verb =
     (let rest = (case strip_prefix '' '' (drop (length verb) line) of Some r \<Rightarrow> r | None \<Rightarrow> []) in
      if rest = [] then Inl PopInvalidArguments else Inr rest)"

definition no_args :: "str list \<Rightarrow> PopCommand \<Rightarrow> PopParseError + PopCommand" where
  "no_args args command = (if args = [] then Inr command else Inl PopInvalidArguments)"

definition msg_arg :: "str list \<Rightarrow> PopParseError + nat" where
  "msg_arg args = (case args of [a] \<Rightarrow> ok_or PopInvalidArguments (parse_unsigned 32 a) | _ \<Rightarrow> Inl PopInvalidArguments)"

definition optional_msg :: "str list \<Rightarrow> PopParseError + nat option" where
  "optional_msg args =
     (case args of
        [] \<Rightarrow> Inr None
      | [a] \<Rightarrow> and_then (ok_or PopInvalidArguments (parse_unsigned 32 a)) (\<lambda>n. Inr (Some n))
      | _ \<Rightarrow> Inl PopInvalidArguments)"

definition top_args :: "str list \<Rightarrow> PopParseError + PopCommand" where
  "top_args args =
     (case args of
        [a, b] \<Rightarrow>
          and_then (ok_or PopInvalidArguments (parse_unsigned 32 a)) (\<lambda>n.
          and_then (ok_or PopInvalidArguments (parse_unsigned 32 b)) (\<lambda>ls. Inr (PopTop n ls)))
      | _ \<Rightarrow> Inl PopInvalidArguments)"

definition pop_parse :: "str \<Rightarrow> PopParseError + PopCommand" where
  "pop_parse line =
     (if length line > POP_MAX_COMMAND_LINE then Inl PopLineTooLong
      else if \<not> list_all printable line then Inl PopInvalidCharacters
      else
        (case filter (\<lambda>p. p \<noteq> []) (split_on (CHR '' '') line) of
           [] \<Rightarrow> Inl PopUnknownCommand
         | verb # args \<Rightarrow>
             (let v = to_ascii_uppercase verb in
              if v = ''USER'' then and_then (one_arg line ''USER'') (\<lambda>x. Inr (PopUser x))
              else if v = ''PASS'' then and_then (one_arg line ''PASS'') (\<lambda>x. Inr (PopPass x))
              else if v = ''STAT'' then no_args args PopStat
              else if v = ''LIST'' then and_then (optional_msg args) (\<lambda>x. Inr (PopList x))
              else if v = ''RETR'' then and_then (msg_arg args) (\<lambda>x. Inr (PopRetr x))
              else if v = ''DELE'' then and_then (msg_arg args) (\<lambda>x. Inr (PopDele x))
              else if v = ''NOOP'' then no_args args PopNoop
              else if v = ''RSET'' then no_args args PopRset
              else if v = ''QUIT'' then no_args args PopQuit
              else if v = ''UIDL'' then and_then (optional_msg args) (\<lambda>x. Inr (PopUidl x))
              else if v = ''TOP'' then top_args args
              else if v = ''CAPA'' then no_args args PopCapa
              else if v = ''AUTH'' then
                Inr (PopAuth (case args of [] \<Rightarrow> None | m # _ \<Rightarrow> Some (to_ascii_uppercase m))
                             (case args of _ # i # _ \<Rightarrow> Some i | _ \<Rightarrow> None))
              else Inl PopUnknownCommand)))"

section \<open>Responses\<close>

datatype Response = PopOk str | PopErr str | PopMultiline str bytes | PopBye str

text \<open>\<^verbatim>\<open>dot_stuff\<close>: the loop with its two variables.\<close>

fun dot_loop :: "bool \<Rightarrow> char \<Rightarrow> bytes \<Rightarrow> bytes" where
  "dot_loop at_line_start prev [] = []"
| "dot_loop at_line_start prev (b # bs) =
     (if at_line_start \<and> b = CHR ''.'' then ''.'' else []) @
     (if b = LF \<and> prev \<noteq> CR then [CR] else []) @ b # dot_loop (b = LF) b bs"

definition pop_dot_stuff :: "bytes \<Rightarrow> bytes" where
  "pop_dot_stuff body = dot_loop True NUL body"

fun encode_response :: "Response \<Rightarrow> bytes" where
  "encode_response (PopOk text) = ''+OK '' @ text @ crlf"
| "encode_response (PopBye text) = ''+OK '' @ text @ crlf"
| "encode_response (PopErr text) = ''-ERR '' @ text @ crlf"
| "encode_response (PopMultiline status body) = ''+OK '' @ status @ crlf @ pop_dot_stuff body @ ''.'' @ crlf"

fun is_final :: "Response \<Rightarrow> bool" where
  "is_final (PopBye _) = True"
| "is_final _ = False"

fun is_err :: "Response \<Rightarrow> bool" where
  "is_err (PopErr _) = True"
| "is_err _ = False"

section \<open>The session\<close>

record 'w Backend =
  be_verify :: "'w \<Rightarrow> str \<Rightarrow> str \<Rightarrow> str option"
  be_load :: "'w \<Rightarrow> str \<Rightarrow> (str \<times> bytes) list"
  be_remove :: "str \<Rightarrow> str list \<Rightarrow> 'w \<Rightarrow> 'w"

datatype PopState = Authorization | Transaction

record PopMessage =
  pm_uid :: str
  pm_data :: bytes
  pm_deleted :: bool

record PopSession =
  ps_state :: PopState
  ps_user :: "str option"
  ps_account :: "str option"
  ps_messages :: "PopMessage list"

definition new_pop :: PopSession where
  "new_pop = \<lparr>ps_state = Authorization, ps_user = None, ps_account = None, ps_messages = []\<rparr>"

definition pop_greeting :: Response where
  "pop_greeting = PopOk ''POP3 ready''"

definition live_message :: "PopSession \<Rightarrow> nat \<Rightarrow> nat option" where
  "live_message s number =
     (if number = 0 then None
      else if number - 1 < length (ps_messages s) \<and> \<not> pm_deleted (ps_messages s ! (number - 1)) then Some (number - 1)
      else None)"

definition with_pop_message :: "PopSession \<Rightarrow> nat \<Rightarrow> (nat \<Rightarrow> PopMessage \<Rightarrow> Response) \<Rightarrow> Response" where
  "with_pop_message s number f =
     (case live_message s number of Some i \<Rightarrow> f i (ps_messages s ! i) | None \<Rightarrow> PopErr ''no such message'')"

definition pop_delete :: "PopSession \<Rightarrow> nat \<Rightarrow> Response \<times> PopSession" where
  "pop_delete s number =
     (case live_message s number of
        Some i \<Rightarrow> (PopOk (''message '' @ show_nat number @ '' deleted''),
                  s\<lparr>ps_messages := (ps_messages s)[i := (ps_messages s ! i)\<lparr>pm_deleted := True\<rparr>]\<rparr>)
      | None \<Rightarrow> (PopErr ''no such message'', s))"

definition live_count :: "PopSession \<Rightarrow> nat" where
  "live_count s = length (filter (\<lambda>m. \<not> pm_deleted m) (ps_messages s))"

definition totals :: "PopSession \<Rightarrow> nat \<times> nat" where
  "totals s = foldl (\<lambda>(c, n) m. (c + 1, n + length (pm_data m))) (0, 0) (filter (\<lambda>m. \<not> pm_deleted m) (ps_messages s))"

definition scan_list :: "PopSession \<Rightarrow> (nat \<Rightarrow> PopMessage \<Rightarrow> str) \<Rightarrow> bytes" where
  "scan_list s f = concat (map (\<lambda>(i, m). if pm_deleted m then [] else f i m) (List.enumerate 0 (ps_messages s)))"

definition find_header_end :: "bytes \<Rightarrow> nat" where
  "find_header_end data =
     (case find_str (crlf @ crlf) data of
        Some pos \<Rightarrow> pos + 4
      | None \<Rightarrow> (case find_str [LF, LF] data of Some pos \<Rightarrow> pos + 2 | None \<Rightarrow> length data))"

definition top_of :: "bytes \<Rightarrow> nat \<Rightarrow> bytes" where
  "top_of data n =
     (let split = find_header_end data in
      take split data @ concat (take n (split_inclusive LF (drop split data))))"

definition pop_capabilities :: Response where
  "pop_capabilities =
     PopMultiline ''capability list follows'' (''USER'' @ crlf @ ''UIDL'' @ crlf @ ''TOP'' @ crlf @ ''SASL PLAIN'' @ crlf)"

definition complete_login :: "'w Backend \<Rightarrow> 'w \<Rightarrow> PopSession \<Rightarrow> str \<Rightarrow> Response \<times> PopSession" where
  "complete_login B w s account =
     (let ms = map (\<lambda>(uid, data). \<lparr>pm_uid = uid, pm_data = data, pm_deleted = False\<rparr>) (be_load B w account) in
      (PopOk (''mailbox ready, '' @ show_nat (length ms) @ '' messages''),
       s\<lparr>ps_messages := ms, ps_account := Some account, ps_state := Transaction\<rparr>))"

definition pop_login :: "'w Backend \<Rightarrow> 'w \<Rightarrow> PopSession \<Rightarrow> str \<Rightarrow> str \<Rightarrow> Response \<times> PopSession" where
  "pop_login B w s user pass =
     (case be_verify B w user pass of
        Some account \<Rightarrow> complete_login B w s account
      | None \<Rightarrow> (PopErr ''authentication failed'', s\<lparr>ps_user := None\<rparr>))"

definition pop_auth :: "crates \<Rightarrow> 'w Backend \<Rightarrow> 'w \<Rightarrow> PopSession \<Rightarrow> str option \<Rightarrow> str option \<Rightarrow> Response \<times> PopSession" where
  "pop_auth K B w s mechanism initial =
     (case mechanism of
        None \<Rightarrow> (PopMultiline ''mechanism list follows'' (''PLAIN'' @ crlf), s)
      | Some m \<Rightarrow>
          if m \<noteq> ''PLAIN'' then (PopErr ''unsupported SASL mechanism'', s)
          else
            (case Option.bind initial (\<lambda>encoded.
                    case parse_plain K encoded of
                      Inl _ \<Rightarrow> None
                    | Inr creds \<Rightarrow> be_verify B w (authcid creds) (PlainCredentials.password creds)) of
               Some account \<Rightarrow> complete_login B w s account
             | None \<Rightarrow> (PopErr ''authentication failed'', s)))"

fun authorization :: "crates \<Rightarrow> 'w Backend \<Rightarrow> 'w \<Rightarrow> PopSession \<Rightarrow> PopCommand \<Rightarrow> Response \<times> PopSession" where
  "authorization K B w s (PopUser name) = (PopOk ''send PASS'', s\<lparr>ps_user := Some name\<rparr>)"
| "authorization K B w s (PopPass pass) =
     (case ps_user s of
        None \<Rightarrow> (PopErr ''USER required first'', s)
      | Some user \<Rightarrow> pop_login B w s user pass)"
| "authorization K B w s (PopAuth mechanism initial) = pop_auth K B w s mechanism initial"
| "authorization K B w s PopCapa = (pop_capabilities, s)"
| "authorization K B w s PopQuit = (PopBye ''bye'', s)"
| "authorization K B w s _ = (PopErr ''authenticate first'', s)"

fun transaction :: "'w Backend \<Rightarrow> PopSession \<Rightarrow> PopCommand \<Rightarrow> 'w \<Rightarrow> Response \<times> PopSession \<times> 'w" where
  "transaction B s PopStat w = (let (count, octets) = totals s in (PopOk (show_nat count @ '' '' @ show_nat octets), s, w))"
| "transaction B s (PopList None) w =
     (PopMultiline (show_nat (live_count s) @ '' messages'')
        (scan_list s (\<lambda>i m. show_nat (i + 1) @ '' '' @ show_nat (length (pm_data m)) @ crlf)), s, w)"
| "transaction B s (PopList (Some n)) w =
     (with_pop_message s n (\<lambda>i m. PopOk (show_nat (i + 1) @ '' '' @ show_nat (length (pm_data m)))), s, w)"
| "transaction B s (PopUidl None) w =
     (PopMultiline ''unique-id listing'' (scan_list s (\<lambda>i m. show_nat (i + 1) @ '' '' @ pm_uid m @ crlf)), s, w)"
| "transaction B s (PopUidl (Some n)) w =
     (with_pop_message s n (\<lambda>i m. PopOk (show_nat (i + 1) @ '' '' @ pm_uid m)), s, w)"
| "transaction B s (PopRetr n) w =
     (with_pop_message s n (\<lambda>_ m. PopMultiline (show_nat (length (pm_data m)) @ '' octets'') (pm_data m)), s, w)"
| "transaction B s (PopTop n ls) w =
     (with_pop_message s n (\<lambda>_ m. PopMultiline ''top'' (top_of (pm_data m) ls)), s, w)"
| "transaction B s (PopDele n) w = (let (r, s') = pop_delete s n in (r, s', w))"
| "transaction B s PopRset w =
     (let s' = s\<lparr>ps_messages := map (pm_deleted_update (\<lambda>_. False)) (ps_messages s)\<rparr> in
      (PopOk (show_nat (live_count s') @ '' messages''), s', w))"
| "transaction B s PopNoop w = (PopOk [], s, w)"
| "transaction B s PopCapa w = (pop_capabilities, s, w)"
| "transaction B s PopQuit w =
     (let removed = map pm_uid (filter pm_deleted (ps_messages s)) in
      (PopBye ''bye'', s,
       case ps_account s of Some account \<Rightarrow> if removed = [] then w else be_remove B account removed w | None \<Rightarrow> w))"
| "transaction B s (PopUser _) w = (PopErr ''already authenticated'', s, w)"
| "transaction B s (PopPass _) w = (PopErr ''already authenticated'', s, w)"
| "transaction B s (PopAuth _ _) w = (PopErr ''already authenticated'', s, w)"

definition pop_handle :: "crates \<Rightarrow> 'w Backend \<Rightarrow> PopSession \<Rightarrow> PopCommand \<Rightarrow> 'w \<Rightarrow> Response \<times> PopSession \<times> 'w" where
  "pop_handle K B s command w =
     (case ps_state s of
        Authorization \<Rightarrow> (let (r, s') = authorization K B w s command in (r, s', w))
      | Transaction \<Rightarrow> transaction B s command w)"

section \<open>Reading a response\<close>

lemma find_str_bound: "find_str p s = Some i \<Longrightarrow> i + length p \<le> length s"
proof (induction s arbitrary: i)
  case (Cons x s)
  have "length p \<le> length (x # s)" if "starts_with p (x # s)"
    using that unfolding starts_with_iff by (metis le_add1 length_append)
  then show ?case
    using Cons by (auto split: if_splits)
qed (auto split: if_splits)

text \<open>A client after RFC 1939: a status line, then lines up to a line with a single dot, with the leading dot of the
  others taken off.\<close>

function read_dotted :: "bytes \<Rightarrow> (bytes \<times> bytes) option" where
  "read_dotted s =
     (case split_once_str crlf s of
        None \<Rightarrow> None
      | Some (l, r) \<Rightarrow>
          if l = ''.'' then Some ([], r)
          else map_option (\<lambda>(b, t). ((if starts_with ''.'' l then tl l else l) @ crlf @ b, t)) (read_dotted r))"
  by pat_completeness auto
termination
  by (relation "measure length") (auto simp: split_once_str_def crlf_def dest: find_str_bound)

declare read_dotted.simps [simp del]

definition read_multiline :: "bytes \<Rightarrow> (str \<times> bytes \<times> bytes) option" where
  "read_multiline s =
     Option.bind (split_once_str crlf s) (\<lambda>(status, r).
     Option.bind (strip_prefix ''+OK '' status) (\<lambda>text. map_option (\<lambda>(b, t). (text, b, t)) (read_dotted r)))"

text \<open>A body with its line ends written as CRLF.\<close>

fun with_crlf :: "char \<Rightarrow> bytes \<Rightarrow> bytes" where
  "with_crlf prev [] = []"
| "with_crlf prev (b # bs) = (if b = LF \<and> prev \<noteq> CR then [CR] else []) @ b # with_crlf b bs"

text \<open>A line without its CR, if it ends in one.\<close>

definition chomp :: "bytes \<Rightarrow> bytes" where
  "chomp l = (if l \<noteq> [] \<and> last l = CR then butlast l else l)"

lemma split_crlf: "LF \<notin> set l \<Longrightarrow> split_once_str crlf (l @ crlf @ r) = Some (l, r)"
proof -
  assume "LF \<notin> set l"
  then have "find_str crlf (l @ CR # LF # r) = Some (length l)"
  proof (induction l)
    case (Cons x l)
    then have "\<not> starts_with crlf (x # l @ CR # LF # r)"
      by (cases l) (auto simp: crlf_def starts_with_def)
    then show ?case
      using Cons by simp
  qed (simp add: crlf_def starts_with_def)
  then show ?thesis
    by (simp add: split_once_str_def crlf_def)
qed

lemma chomp_crlf: "chomp l @ crlf = l @ (if l \<noteq> [] \<and> last l = CR then [LF] else crlf)"
  by (cases l rule: rev_cases) (auto simp: chomp_def crlf_def)

lemma dot_tail: "LF \<notin> set l \<Longrightarrow> dot_loop False p (l @ LF # bs) = l @ (if last (p # l) = CR then [] else [CR]) @ LF # dot_loop True LF bs"
  by (induction l arbitrary: p) auto

lemma dot_line:
  assumes "p \<noteq> CR" "LF \<notin> set l"
  shows "dot_loop True p (l @ LF # bs) = (if starts_with ''.'' l then ''.'' else []) @ chomp l @ crlf @ dot_loop True LF bs"
proof -
  have "dot_loop True p (l @ LF # bs) = (if starts_with ''.'' l then ''.'' else []) @ (chomp l @ crlf) @ dot_loop True LF bs"
    unfolding chomp_crlf using assms dot_tail [of "tl l" "hd l" bs] by (cases l) (auto simp: starts_with_def crlf_def)
  then show ?thesis
    by simp
qed

lemma crlf_tail: "LF \<notin> set l \<Longrightarrow> with_crlf p (l @ LF # bs) = l @ (if last (p # l) = CR then [] else [CR]) @ LF # with_crlf LF bs"
  by (induction l arbitrary: p) auto

lemma crlf_line:
  assumes "p \<noteq> CR" "LF \<notin> set l"
  shows "with_crlf p (l @ LF # bs) = chomp l @ crlf @ with_crlf LF bs"
proof -
  have "with_crlf p (l @ LF # bs) = (chomp l @ crlf) @ with_crlf LF bs"
    unfolding chomp_crlf crlf_tail [OF assms(2)] using assms(1) by (cases l) (auto simp: crlf_def)
  then show ?thesis
    by simp
qed

lemma read_line:
  assumes "LF \<notin> set l"
  shows "read_dotted ((if starts_with ''.'' l then ''.'' else []) @ chomp l @ crlf @ r) =
           map_option (\<lambda>(b, t). (chomp l @ crlf @ b, t)) (read_dotted r)"
proof -
  let ?s = "(if starts_with ''.'' l then ''.'' else []) @ chomp l"
  have "LF \<notin> set ?s"
    using assms by (auto simp: chomp_def dest: in_set_butlastD)
  moreover have "starts_with ''.'' (chomp l) \<longleftrightarrow> starts_with ''.'' l"
    by (cases l rule: rev_cases; cases "butlast l") (auto simp: chomp_def starts_with_def)
  ultimately show ?thesis
    using split_crlf [of ?s r] by (subst read_dotted.simps) (cases "chomp l"; auto simp: starts_with_def split: if_splits)
qed

lemma read_dot_loop:
  assumes "p \<noteq> CR" "body = [] \<or> last body = LF"
  shows "read_dotted (dot_loop True p body @ ''.'' @ crlf @ rest) = Some (with_crlf p body, rest)"
  using assms
proof (induction "length body" arbitrary: body p rule: less_induct)
  case less
  show ?case
  proof (cases "body = []")
    case True
    then show ?thesis
      using split_crlf [of "''.''" rest] by (simp add: read_dotted.simps)
  next
    case False
    then have "LF \<in> set body"
      using less.prems(2) last_in_set by metis
    then obtain l bs where b: "body = l @ LF # bs" "LF \<notin> set l"
      by (metis split_list_first)
    have "read_dotted (dot_loop True LF bs @ ''.'' @ crlf @ rest) = Some (with_crlf LF bs, rest)"
      using less.prems(2) b by (intro less.hyps) (auto split: if_splits)
    then show ?thesis
      using read_line [OF b(2), of "dot_loop True LF bs @ ''.'' @ crlf @ rest"] unfolding b(1) dot_line [OF less.prems(1) b(2)] crlf_line [OF less.prems(1) b(2)]
      by simp
  qed
qed

lemma read_dot_loop_open:
  assumes "p \<noteq> CR" "body \<noteq> []" "last body \<noteq> LF"
  shows "read_dotted (dot_loop True p body @ ''.'' @ crlf) = None"
  using assms
proof (induction "length body" arbitrary: body p rule: less_induct)
  case less
  have none: "read_dotted [] = None"
    by (simp add: read_dotted.simps split_once_str_def crlf_def)
  show ?case
  proof (cases "LF \<in> set body")
    case False
    have out: "dot_loop q x l = (if q \<and> starts_with ''.'' l then ''.'' else []) @ l" if "LF \<notin> set l" for q x l
      using that by (induction l arbitrary: q x) (auto simp: starts_with_def)
    let ?s = "dot_loop True p body @ ''.''"
    have "LF \<notin> set ?s" "?s \<noteq> ''.''"
      using False less.prems(2) by (auto simp: out)
    then show ?thesis
      using split_crlf [of ?s "[]"] none by (subst read_dotted.simps) (simp split: if_splits)
  next
    case True
    then obtain l bs where b: "body = l @ LF # bs" "LF \<notin> set l"
      by (metis split_list_first)
    have "read_dotted (dot_loop True LF bs @ ''.'' @ crlf) = None"
      using less.prems(3) b by (intro less.hyps) (auto split: if_splits)
    then show ?thesis
      using read_line [OF b(2), of "dot_loop True LF bs @ ''.'' @ crlf"] unfolding b(1) dot_line [OF less.prems(1) b(2)] by simp
  qed
qed

lemma read_encoded:
  assumes "LF \<notin> set status"
  shows "read_multiline (encode_response (PopMultiline status body) @ rest) =
           map_option (\<lambda>(b, t). (status, b, t)) (read_dotted (dot_loop True NUL body @ ''.'' @ crlf @ rest))"
  using split_crlf [of "''+OK '' @ status" "dot_loop True NUL body @ ''.'' @ crlf @ rest"] assms
  by (simp add: read_multiline_def pop_dot_stuff_def)

lemma show_nat_no_LF: "LF \<notin> set (show_nat n)"
  using show_nat_digits [of n] by (auto simp: list_all_iff ascii_simps)

text \<open>C22. What RETR sends is read back as the message: a client takes the status line and the lines up to the single
  dot off the stream, and has the message with its line ends written as CRLF, for every message that ends in a line
  end, whatever dots its lines start with.\<close>

theorem pop3_retr_roundtrip:
  assumes "live_message s n = Some i" "pm_data (ps_messages s ! i) = body" "body = [] \<or> last body = LF"
  shows "read_multiline (encode_response (fst (transaction B s (PopRetr n) w)) @ rest) =
           Some (show_nat (length body) @ '' octets'', with_crlf NUL body, rest)"
proof -
  have "LF \<notin> set (show_nat (length body) @ '' octets'')"
    using show_nat_no_LF by simp
  then have "read_multiline (encode_response (PopMultiline (show_nat (length body) @ '' octets'') body) @ rest) =
      Some (show_nat (length body) @ '' octets'', with_crlf NUL body, rest)"
    using read_dot_loop [OF _ assms(3), of NUL rest] unfolding read_encoded [OF \<open>LF \<notin> _\<close>] by simp
  then show ?thesis
    using assms(1, 2) by (simp only: transaction.simps with_pop_message_def option.case fst_conv)
qed

definition sample_pop :: PopSession where
  "sample_pop = \<lparr>ps_state = Transaction, ps_user = Some ''bob'', ps_account = Some ''bob'',
     ps_messages = [\<lparr>pm_uid = ''7'', pm_data = ''A: b'' @ [LF, LF] @ ''.x'' @ [LF], pm_deleted = False\<rparr>]\<rparr>"

definition empty_backend :: "unit Backend" where
  "empty_backend = \<lparr>be_verify = \<lambda>_ _ _. None, be_load = \<lambda>_ _. [], be_remove = \<lambda>_ _ w. w\<rparr>"

theorem pop3_retr_roundtrip_witness:
  "read_multiline (encode_response (fst (transaction empty_backend sample_pop (PopRetr 1) ()))) =
     Some (''9 octets'', ''A: b'' @ crlf @ crlf @ ''.x'' @ crlf, [])"
proof -
  have "live_message sample_pop 1 = Some 0" "pm_data (ps_messages sample_pop ! 0) = ''A: b'' @ [LF, LF] @ ''.x'' @ [LF]"
    by code_simp+
  moreover have "show_nat (length (''A: b'' @ [LF, LF] @ ''.x'' @ [LF])) @ '' octets'' = ''9 octets''"
    "with_crlf NUL (''A: b'' @ [LF, LF] @ ''.x'' @ [LF]) = ''A: b'' @ crlf @ crlf @ ''.x'' @ crlf"
    by code_simp+
  ultimately show ?thesis
    using pop3_retr_roundtrip [of sample_pop 1 0 "''A: b'' @ [LF, LF] @ ''.x'' @ [LF]" empty_backend "()" "[]"] by (simp only: append_Nil2) simp
qed

text \<open>A message that does not end in a line end makes the client wait for the end of the response: the dot that should
  end it is glued to the last line.\<close>

lemma pop3_unterminated:
  assumes "LF \<notin> set status" "body \<noteq> []" "last body \<noteq> LF"
  shows "read_multiline (encode_response (PopMultiline status body)) = None"
  using read_encoded [OF assms(1), of body "[]"] read_dot_loop_open [OF _ assms(2, 3), of NUL] by simp

section \<open>A session\<close>

fun pop_run :: "crates \<Rightarrow> 'w Backend \<Rightarrow> PopSession \<Rightarrow> PopCommand list \<Rightarrow> 'w \<Rightarrow> Response list \<times> PopSession \<times> 'w" where
  "pop_run K B s [] w = ([], s, w)"
| "pop_run K B s (c # cs) w =
     (let (r, s', w') = pop_handle K B s c w; (rs, s'', w'') = pop_run K B s' cs w' in (r # rs, s'', w''))"

text \<open>The messages that are marked after some commands, by their place in a mailbox of \<open>n\<close> messages.\<close>

fun marks :: "nat \<Rightarrow> nat set \<Rightarrow> PopCommand list \<Rightarrow> nat set" where
  "marks n M [] = M"
| "marks n M (c # cs) =
     marks n (case c of PopDele k \<Rightarrow> if 1 \<le> k \<and> k \<le> n then insert (k - 1) M else M | PopRset \<Rightarrow> {} | _ \<Rightarrow> M) cs"

text \<open>What a session needs of the storage behind it.\<close>

locale pop_store =
  fixes B :: "'w Backend" and ok :: "'w \<Rightarrow> bool"
  assumes uids_distinct: "ok w \<Longrightarrow> distinct (map fst (be_load B w a))"
    and load_removed: "ok w \<Longrightarrow> be_load B (be_remove B a us w) a = filter (\<lambda>(u, _). u \<notin> set us) (be_load B w a)"
    and load_other: "ok w \<Longrightarrow> a' \<noteq> a \<Longrightarrow> be_load B (be_remove B a us w) a' = be_load B w a'"
    and ok_removed: "ok w \<Longrightarrow> ok (be_remove B a us w)"

lemma filter_not_marked:
  "distinct (map fst ls) \<Longrightarrow> filter (\<lambda>(u, _). u \<notin> set (map fst (nths ls M))) ls = nths ls (- M)"
proof (induction ls arbitrary: M)
  case (Cons x ls)
  let ?M = "{j. Suc j \<in> M}"
  have M: "{j. Suc j \<notin> M} = - ?M"
    by auto
  have "set (map fst (nths ls ?M)) \<subseteq> fst ` set ls"
    using set_nths_subset [of ls ?M] by auto
  then have x: "fst x \<in> set (map fst (nths (x # ls) M)) \<longleftrightarrow> 0 \<in> M"
    using Cons.prems by (auto simp: nths_Cons)
  have "filter (\<lambda>(u, _). u \<notin> set (map fst (nths (x # ls) M))) ls = filter (\<lambda>(u, _). u \<notin> set (map fst (nths ls ?M))) ls"
    using Cons.prems by (intro filter_cong) (auto simp: nths_Cons image_iff)
  also have "\<dots> = nths ls (- ?M)"
    using Cons by simp
  finally show ?case
    using x by (cases x) (auto simp: nths_Cons M)
qed simp

definition marked :: "nat set \<Rightarrow> (str \<times> bytes) list \<Rightarrow> PopMessage list" where
  "marked M ls = map (\<lambda>((u, d), i). \<lparr>pm_uid = u, pm_data = d, pm_deleted = i \<in> M\<rparr>) (zip ls [0..<length ls])"

lemma marked_nth: "i < length ls \<Longrightarrow> marked M ls ! i = \<lparr>pm_uid = fst (ls ! i), pm_data = snd (ls ! i), pm_deleted = i \<in> M\<rparr>"
  by (simp add: marked_def split_def)

lemma length_marked [simp]: "length (marked M ls) = length ls"
  by (simp add: marked_def)

lemma marked_deleted: "map pm_uid (filter pm_deleted (marked M ls)) = map fst (nths ls M)"
  by (simp add: marked_def nths_def filter_map comp_def split_def)

lemma marked_insert: "i < length ls \<Longrightarrow> (marked M ls)[i := (marked M ls ! i)\<lparr>pm_deleted := True\<rparr>] = marked (insert i M) ls"
  by (rule nth_equalityI) (auto simp: marked_nth nth_list_update)

lemma marked_clear: "map (pm_deleted_update (\<lambda>_. False)) (marked M ls) = marked {} ls"
  by (rule nth_equalityI) (auto simp: marked_nth)

lemma marked_new: "map (\<lambda>(u, d). \<lparr>pm_uid = u, pm_data = d, pm_deleted = False\<rparr>) ls = marked {} ls"
  by (rule nth_equalityI) (auto simp: marked_nth split_def)

definition serving :: "str \<Rightarrow> (str \<times> bytes) list \<Rightarrow> nat set \<Rightarrow> PopSession \<Rightarrow> bool" where
  "serving a ls M s \<longleftrightarrow> ps_state s = Transaction \<and> ps_account s = Some a \<and> ps_messages s = marked M ls"

lemma delete_marked:
  assumes "serving a ls M s"
  shows "serving a ls (if 1 \<le> k \<and> k \<le> length ls then insert (k - 1) M else M) (snd (pop_delete s k))"
proof -
  have live: "live_message s k = (if 1 \<le> k \<and> k \<le> length ls \<and> k - 1 \<notin> M then Some (k - 1) else None)"
    using assms by (auto simp: serving_def live_message_def marked_nth)
  show ?thesis
    using assms marked_insert [of "k - 1" ls M] unfolding pop_delete_def live by (auto simp: serving_def insert_absorb)
qed

lemma handle_marked:
  assumes "serving a ls M s" "c \<noteq> PopQuit" "pop_handle K B s c w = (r, s', w')"
  shows "w' = w \<and> serving a ls (marks (length ls) M [c]) s'"
proof -
  have t: "transaction B s c w = (r, s', w')"
    using assms(1, 3) by (simp add: pop_handle_def serving_def)
  show ?thesis
  proof (cases c)
    case (PopDele k)
    then show ?thesis
      using t delete_marked [OF assms(1), of k] by (auto simp: split_def Let_def)
  next
    case PopRset
    then show ?thesis
      using t assms(1) marked_clear by (auto simp: serving_def Let_def)
  next
    case (PopList x)
    then show ?thesis
      using t assms(1) by (cases x) auto
  next
    case (PopUidl x)
    then show ?thesis
      using t assms(1) by (cases x) auto
  qed (use t assms(1, 2) in \<open>auto simp: split_def Let_def\<close>)
qed

lemma marks_append: "marks n M (cs @ ds) = marks n (marks n M cs) ds"
  by (induction cs arbitrary: M) auto

lemma run_marked:
  assumes "serving a ls M s" "PopQuit \<notin> set cs" "pop_run K B s cs w = (rs, s', w')"
  shows "w' = w \<and> serving a ls (marks (length ls) M cs) s'"
  using assms
proof (induction cs arbitrary: s M w rs)
  case (Cons c cs)
  obtain r s1 w1 where h: "pop_handle K B s c w = (r, s1, w1)"
    by (rule prod_cases3)
  obtain rs' where t: "pop_run K B s1 cs w1 = (rs', s', w')"
    using Cons.prems(3) h by (cases "pop_run K B s1 cs w1") auto
  have "w1 = w" "serving a ls (marks (length ls) M [c]) s1"
    using handle_marked [OF Cons.prems(1) _ h] Cons.prems(2) by auto
  then show ?case
    using Cons.IH [OF _ _ t] Cons.prems(2) marks_append [of "length ls" M "[c]" cs] by auto
qed simp

lemma pop_run_append:
  "pop_run K B s (cs @ ds) w =
     (let (rs, s', w') = pop_run K B s cs w; (rs', s'', w'') = pop_run K B s' ds w' in (rs @ rs', s'', w''))"
  by (induction cs arbitrary: s w) (auto simp: split_def Let_def)

context pop_store
begin

lemma session_commits:
  assumes "ok w" "be_verify B w user pass = Some a" "PopQuit \<notin> set cs"
    "pop_run K B new_pop (PopUser user # PopPass pass # cs @ [PopQuit]) w = (rs, s, w')"
  shows "be_load B w' a = nths (be_load B w a) (- marks (length (be_load B w a)) {} cs) \<and>
         (\<forall>a'. a' \<noteq> a \<longrightarrow> be_load B w' a' = be_load B w a') \<and> ok w'"
proof -
  let ?ls = "be_load B w a"
  define s0 where "s0 = snd (complete_login B w (new_pop\<lparr>ps_user := Some user\<rparr>) a)"
  have s0: "serving a ?ls {} s0"
    by (simp add: s0_def complete_login_def Let_def serving_def marked_new)
  obtain rs1 s1 w1 where r: "pop_run K B s0 cs w = (rs1, s1, w1)"
    by (rule prod_cases3)
  have m: "w1 = w" "serving a ?ls (marks (length ?ls) {} cs) s1"
    using run_marked [OF s0 assms(3) r] by auto
  let ?removed = "map fst (nths ?ls (marks (length ?ls) {} cs))"
  obtain r0 where "pop_handle K B new_pop (PopUser user) w = (PopOk ''send PASS'', new_pop\<lparr>ps_user := Some user\<rparr>, w)"
    "pop_handle K B (new_pop\<lparr>ps_user := Some user\<rparr>) (PopPass pass) w = (r0, s0, w)"
    using assms(2) by (simp add: pop_handle_def new_pop_def pop_login_def s0_def complete_login_def Let_def)
  moreover obtain r1 s2 w2 where q: "pop_handle K B s1 PopQuit w = (r1, s2, w2)"
    by (rule prod_cases3)
  ultimately have "w' = snd (snd (pop_handle K B s1 PopQuit w))"
    using assms(4) r m(1) pop_run_append [of K B s0 cs "[PopQuit]" w] by simp
  then have w': "w' = (if ?removed = [] then w else be_remove B a ?removed w)"
    using m(2) by (simp add: pop_handle_def serving_def Let_def marked_deleted)
  have kept: "filter (\<lambda>(u, _). u \<notin> set ?removed) ?ls = nths ?ls (- marks (length ?ls) {} cs)"
    by (rule filter_not_marked [OF uids_distinct [OF assms(1)]])
  show ?thesis
  proof (cases "?removed = []")
    case True
    then have "nths ?ls (- marks (length ?ls) {} cs) = ?ls"
      using kept by (simp only: True list.set) simp
    then show ?thesis
      using True assms(1) unfolding w' by simp
  next
    case False
    then show ?thesis
      using load_removed [OF assms(1), of a ?removed] kept load_other [OF assms(1)] ok_removed [OF assms(1)] unfolding w' by simp
  qed
qed

end

end
