(* ===== verification/Pop3_Server.thy ===== *)
theory Pop3_Server
  imports Pop3_Session Mailbox_Steps Net_Stream "HOL-Library.List_Lexorder" "HOL-Library.Char_ord"
begin

text \<open>
  POP3 on the mailbox store: the storage backend (\<^verbatim>\<open>pop3/backend.rs\<close>) and the connection loop
  (\<^verbatim>\<open>pop3/server.rs\<close>).
\<close>

section \<open>The backend\<close>

text \<open>What a connection shares with the rest of the server: the directory, which a reload may replace, and the
  disk.\<close>

record PopWorld =
  pw_directory :: Directory
  pw_disk :: fs

record MailboxBackend =
  mb_data_dir :: path
  mb_crypto :: MessageCrypto

definition new_with_crypto :: "path \<Rightarrow> MessageCrypto \<Rightarrow> MailboxBackend" where
  "new_with_crypto data_dir crypto = \<lparr>mb_data_dir = data_dir, mb_crypto = crypto\<rparr>"

definition new_backend :: "path \<Rightarrow> MailboxBackend" where
  "new_backend data_dir = new_with_crypto data_dir crypto_disabled"

definition pop_verify :: "crates \<Rightarrow> Directory \<Rightarrow> str \<Rightarrow> str \<Rightarrow> str option" where
  "pop_verify K d user pass =
     (case credentials K d user of
        None \<Rightarrow> None
      | Some (account, hash) \<Rightarrow>
          if verify_password K hash pass \<and> is_protocol_allowed d account Pop3s then Some account else None)"

definition pop_load :: "aead \<Rightarrow> MailboxBackend \<Rightarrow> fs \<Rightarrow> str \<Rightarrow> (str \<times> bytes) list" where
  "pop_load A b D account =
     (case mailbox_dir (mb_data_dir b) account ''INBOX'' of
        None \<Rightarrow> []
      | Some dir \<Rightarrow>
          (let stems = sort (case read_dir D dir of
                               Some names \<Rightarrow> List.map_filter (\<lambda>n. Option.bind (from_utf8 n) (strip_suffix ''.eml'')) names
                             | None \<Rightarrow> [])
           in List.map_filter (\<lambda>stem.
                Option.bind (fs_read D (in_dir dir (stem @ ''.eml''))) (\<lambda>stored.
                map_option (Pair stem) (crypto_decode A (mb_crypto b) stored))) stems))"

definition pop_remove :: "MailboxBackend \<Rightarrow> str \<Rightarrow> str list \<Rightarrow> fs \<Rightarrow> fs" where
  "pop_remove b account uids D =
     (case mailbox_dir (mb_data_dir b) account ''INBOX'' of
        None \<Rightarrow> D
      | Some dir \<Rightarrow> foldl (\<lambda>D uid. ignoring (fs_remove (in_dir dir (uid @ ''.eml''))) D) D uids)"

definition mailbox_backend :: "crates \<Rightarrow> aead \<Rightarrow> MailboxBackend \<Rightarrow> PopWorld Backend" where
  "mailbox_backend K A b =
     \<lparr>be_verify = \<lambda>w. pop_verify K (pw_directory w),
      be_load = \<lambda>w. pop_load A b (pw_disk w),
      be_remove = \<lambda>account uids w. w\<lparr>pw_disk := pop_remove b account uids (pw_disk w)\<rparr>\<rparr>"

section \<open>The connection loop\<close>

definition POP_MAX_ERROR_STREAK :: nat where "POP_MAX_ERROR_STREAK = 20"

definition pop_response :: "crates \<Rightarrow> 'w Backend \<Rightarrow> PopSession \<Rightarrow> bytes \<Rightarrow> 'w \<Rightarrow> Response \<times> PopSession \<times> 'w" where
  "pop_response K B s line w =
     (case from_utf8 line of
        None \<Rightarrow> (PopErr ''non-ASCII command'', s, w)
      | Some text \<Rightarrow>
          (case pop_parse (rev (dropWhile (\<lambda>c. c = CR \<or> c = LF) (rev text))) of
             Inr command \<Rightarrow> pop_handle K B s command w
           | Inl _ \<Rightarrow> (PopErr ''invalid command'', s, w)))"

function pop_loop ::
  "crates \<Rightarrow> 'w Backend \<Rightarrow> PopSession \<Rightarrow> LineDecoder \<Rightarrow> nat \<Rightarrow> NetEvent list \<Rightarrow> 'w \<Rightarrow> Response list \<times> Ending \<times> 'w" where
  "pop_loop K B s d error_streak es w =
     (case next_line d of
        (Inl _, d) \<Rightarrow> ([PopErr ''line too long''], Ended, w)
      | (Inr None, d) \<Rightarrow>
          (case es of
             [] \<Rightarrow> ([], Lost, w)
           | e # es' \<Rightarrow>
               (case e of
                  Rd bs \<Rightarrow> if bs = [] then ([], Ended, w) else pop_loop K B s (feed d bs) error_streak es' w
                | ReadTimeout \<Rightarrow> ([], Ended, w)
                | ReadError \<Rightarrow> ([], IoError, w)
                | _ \<Rightarrow> ([], Lost, w)))
      | (Inr (Some line), d) \<Rightarrow>
          (let (r, s', w') = pop_response K B s line w;
               error_streak = (if is_err r then error_streak + 1 else 0)
           in if is_err r \<and> error_streak \<ge> POP_MAX_ERROR_STREAK then ([PopErr ''too many errors''], Ended, w')
              else if is_final r then ([r], Ended, w')
              else (let (rs, ending, w'') = pop_loop K B s' d error_streak es w' in (r # rs, ending, w''))))"
  by pat_completeness auto
termination
proof (relation "measures [\<lambda>(K, B, s, d, k, es, w). length es, \<lambda>(K, B, s, d, k, es, w). length (buffer d)]", goal_cases)
  case (2 K B s d k es w x d')
  then show ?case
    by simp
next
  case (3 K B s d k es w x d' y line r t s' w' k')
  then have "length (buffer d') < length (buffer d)"
    using next_line_shrinks [of d line d'] by simp
  then show ?case
    by simp
qed simp

declare pop_loop.simps [simp del]

definition pop_connection :: "crates \<Rightarrow> 'w Backend \<Rightarrow> NetEvent list \<Rightarrow> 'w \<Rightarrow> Response list \<times> Ending \<times> 'w" where
  "pop_connection K B es w = (let (rs, ending, w') = pop_loop K B new_pop new_decoder 0 es w in (pop_greeting # rs, ending, w'))"

text \<open>\<^verbatim>\<open>handle\<close>: TLS first.\<close>

definition pop_serve :: "crates \<Rightarrow> 'w Backend \<Rightarrow> NetEvent list \<Rightarrow> 'w \<Rightarrow> Response list \<times> Ending \<times> 'w" where
  "pop_serve K B es w =
     (case es of
        Handshake _ # es' \<Rightarrow> pop_connection K B es' w
      | HandshakeError # _ \<Rightarrow> ([], IoError, w)
      | _ \<Rightarrow> ([], Lost, w))"

section \<open>The backend keeps the promises of a store\<close>

definition disk_ok :: "fs \<Rightarrow> bool" where
  "disk_ok D \<longleftrightarrow> wf_fs D \<and> (\<forall>p. is_dir D p \<longrightarrow> fs_get D p = None)"

definition inbox :: "MailboxBackend \<Rightarrow> str \<Rightarrow> path" where
  "inbox b account = account_root (mb_data_dir b) account @ [''new'']"

lemma inbox_dir: "mailbox_dir (mb_data_dir b) account ''INBOX'' = Some (inbox b account)"
  by (simp add: mailbox_dir_def inbox_def eq_ignore_ascii_case_def Let_def)

definition decoded :: "aead \<Rightarrow> MailboxBackend \<Rightarrow> fs \<Rightarrow> path \<Rightarrow> str \<Rightarrow> bytes option" where
  "decoded A b D dir u = Option.bind (fs_read D (in_dir dir (u @ ''.eml''))) (crypto_decode A (mb_crypto b))"

definition served :: "aead \<Rightarrow> MailboxBackend \<Rightarrow> fs \<Rightarrow> path \<Rightarrow> str set" where
  "served A b D dir = {u. from_utf8 (u @ ''.eml'') \<noteq> None \<and> decoded A b D dir u \<noteq> None}"

lemma map_filter_alt: "List.map_filter f xs = map (\<lambda>x. the (f x)) (filter (\<lambda>x. f x \<noteq> None) xs)"
  by (induction xs) (auto simp: List.map_filter_simps split: option.split)

lemma in_map_filter: "u \<in> set (List.map_filter f xs) \<longleftrightarrow> (\<exists>x \<in> set xs. f x = Some u)"
  by (induction xs) (auto simp: List.map_filter_simps split: option.split)

lemma distinct_map_filter:
  "distinct xs \<Longrightarrow> (\<And>x y u. f x = Some u \<Longrightarrow> f y = Some u \<Longrightarrow> x = y) \<Longrightarrow> distinct (List.map_filter f xs)"
  by (induction xs) (auto simp: List.map_filter_simps in_map_filter split: option.split)

lemma filter_sorted_list: "finite S \<Longrightarrow> filter P (sorted_list_of_set S) = sorted_list_of_set {x \<in> S. P x}"
  by (rule sorted_distinct_set_unique) (auto simp: sorted_wrt_filter)

lemma map_filter_sorted:
  assumes "finite S"
  shows "List.map_filter (\<lambda>u. map_option (Pair u) (g u)) (sorted_list_of_set S) = map (\<lambda>u. (u, the (g u))) (sorted_list_of_set {u \<in> S. g u \<noteq> None})"
proof -
  have "List.map_filter (\<lambda>u. map_option (Pair u) (g u)) (sorted_list_of_set S) =
      map (\<lambda>u. the (map_option (Pair u) (g u))) (filter (\<lambda>u. g u \<noteq> None) (sorted_list_of_set S))"
    by (simp add: map_filter_alt)
  also have "\<dots> = map (\<lambda>u. (u, the (g u))) (filter (\<lambda>u. g u \<noteq> None) (sorted_list_of_set S))"
    by (rule map_cong) auto
  finally show ?thesis
    using filter_sorted_list [OF assms] by simp
qed

lemma stem_iff: "Option.bind (from_utf8 n) (strip_suffix ''.eml'') = Some u \<longleftrightarrow> n = u @ ''.eml'' \<and> from_utf8 n \<noteq> None"
  by (cases "from_utf8 n") (auto simp: strip_suffix_Some_iff dest: from_utf8_SomeD)

lemma pop_load_eq:
  assumes "disk_ok D"
  shows "pop_load A b D a =
           (if is_dir D (inbox b a) then map (\<lambda>u. (u, the (decoded A b D (inbox b a) u))) (sorted_list_of_set (served A b D (inbox b a))) else [])"
    and "is_dir D (inbox b a) \<Longrightarrow> finite (served A b D (inbox b a))"
proof -
  let ?dir = "inbox b a"
  let ?names = "child_names ?dir (map fst (fs_files D)) @ child_names ?dir (fs_dirs D)"
  let ?stem = "\<lambda>n. Option.bind (from_utf8 n) (strip_suffix ''.eml'')"
  let ?stems = "List.map_filter ?stem ?names"
  have in_names: "n \<in> set ?names \<longleftrightarrow> fs_get D (in_dir ?dir n) \<noteq> None \<or> is_dir D (in_dir ?dir n)" for n
    unfolding set_append Un_iff child_names_iff key_iff is_dir_def ..
  have "set (child_names ?dir (map fst (fs_files D))) \<inter> set (child_names ?dir (fs_dirs D)) = {}"
    using assms unfolding disk_ok_def is_dir_def disjoint_iff child_names_iff key_iff by metis
  then have "distinct ?names"
    using assms distinct_child_names unfolding disk_ok_def wf_fs_def distinct_append by blast
  then have "distinct ?stems"
    by (rule distinct_map_filter) (simp add: stem_iff)
  then have sort: "sort ?stems = sorted_list_of_set (set ?stems)"
    by (simp add: sorted_list_of_set_sort_remdups distinct_remdups_id)
  have stems: "u \<in> set ?stems \<longleftrightarrow> from_utf8 (u @ ''.eml'') \<noteq> None \<and> u @ ''.eml'' \<in> set ?names" for u
    unfolding in_map_filter stem_iff by blast
  have "fs_get D (in_dir ?dir (u @ ''.eml'')) \<noteq> None" if "decoded A b D ?dir u \<noteq> None" for u
    using that by (cases "fs_get D (in_dir ?dir (u @ ''.eml''))") (simp_all add: decoded_def fs_read_def)
  then have served: "{u \<in> set ?stems. decoded A b D ?dir u \<noteq> None} = served A b D ?dir"
    unfolding served_def stems in_names by blast
  show "finite (served A b D ?dir)"
    unfolding served [symmetric] by simp
  have "pop_load A b D a = List.map_filter (\<lambda>u. map_option (Pair u) (decoded A b D ?dir u)) (sort ?stems)" if "is_dir D ?dir"
    using that by (simp add: pop_load_def inbox_dir read_dir_def decoded_def map_option_bind comp_def)
  then have "pop_load A b D a = map (\<lambda>u. (u, the (decoded A b D ?dir u))) (sorted_list_of_set (served A b D ?dir))" if "is_dir D ?dir"
    unfolding sort map_filter_sorted [OF finite_set] served using that .
  moreover have "pop_load A b D a = []" if "\<not> is_dir D ?dir"
    using that by (simp add: pop_load_def inbox_dir read_dir_def List.map_filter_simps)
  ultimately show "pop_load A b D a =
           (if is_dir D ?dir then map (\<lambda>u. (u, the (decoded A b D ?dir u))) (sorted_list_of_set (served A b D ?dir)) else [])"
    by simp
qed

lemma removed_files:
  "fs_get (foldl (\<lambda>D uid. ignoring (fs_remove (in_dir dir (uid @ ''.eml''))) D) D us) p =
     (if p \<in> (\<lambda>u. in_dir dir (u @ ''.eml'')) ` set us then None else fs_get D p)"
  "fs_dirs (foldl (\<lambda>D uid. ignoring (fs_remove (in_dir dir (uid @ ''.eml''))) D) D us) = fs_dirs D"
  "wf_fs D \<Longrightarrow> wf_fs (foldl (\<lambda>D uid. ignoring (fs_remove (in_dir dir (uid @ ''.eml''))) D) D us)"
proof (induction us arbitrary: D)
  case (Cons u us)
  {
    case 1
    have "fs_get (ignoring (fs_remove q) D) p' = (if p' = q then None else fs_get D p')" for q p'
      by (cases "fs_get D q") (simp_all add: ignoring_def fs_remove_def)
    then show ?case
      using Cons.IH(1) by simp
  next
    case 2
    have "fs_dirs (ignoring (fs_remove q) D) = fs_dirs D" for q
      by (auto simp: ignoring_def fs_remove_def split: option.split)
    then show ?case
      using Cons.IH(2) by simp
  next
    case 3
    then show ?case
      using Cons.IH(3) wf_fs_ignoring [OF wf_fs_remove] by simp
  }
qed simp_all

lemma pop_remove_disk:
  shows "fs_get (pop_remove b a us D) p = (if p \<in> (\<lambda>u. in_dir (inbox b a) (u @ ''.eml'')) ` set us then None else fs_get D p)"
    and "is_dir (pop_remove b a us D) p = is_dir D p" and "disk_ok D \<Longrightarrow> disk_ok (pop_remove b a us D)"
  using removed_files(1, 2) [of "inbox b a" D us] removed_files(3) [of D "inbox b a" us]
  by (auto simp: pop_remove_def inbox_dir disk_ok_def is_dir_def)

lemma decoded_removed:
  "decoded A b (pop_remove b a us D) (inbox b a) u = (if u \<in> set us then None else decoded A b D (inbox b a) u)"
  "a' \<noteq> a \<Longrightarrow> decoded A b (pop_remove b a us D) (inbox b a') u = decoded A b D (inbox b a') u"
  by (auto simp: decoded_def fs_read_def pop_remove_disk(1) inbox_def account_root_def)

lemma pop_load_removed:
  assumes "disk_ok D"
  shows "pop_load A b (pop_remove b a us D) a = filter (\<lambda>(u, _). u \<notin> set us) (pop_load A b D a)"
proof (cases "is_dir D (inbox b a)")
  case True
  let ?S = "served A b D (inbox b a)"
  have S: "served A b (pop_remove b a us D) (inbox b a) = {u \<in> ?S. u \<notin> set us}"
    by (auto simp: served_def decoded_removed)
  have "pop_load A b (pop_remove b a us D) a =
      map (\<lambda>u. (u, the (decoded A b (pop_remove b a us D) (inbox b a) u))) (sorted_list_of_set {u \<in> ?S. u \<notin> set us})"
    using pop_load_eq(1) [OF pop_remove_disk(3) [OF assms]] True by (simp add: pop_remove_disk(2) S)
  also have "\<dots> = map (\<lambda>u. (u, the (decoded A b D (inbox b a) u))) (sorted_list_of_set {u \<in> ?S. u \<notin> set us})"
    using pop_load_eq(2) [OF assms True, of A] by (intro map_cong) (auto simp: decoded_removed)
  also have "\<dots> = filter (\<lambda>(u, _). u \<notin> set us) (map (\<lambda>u. (u, the (decoded A b D (inbox b a) u))) (sorted_list_of_set ?S))"
    using filter_sorted_list [OF pop_load_eq(2) [OF assms True], of "\<lambda>u. u \<notin> set us" A] by (simp add: filter_map comp_def)
  finally show ?thesis
    using pop_load_eq(1) [OF assms] True by simp
next
  case False
  then show ?thesis
    using pop_load_eq(1) [OF pop_remove_disk(3) [OF assms]] pop_load_eq(1) [OF assms] by (simp add: pop_remove_disk(2))
qed

lemma pop_load_other:
  assumes "disk_ok D" "a' \<noteq> a"
  shows "pop_load A b (pop_remove b a us D) a' = pop_load A b D a'"
proof -
  have "disk_ok (pop_remove b a us D)"
    by (rule pop_remove_disk(3) [OF assms(1)])
  then show ?thesis
    by (simp add: pop_load_eq(1) assms(1) pop_remove_disk(2) served_def decoded_removed(2) [OF assms(2)])
qed

lemma pop_load_distinct: "disk_ok D \<Longrightarrow> distinct (map fst (pop_load A b D a))"
  using pop_load_eq(1) [of D A b a] by (simp add: comp_def)

interpretation maildrop: pop_store "mailbox_backend K A b" "\<lambda>w. disk_ok (pw_disk w)" for K A b
  by unfold_locales (simp_all add: mailbox_backend_def pop_load_distinct pop_load_removed pop_load_other pop_remove_disk(3))

text \<open>C12. A POP3 session commits at QUIT and only what was marked. After a login, any commands and a QUIT, the
  inbox serves exactly the messages it served before without those that DELE marked and no later RSET
  unmarked; the inboxes of the other accounts are as before.\<close>

theorem pop3_quit_commits:
  assumes "disk_ok (pw_disk w)" "pop_verify K (pw_directory w) user pass = Some a" "PopQuit \<notin> set cs"
    "pop_run K (mailbox_backend K A b) new_pop (PopUser user # PopPass pass # cs @ [PopQuit]) w = (rs, s, w')"
  shows "pop_load A b (pw_disk w') a = nths (pop_load A b (pw_disk w) a) (- marks (length (pop_load A b (pw_disk w) a)) {} cs) \<and>
         (\<forall>a'. a' \<noteq> a \<longrightarrow> pop_load A b (pw_disk w') a' = pop_load A b (pw_disk w) a')"
proof -
  have B: "be_load (mailbox_backend K A b) v = pop_load A b (pw_disk v)" "be_verify (mailbox_backend K A b) v = pop_verify K (pw_directory v)" for v
    by (simp_all add: mailbox_backend_def)
  show ?thesis
    using maildrop.session_commits [of w K A b user pass a cs K rs s w'] assms unfolding B by blast
qed

section \<open>Connections\<close>

lemma handle_world: "pop_handle K B s c w = (r, s', w') \<Longrightarrow> w' = w \<or> r = PopBye ''bye''"
proof (cases "ps_state s")
  case Transaction
  assume "pop_handle K B s c w = (r, s', w')"
  then have "transaction B s c w = (r, s', w')"
    using Transaction by (simp add: pop_handle_def)
  then show ?thesis
    by (cases "(B, s, c, w)" rule: transaction.cases) (auto simp: Let_def split: prod.splits)
qed (auto simp: pop_handle_def split: prod.splits)

lemma response_world: "pop_response K B s line w = (r, s', w') \<Longrightarrow> w' = w \<or> r = PopBye ''bye''"
  by (auto simp: pop_response_def split: option.splits sum.splits dest: handle_world)

lemma pop_loop_line:
  assumes "next_line d = (Inr (Some line), d')" "pop_response K B s line w = (r, s', w')"
  shows "pop_loop K B s d k es w =
     (let k' = (if is_err r then k + 1 else 0)
      in if is_err r \<and> k' \<ge> POP_MAX_ERROR_STREAK then ([PopErr ''too many errors''], Ended, w')
         else if is_final r then ([r], Ended, w')
         else (let (rs, ending, w'') = pop_loop K B s' d' k' es w' in (r # rs, ending, w'')))"
  by (subst pop_loop.simps) (simp add: assms)

text \<open>Induction over the lines a connection brings.\<close>

lemma pop_loop_rule:
  assumes stop: "\<And>s k w ending. P s k w ([], ending, w)"
    and bad: "\<And>s k w. P s k w ([PopErr ''line too long''], Ended, w)"
    and limit: "\<And>s k w l r s' w'. pop_response K B s l w = (r, s', w') \<Longrightarrow> is_err r \<Longrightarrow> k + 1 \<ge> POP_MAX_ERROR_STREAK \<Longrightarrow>
      P s k w ([PopErr ''too many errors''], Ended, w')"
    and final: "\<And>s k w l r s' w'. pop_response K B s l w = (r, s', w') \<Longrightarrow> is_final r \<Longrightarrow> P s k w ([r], Ended, w')"
    and step: "\<And>s k w l r s' w' rs ending w''. pop_response K B s l w = (r, s', w') \<Longrightarrow>
      \<not> (is_err r \<and> k + 1 \<ge> POP_MAX_ERROR_STREAK) \<Longrightarrow> \<not> is_final r \<Longrightarrow>
      P s' (if is_err r then k + 1 else 0) w' (rs, ending, w'') \<Longrightarrow> P s k w (r # rs, ending, w'')"
  shows "P s k w (pop_loop K B s d k es w)"
proof -
  have "K' = K \<Longrightarrow> B' = B \<Longrightarrow> P s k w (pop_loop K' B' s d k es w)" for K' B'
  proof (induction K' B' s d k es w rule: pop_loop.induct)
    case (1 K' B' s d k es w)
    note KB = 1(3, 4)
    consider (bad) e d' where "next_line d = (Inl e, d')" | (none) d' where "next_line d = (Inr None, d')"
      | (line) l d' where "next_line d = (Inr (Some l), d')"
      by (metis not_None_eq old.prod.exhaust sum.exhaust)
    then show ?case
    proof cases
      case bad
      then show ?thesis
        using assms(2) by (simp add: pop_loop.simps [of K' B' s d])
    next
      case none
      show ?thesis
      proof (cases es)
        case Nil
        then show ?thesis
          using stop none by (simp add: pop_loop.simps [of K' B' s d])
      next
        case (Cons e es')
        then show ?thesis
          using 1(1) [OF none [symmetric] refl refl Cons] KB none stop
          by (cases e) (auto simp: pop_loop.simps [of K B s d])
      qed
    next
      case line
      obtain r s1 w1 where r: "pop_response K B s l w = (r, s1, w1)"
        by (rule prod_cases3)
      note loop = pop_loop_line [OF line r, of k es]
      show ?thesis
      proof (cases "is_err r \<and> k + 1 \<ge> POP_MAX_ERROR_STREAK \<or> is_final r")
        case True
        then show ?thesis
          using limit [OF r] final [OF r] unfolding KB loop by (auto simp: Let_def)
      next
        case False
        let ?k = "if is_err r then k + 1 else 0"
        obtain rs ending w2 where rec: "pop_loop K B s1 d' ?k es w1 = (rs, ending, w2)"
          by (rule prod_cases3)
        have "P s1 ?k w1 (pop_loop K B s1 d' ?k es w1)"
          using 1(2) [OF line [symmetric] refl refl r [folded KB, symmetric] refl refl refl] False KB by auto
        then show ?thesis
          using step [OF r, of k] False rec unfolding KB loop by (auto simp: Let_def)
      qed
    qed
  qed
  then show ?thesis
    by blast
qed

lemma pop_loop_world:
  assumes "pop_loop K B s d k es w = (rs, ending, w')" "PopBye ''bye'' \<notin> set rs"
  shows "w' = w"
proof -
  have "case pop_loop K B s d k es w of (rs, ending, w') \<Rightarrow> PopBye ''bye'' \<notin> set rs \<longrightarrow> w' = w"
  proof (rule pop_loop_rule [of "\<lambda>s k w (rs, ending, w'). PopBye ''bye'' \<notin> set rs \<longrightarrow> w' = w"], goal_cases)
    case (3 s k w l r s' w')
    then show ?case
      using response_world [OF 3(1)] by (cases r) auto
  next
    case (4 s k w l r s' w')
    then show ?case
      using response_world [OF 4(1)] by auto
  next
    case (5 s k w l r s' w' rs ending w'')
    then show ?case
      using response_world [OF 5(1)] by auto
  qed auto
  then show ?thesis
    using assms by simp
qed

text \<open>C21. A POP3 connection that ends before QUIT removes nothing: whatever it sends and however it ends (end of
  stream, timeout, error, error limit), nothing behind the session has changed unless the final reply to QUIT was sent.\<close>

theorem pop3_no_quit_no_removal:
  assumes "pop_serve K B es w = (rs, ending, w')" "PopBye ''bye'' \<notin> set rs"
  shows "w' = w"
proof -
  consider "w' = w" | h es' rs' where "pop_loop K B new_pop new_decoder 0 es' w = (rs', ending, w')" "rs = pop_greeting # rs'"
    using assms(1) by (auto simp: pop_serve_def pop_connection_def split: list.splits NetEvent.splits prod.splits)
  then show ?thesis
    using assms(2) pop_loop_world by cases auto
qed

text \<open>The length of the error runs of a list of responses, from a count \<open>k\<close> on.\<close>

fun streaks_within :: "nat \<Rightarrow> Response list \<Rightarrow> bool" where
  "streaks_within k [] \<longleftrightarrow> k \<le> POP_MAX_ERROR_STREAK"
| "streaks_within k (r # rs) \<longleftrightarrow> k \<le> POP_MAX_ERROR_STREAK \<and> streaks_within (if is_err r then k + 1 else 0) rs"

lemma streaks_within_le: "streaks_within k rs \<Longrightarrow> k \<le> POP_MAX_ERROR_STREAK"
  by (cases rs) auto

lemma streaks_within_append: "streaks_within k (pre @ rs) \<Longrightarrow> \<exists>k'. streaks_within k' rs"
  by (induction pre arbitrary: k) auto

lemma streaks_within_errors: "streaks_within k (errs @ post) \<Longrightarrow> list_all is_err errs \<Longrightarrow> k + length errs \<le> POP_MAX_ERROR_STREAK"
proof (induction errs arbitrary: k)
  case (Cons e errs)
  then show ?case
    using Cons.IH [of "k + 1"] by simp
qed (auto dest: streaks_within_le)

lemma pop_loop_streaks: "k < POP_MAX_ERROR_STREAK \<Longrightarrow> streaks_within k (fst (pop_loop K B s d k es w))"
proof -
  have "k < POP_MAX_ERROR_STREAK \<longrightarrow> streaks_within k (fst (pop_loop K B s d k es w))"
    by (rule pop_loop_rule [of "\<lambda>s k w r. k < POP_MAX_ERROR_STREAK \<longrightarrow> streaks_within k (fst r)"])
      (auto simp: POP_MAX_ERROR_STREAK_def elim: is_final.elims)
  then show "k < POP_MAX_ERROR_STREAK \<Longrightarrow> streaks_within k (fst (pop_loop K B s d k es w))"
    by blast
qed

text \<open>A POP3 connection answers at most twenty commands in a row with an error, whatever kind of error it
  is; the next one closes it.\<close>

lemma pop3_error_limit:
  assumes "pop_serve K B es w = (pre @ errs @ post, ending, w')" "list_all is_err errs"
  shows "length errs \<le> POP_MAX_ERROR_STREAK"
proof -
  have "streaks_within 0 (fst (pop_loop K B new_pop new_decoder 0 es' w))" for es'
    by (rule pop_loop_streaks) (simp add: POP_MAX_ERROR_STREAK_def)
  then have "streaks_within 0 (fst (pop_serve K B es w))"
    by (auto simp: pop_serve_def pop_connection_def pop_greeting_def POP_MAX_ERROR_STREAK_def split_def Let_def split: list.split NetEvent.split)
  then obtain k where "streaks_within k (errs @ post)"
    using streaks_within_append assms(1) by (metis fst_conv)
  then show ?thesis
    using streaks_within_errors [OF _ assms(2)] by fastforce
qed

text \<open>C40. The password alone opens a mailbox over POP3: a disabled account is let in, and one with a TOTP secret is let in
  without a code.\<close>

theorem pop3_ignores_disabled: "pop_verify K (with_disabled ds (with_totp ts d)) user pass = pop_verify K d user pass"
proof -
  have "effective_domain (with_disabled ds (with_totp ts d)) = effective_domain d" "strip_subaddress (with_disabled ds (with_totp ts d)) = strip_subaddress d"
    "is_protocol_allowed (with_disabled ds (with_totp ts d)) = is_protocol_allowed d"
    by (simp_all add: fun_eq_iff effective_domain_def strip_subaddress_def is_protocol_allowed_def with_disabled_def with_totp_def)
  moreover have "password_hashes (with_disabled ds (with_totp ts d)) = password_hashes d"
    "accounts_by_address (with_disabled ds (with_totp ts d)) = accounts_by_address d"
    "aliases (with_disabled ds (with_totp ts d)) = aliases d" "domains (with_disabled ds (with_totp ts d)) = domains d"
    "masked_by_address (with_disabled ds (with_totp ts d)) = masked_by_address d" "catch_all (with_disabled ds (with_totp ts d)) = catch_all d"
    by (simp_all add: with_disabled_def with_totp_def)
  ultimately show ?thesis
    unfolding pop_verify_def credentials_def login_account_def resolve_def by (simp only:)
qed

section \<open>An example\<close>

definition pop_sample_world :: PopWorld where
  "pop_sample_world = \<lparr>pw_directory = sample_directory, pw_disk = with_message 9 ''ho'' (with_message 7 ''hi'' sample_disk)\<rparr>"

abbreviation sample_store :: "PopWorld Backend" where
  "sample_store \<equiv> mailbox_backend sample_crates sample_aead (new_backend [''d''])"

lemma sample_disk_ok: "disk_ok (pw_disk pop_sample_world)"
proof -
  have files: "map fst (fs_files (pw_disk pop_sample_world)) = [in_dir sample_inbox ''9.eml'', in_dir sample_inbox ''7.eml'']"
    and dirs: "fs_dirs (pw_disk pop_sample_world) = fs_dirs sample_disk @ [[''d'', ''accounts'', ''bob'', ''tmp'']]"
    by code_simp+
  have "get (fs_files (pw_disk pop_sample_world)) p = None" if "p \<in> set (fs_dirs (pw_disk pop_sample_world))" for p
    using key_iff [of p "fs_files (pw_disk pop_sample_world)"] that unfolding files dirs by (auto simp: sample_disk_def sample_inbox_def)
  then show ?thesis
    unfolding disk_ok_def wf_fs_def is_dir_def files dirs by (auto simp: sample_disk_def sample_inbox_def)
qed

theorem pop3_quit_commits_witness:
  "pop_load sample_aead (new_backend [''d'']) (pw_disk (snd (snd (pop_run sample_crates sample_store new_pop
     [PopUser ''bob'', PopPass ''pw'', PopDele 1, PopDele 2, PopRset, PopDele 1, PopQuit] pop_sample_world)))) ''bob'' = [(''9'', ''ho'')]"
proof -
  have v: "pop_verify sample_crates (pw_directory pop_sample_world) ''bob'' ''pw'' = Some ''bob''"
    and l: "pop_load sample_aead (new_backend [''d'']) (pw_disk pop_sample_world) ''bob'' = [(''7'', ''hi''), (''9'', ''ho'')]"
    by code_simp+
  obtain rs s w' where r: "pop_run sample_crates sample_store new_pop
      (PopUser ''bob'' # PopPass ''pw'' # [PopDele 1, PopDele 2, PopRset, PopDele 1] @ [PopQuit]) pop_sample_world = (rs, s, w')"
    by (rule prod_cases3)
  then have "pop_load sample_aead (new_backend [''d'']) (pw_disk w') ''bob'' =
      nths [(''7'', ''hi''), (''9'', ''ho'')] (- marks 2 {} [PopDele 1, PopDele 2, PopRset, PopDele 1])"
    using pop3_quit_commits [OF sample_disk_ok v _ r] unfolding l by (simp del: pop_run.simps)
  also have "\<dots> = [(''9'', ''ho'')]"
    by (simp add: nths_Cons)
  finally show ?thesis
    using r by (simp del: pop_run.simps)
qed

definition sample_reads :: "NetEvent list" where
  "sample_reads = [Handshake None, Rd (''USER bob'' @ crlf @ ''PASS pw'' @ crlf @ ''DELE 1'' @ crlf), ReadTimeout]"

lemma sample_served: "fst (pop_serve sample_crates sample_store sample_reads pop_sample_world) =
   [PopOk ''POP3 ready'', PopOk ''send PASS'', PopOk ''mailbox ready, 2 messages'', PopOk ''message 1 deleted'']"
  by code_simp

theorem pop3_no_quit_no_removal_witness: "snd (snd (pop_serve sample_crates sample_store sample_reads pop_sample_world)) = pop_sample_world"
proof -
  obtain rs ending w' where r: "pop_serve sample_crates sample_store sample_reads pop_sample_world = (rs, ending, w')"
    by (rule prod_cases3)
  then show ?thesis
    using pop3_no_quit_no_removal [OF r] sample_served by simp
qed

end
