(* ===== verification/Srs.thy ===== *)
theory Srs
  imports Totp "HOL-Library.Code_Target_Nat"
begin

text \<open>
  The sender rewriting scheme for forwarded mail (\<^verbatim>\<open>queue/srs.rs\<close>). HMAC and base64 are crates.
\<close>

section \<open>Model\<close>

definition TS_MODULUS :: nat where "TS_MODULUS = 1024"

record Srs =
  srs_key :: bytes

definition new_srs :: "bytes \<Rightarrow> Srs" where
  "new_srs secret = \<lparr>srs_key = secret\<rparr>"

definition encode_timestamp :: "nat \<Rightarrow> str" where
  "encode_timestamp days =
     (let v = days mod TS_MODULUS in [BASE32 ! (v div 32 mod 32), BASE32 ! (v mod 32)])"

definition base32_value :: "char \<Rightarrow> nat option" where
  "base32_value c = Totp.position (ascii_upper_char c) BASE32"

definition decode_timestamp :: "str \<Rightarrow> nat option" where
  "decode_timestamp ts =
     (case ts of
        [a, b] \<Rightarrow> Option.bind (base32_value a) (\<lambda>hi. Option.bind (base32_value b) (\<lambda>lo. Some (hi * 32 + lo)))
      | _ \<Rightarrow> None)"

definition timestamp_age :: "nat \<Rightarrow> nat \<Rightarrow> nat" where
  "timestamp_age stamp now_days = (now_days mod TS_MODULUS + TS_MODULUS - stamp) mod TS_MODULUS"

text \<open>\<^verbatim>\<open>text[..prefix.len()]\<close> panics inside a character; the outer \<open>None\<close> is that panic.\<close>

definition strip_prefix_ci :: "str \<Rightarrow> str \<Rightarrow> str option option" where
  "strip_prefix_ci t p =
     (if length t < length p then Some None
      else if \<not> is_char_boundary t (length p) then None
      else if eq_ignore_ascii_case (take (length p) t) p then Some (Some (drop (length p) t))
      else Some None)"

definition srs_hash :: "crates \<Rightarrow> Srs \<Rightarrow> str \<Rightarrow> str \<Rightarrow> str \<Rightarrow> str" where
  "srs_hash K s ts dm local =
     (let data = to_ascii_lowercase (ts @ ''='' @ dm @ ''='' @ local)
      in take 4 (b64_encode K (hmac_sha256 K (srs_key s) data)))"

definition srs_forward :: "crates \<Rightarrow> Srs \<Rightarrow> str \<Rightarrow> str \<Rightarrow> str \<Rightarrow> nat \<Rightarrow> str" where
  "srs_forward K s local dm our_domain now_days =
     (let ts = encode_timestamp now_days; hash = srs_hash K s ts dm local
      in ''SRS0='' @ hash @ ''='' @ ts @ ''='' @ dm @ ''='' @ local @ ''@'' @ our_domain)"

fun splitn :: "nat \<Rightarrow> char \<Rightarrow> str \<Rightarrow> str list" where
  "splitn 0 c s = []"
| "splitn (Suc 0) c s = [s]"
| "splitn (Suc n) c s = (case split_once c s of None \<Rightarrow> [s] | Some (a, b) \<Rightarrow> a # splitn n c b)"

text \<open>The comparison is the loop of \<^verbatim>\<open>constant_time_eq\<close> again.\<close>

definition srs_reverse :: "crates \<Rightarrow> Srs \<Rightarrow> str \<Rightarrow> nat \<Rightarrow> nat \<Rightarrow> (str \<times> str) option option" where
  "srs_reverse K s srs_local now_days max_age_days =
     map_option (\<lambda>r. Option.bind r (\<lambda>rest.
       case splitn 4 (CHR ''='') rest of
         [hash, ts, dm, local] \<Rightarrow>
           if dm = [] \<or> local = [] then None
           else if \<not> constant_time_eq (srs_hash K s ts dm local) hash then None
           else Option.bind (decode_timestamp ts) (\<lambda>stamp.
             if timestamp_age stamp now_days > max_age_days then None else Some (local, dm))
       | _ \<Rightarrow> None))
     (strip_prefix_ci srs_local ''SRS0='')"

section \<open>Laws\<close>

text \<open>The first quantum of a base64 text has no padding when there are at least three octets.\<close>

definition b64_quantum :: "crates \<Rightarrow> bool" where
  "b64_quantum K \<longleftrightarrow> (\<forall>b. 3 \<le> length b \<longrightarrow> CHR ''='' \<notin> set (take 4 (b64_encode K b)))"

lemma base32_values: "list_all (\<lambda>i. base32_value (BASE32 ! i) = Some i) [0..<32]"
  by code_simp

lemma base32_value_nth: "i < 32 \<Longrightarrow> base32_value (BASE32 ! i) = Some i"
  using base32_values by (simp add: list_all_iff)

lemma decode_encode_timestamp: "decode_timestamp (encode_timestamp n) = Some (n mod TS_MODULUS)"
proof -
  have "n mod 1024 div 32 mod 32 = n mod 1024 div 32" "n mod 1024 div 32 < 32"
    by (simp_all add: less_mult_imp_div_less)
  then show ?thesis
    by (simp add: decode_timestamp_def encode_timestamp_def base32_value_nth Let_def TS_MODULUS_def)
qed

lemma timestamp_age_later:
  assumes "k < TS_MODULUS"
  shows "timestamp_age (n mod TS_MODULUS) (n + k) = k"
proof -
  let ?M = TS_MODULUS
  let ?a = "n mod ?M"
  have a: "?a < ?M"
    by (simp add: TS_MODULUS_def)
  have "timestamp_age ?a (n + k) = ((?a + k) mod ?M + ?M - ?a) mod ?M"
    by (simp add: timestamp_age_def mod_add_left_eq)
  also have "\<dots> = k"
  proof (cases "?a + k < ?M")
    case True
    then have "(?a + k) mod ?M + ?M - ?a = k + ?M"
      by simp
    then show ?thesis
      using assms by simp
  next
    case False
    then have "?a + k - ?M < ?M" "(?a + k) mod ?M = (?a + k - ?M) mod ?M"
      using a assms le_mod_geq [of ?M "?a + k"] by linarith+
    then have "(?a + k) mod ?M = ?a + k - ?M"
      by simp
    then have "(?a + k) mod ?M + ?M - ?a = k"
      using False by simp
    then show ?thesis
      using assms by simp
  qed
  finally show ?thesis .
qed

lemma base32_no_eq: "i < 32 \<Longrightarrow> BASE32 ! i \<noteq> CHR ''=''"
proof -
  assume "i < 32"
  moreover have "list_all (\<lambda>i. BASE32 ! i \<noteq> CHR ''='') [0..<32]"
    by code_simp
  ultimately show ?thesis
    by (simp add: list_all_iff)
qed

lemma splitn_four:
  assumes "CHR ''='' \<notin> set a" "CHR ''='' \<notin> set b" "CHR ''='' \<notin> set c"
  shows "splitn 4 (CHR ''='') (a @ ''='' @ b @ ''='' @ c @ ''='' @ d) = [a, b, c, d]"
  using assms by (simp add: numeral_eq_Suc split_once_SomeI)

lemma splitn_fourD: "splitn 4 c s = [a, b, d, e] \<Longrightarrow> s = a @ [c] @ b @ [c] @ d @ [c] @ e"
  by (auto simp: numeral_eq_Suc dest!: split_once_SomeD split: option.splits prod.splits)

text \<open>C36. A bounce finds its way back: the local part of a rewritten sender is accepted for as long as the
  configured age (below the 1024 days after which stamps repeat), and gives the original sender.\<close>

theorem srs_roundtrip:
  assumes "b64_quantum K" "sha256_lengths K" "dm \<noteq> []" "CHR ''='' \<notin> set dm" "local \<noteq> []" "CHR ''@'' \<notin> set our_domain"
    and "now \<le> later" "later \<le> now + max_age" "max_age < TS_MODULUS" "b64_alphabet K"
  shows "\<exists>l. rsplit_once (CHR ''@'') (srs_forward K s local dm our_domain now) = Some (l, our_domain) \<and>
             srs_reverse K s l later max_age = Some (Some (local, dm))"
proof -
  let ?ts = "encode_timestamp now"
  let ?h = "srs_hash K s ?ts dm local"
  let ?rest = "?h @ ''='' @ ?ts @ ''='' @ dm @ ''='' @ local"
  have "CHR ''='' \<notin> set ?h"
    using assms(1, 2) by (simp add: srs_hash_def Let_def b64_quantum_def sha256_lengths_def)
  moreover have "CHR ''='' \<notin> set ?ts"
    using base32_no_eq [THEN not_sym] by (simp add: encode_timestamp_def Let_def)
  ultimately have parts: "splitn 4 (CHR ''='') ?rest = [?h, ?ts, dm, local]"
    using assms(4) by (rule splitn_four)
  have "strip_prefix_ci (''SRS0='' @ ?rest) ''SRS0='' = Some (Some ?rest)"
  proof -
    have "list_all b64_char ?h"
      using assms(10) by (simp add: srs_hash_def Let_def b64_alphabet_def list_all_iff) (meson in_set_takeD)
    then have "\<not> is_continuation ((''SRS0='' @ ?rest) ! 5)"
      by (cases ?h) (auto simp: b64_char_def is_continuation_def ascii_simps)
    then have "is_char_boundary (''SRS0='' @ ?rest) 5"
      by (simp add: is_char_boundary_def)
    then show ?thesis
      by (simp add: strip_prefix_ci_def eq_ignore_ascii_case_def numeral_eq_Suc)
  qed
  moreover have "timestamp_age (now mod TS_MODULUS) later \<le> max_age"
    using timestamp_age_later [of "later - now" now] assms(7-9) by simp
  ultimately have "srs_reverse K s (''SRS0='' @ ?rest) later max_age = Some (Some (local, dm))"
    using parts assms(3, 5) by (simp add: srs_reverse_def decode_encode_timestamp)
  moreover have "rsplit_once (CHR ''@'') (srs_forward K s local dm our_domain now) = Some (''SRS0='' @ ?rest, our_domain)"
    using assms(6) by (simp add: rsplit_once_Some_iff srs_forward_def Let_def)
  ultimately show ?thesis
    by blast
qed

lemma sample_b64_quantum: "b64_quantum sample_crates"
  unfolding b64_quantum_def
proof (intro allI impI)
  fix b :: bytes
  have "nibble_char n \<noteq> CHR ''=''" if "n < 16" for n
    using code_nibble_char [OF that] that by auto
  then have "list_all (\<lambda>c. c \<noteq> CHR ''='') (sample_encode b)"
    by (auto simp: sample_encode_def list_all_iff less_mult_imp_div_less)
  then show "CHR ''='' \<notin> set (take 4 (b64_encode sample_crates b))"
    by (auto simp: sample_crates_def list_all_iff dest: in_set_takeD)
qed

theorem srs_roundtrip_witness:
  "\<exists>l. rsplit_once (CHR ''@'') (srs_forward sample_crates (new_srs ''key'') ''ann'' ''a.org'' ''b.org'' 1020) = Some (l, ''b.org'') \<and>
       srs_reverse sample_crates (new_srs ''key'') l 1030 14 = Some (Some (''ann'', ''a.org''))"
  by (rule srs_roundtrip) (simp_all add: sample_b64_quantum sample_b64 sample_lengths TS_MODULUS_def)

text \<open>C37. A rewritten address is accepted only with the tag of this secret over its stamp, domain and local part, and only
  while the stamp is at most the configured age old.\<close>

theorem srs_reverse_sound:
  assumes "srs_reverse K s l now max_age = Some (Some (local, dm))"
  shows "\<exists>p ts stamp. l = p @ srs_hash K s ts dm local @ ''='' @ ts @ ''='' @ dm @ ''='' @ local \<and> eq_ignore_ascii_case p ''SRS0='' \<and>
           dm \<noteq> [] \<and> local \<noteq> [] \<and> decode_timestamp ts = Some stamp \<and> timestamp_age stamp now \<le> max_age"
proof -
  obtain rest where r: "strip_prefix_ci l ''SRS0='' = Some (Some rest)"
    using assms by (auto simp: srs_reverse_def bind_eq_Some_conv)
  then have l: "l = take 5 l @ rest" "eq_ignore_ascii_case (take 5 l) ''SRS0=''"
    by (auto simp: strip_prefix_ci_def numeral_eq_Suc split: if_splits)
  obtain h ts stamp where "splitn 4 (CHR ''='') rest = [h, ts, dm, local]" "dm \<noteq> []" "local \<noteq> []" "srs_hash K s ts dm local = h"
    "decode_timestamp ts = Some stamp" "timestamp_age stamp now \<le> max_age"
    using assms r by (auto simp: srs_reverse_def bind_eq_Some_conv split: list.splits if_splits)
  then show ?thesis
    using l splitn_fourD [of "CHR ''=''" rest h ts dm local] by (intro exI [of _ "take 5 l"] exI [of _ ts] exI [of _ stamp]) auto
qed

theorem srs_reverse_sound_witness:
  "\<exists>p ts stamp. ''SRS0='' @ srs_hash sample_crates (new_srs ''key'') ''AA'' ''a.org'' ''ann'' @ ''=AA=a.org=ann'' =
      p @ srs_hash sample_crates (new_srs ''key'') ts ''a.org'' ''ann'' @ ''='' @ ts @ ''='' @ ''a.org'' @ ''='' @ ''ann'' \<and>
      eq_ignore_ascii_case p ''SRS0='' \<and> ''a.org'' \<noteq> [] \<and> ''ann'' \<noteq> [] \<and> decode_timestamp ts = Some stamp \<and> timestamp_age stamp 3 \<le> 14"
  by (rule srs_reverse_sound) code_simp

text \<open>An address with a character across the fifth octet makes the check panic, for instance that of \<^verbatim>\<open>andre\<close> with an accent.\<close>

lemma srs_reverse_panics: "srs_reverse K s (''andr'' @ [CHR 0xC3, CHR 0xA9]) now max_age = None"
  by (simp add: srs_reverse_def strip_prefix_ci_def is_char_boundary_def is_continuation_def)

end
