(* ===== verification/Sieve_Syntax.thy ===== *)
theory Sieve_Syntax
  imports Rust_Prelude
begin

text \<open>
  The Sieve language: its syntax tree (\<^verbatim>\<open>sieve/ast.rs\<close>), lexer (\<^verbatim>\<open>sieve/lexer.rs\<close>) and parser
  (\<^verbatim>\<open>sieve/parser.rs\<close>). The code lexes characters; as every character it tests for is ASCII, and so never part of
  another character's encoding, the model lexes octets.
\<close>

section \<open>Syntax trees\<close>

datatype Argument = ArgStr str | ArgList "str list" | ArgNumber nat | ArgTag str

datatype Test = Test (t_name: str) (t_args: "Argument list") (t_children: "Test list")

datatype SieveCommand = Action str "Argument list" | If Conditional
and Conditional = Conditional (c_branches: "Branch list") (c_otherwise: "SieveCommand list option")
and Branch = Branch (b_test: Test) (b_body: "SieveCommand list")

section \<open>Lexer\<close>

datatype Token =
    TIdentifier str
  | TTag str
  | TNumber nat
  | TQuoted str
  | TMultiLine str
  | BracketOpen
  | BracketClose
  | ParenOpen
  | ParenClose
  | BraceOpen
  | BraceClose
  | Comma
  | Semicolon

datatype LexError = Unterminated | BadNumber | UnexpectedChar str

definition is_ascii_alphabetic :: "char \<Rightarrow> bool" where
  [ascii_simps]: "is_ascii_alphabetic c \<longleftrightarrow> is_ascii_uppercase c \<or> is_ascii_lowercase c"

definition is_identifier_start :: "char \<Rightarrow> bool" where
  "is_identifier_start c \<longleftrightarrow> is_ascii_alphabetic c \<or> c = CHR ''_''"

definition is_identifier_char :: "char \<Rightarrow> bool" where
  "is_identifier_char c \<longleftrightarrow> is_ascii_alphanumeric c \<or> c = CHR ''_''"

definition lex_identifier :: "str \<Rightarrow> str \<times> str" where
  "lex_identifier s = (takeWhile is_identifier_char s, dropWhile is_identifier_char s)"

text \<open>From the colon on.\<close>

definition lex_tag :: "str \<Rightarrow> Token \<times> str" where
  "lex_tag s = (let (name, rest) = lex_identifier (tl s) in (TTag name, rest))"

definition checked_mul :: "nat \<Rightarrow> nat \<Rightarrow> LexError + nat" where
  "checked_mul a b = (if a * b < 2 ^ 64 then Inr (a * b) else Inl BadNumber)"

definition quantifier :: "char \<Rightarrow> nat option" where
  "quantifier q =
     (if q \<in> set ''Kk'' then Some 1024
      else if q \<in> set ''Mm'' then Some (1024 * 1024)
      else if q \<in> set ''Gg'' then Some (1024 * 1024 * 1024) else None)"

definition lex_number :: "str \<Rightarrow> LexError + (Token \<times> str)" where
  "lex_number s =
     (let digits = takeWhile is_ascii_digit s; rest = dropWhile is_ascii_digit s in
      and_then (ok_or BadNumber (parse_unsigned 64 digits)) (\<lambda>v.
      case rest of
        [] \<Rightarrow> Inr (TNumber v, rest)
      | q # rest' \<Rightarrow>
          (case quantifier q of
             Some f \<Rightarrow> and_then (checked_mul v f) (\<lambda>v. Inr (TNumber v, rest'))
           | None \<Rightarrow> Inr (TNumber v, rest))))"

text \<open>From behind the opening quote on.\<close>

fun quoted_loop :: "str \<Rightarrow> LexError + (str \<times> str)" where
  "quoted_loop [] = Inl Unterminated"
| "quoted_loop (c # s) =
     (if c = CHR 0x22 then Inr ([], s)
      else if c = CHR 0x5C then
        (case s of
           [] \<Rightarrow> Inl Unterminated
         | q # s' \<Rightarrow> and_then (quoted_loop s') (\<lambda>(v, rest). Inr (q # v, rest)))
      else and_then (quoted_loop s) (\<lambda>(v, rest). Inr (c # v, rest)))"

definition lex_quoted :: "str \<Rightarrow> LexError + (Token \<times> str)" where
  "lex_quoted s = and_then (quoted_loop (tl s)) (\<lambda>(v, rest). Inr (TQuoted v, rest))"

function multiline_loop :: "str \<Rightarrow> LexError + (str list \<times> str)" where
  "multiline_loop s =
     (let l = takeWhile (\<lambda>c. c \<noteq> LF) s; r = dropWhile (\<lambda>c. c \<noteq> LF) s;
          line = (if l \<noteq> [] \<and> last l = CR then butlast l else l)
      in if s = [] then Inl Unterminated
         else if line = ''.'' then Inr ([], tl r)
         else and_then (multiline_loop (tl r)) (\<lambda>(ls, rest).
           Inr ((case strip_prefix ''..'' line of Some x \<Rightarrow> ''.'' @ x | None \<Rightarrow> line) # ls, rest)))"
  by pat_completeness auto
termination
proof (relation "measure length")
  fix s :: str and l r
  assume "s \<noteq> []" "r = dropWhile (\<lambda>c. c \<noteq> LF) s"
  then show "(tl r, s) \<in> measure length"
    using length_dropWhile_le [of "\<lambda>c. c \<noteq> LF" s] by (cases s) (auto simp: less_Suc_eq_le)
qed simp

declare multiline_loop.simps [simp del]

definition lex_multiline :: "str \<Rightarrow> LexError + (Token \<times> str)" where
  "lex_multiline s =
     and_then (multiline_loop (tl (dropWhile (\<lambda>c. c \<noteq> LF) s))) (\<lambda>(ls, rest). Inr (TMultiLine (join crlf ls), rest))"

fun skip_comment :: "str \<Rightarrow> str option" where
  "skip_comment (x # y # s) = (if x = CHR ''*'' \<and> y = CHR ''/'' then Some s else skip_comment (y # s))"
| "skip_comment _ = None"

definition punctuation :: "char \<Rightarrow> Token option" where
  "punctuation c =
     map_of [(CHR ''['', BracketOpen), (CHR '']'', BracketClose), (CHR ''('', ParenOpen), (CHR '')'', ParenClose),
             (CHR ''{'', BraceOpen), (CHR ''}'', BraceClose), (CHR '','', Comma), (CHR '';'', Semicolon)] c"

definition lex_word :: "str \<Rightarrow> LexError + (Token \<times> str)" where
  "lex_word s =
     (let (ident, rest) = lex_identifier s in
      if ident = ''text'' \<and> starts_with '':'' rest then lex_multiline (tl rest) else Inr (TIdentifier ident, rest))"

definition lex_token :: "str \<Rightarrow> LexError + (Token \<times> str)" where
  "lex_token s =
     (let c = hd s in
      case punctuation c of
        Some t \<Rightarrow> Inr (t, tl s)
      | None \<Rightarrow>
          if c = CHR 0x22 then lex_quoted s
          else if c = CHR '':'' then Inr (lex_tag s)
          else if is_ascii_digit c then lex_number s
          else if is_identifier_start c then lex_word s
          else Inl (UnexpectedChar (hd (chars s))))"

text \<open>White space and comments give no token.\<close>

definition lex_space :: "str \<Rightarrow> LexError + str option" where
  "lex_space s =
     (let c = hd s in
      if c \<in> set '' '' \<union> {CHR 0x09, CR, LF} then Inr (Some (tl s))
      else if c = CHR ''#'' then Inr (Some (dropWhile (\<lambda>c. c \<noteq> LF) s))
      else if starts_with ''/*'' s then
        (case skip_comment (drop 2 s) of None \<Rightarrow> Inl Unterminated | Some rest \<Rightarrow> Inr (Some rest))
      else Inr None)"

lemma quoted_loop_shorter: "quoted_loop s = Inr (v, rest) \<Longrightarrow> length rest < length s"
proof (induction s arbitrary: v rest rule: quoted_loop.induct)
  case (2 c s)
  then show ?case
    by (auto simp: and_then_Inr_iff split: if_splits list.splits) fastforce+
qed simp

lemma multiline_loop_shorter: "multiline_loop s = Inr (ls, rest) \<Longrightarrow> length rest \<le> length s"
proof (induction s arbitrary: ls rest rule: multiline_loop.induct)
  case (1 s)
  let ?r = "dropWhile (\<lambda>c. c \<noteq> LF) s"
  have "length (tl ?r) \<le> length s"
    using length_dropWhile_le [of "\<lambda>c. c \<noteq> LF" s] by simp
  moreover have "length rest \<le> length (tl ?r)" if "s \<noteq> []"
    using 1(2) 1(1) [OF refl refl refl that] that unfolding multiline_loop.simps [of s]
    by (auto simp: Let_def and_then_Inr_iff split: if_splits)
  moreover have "s \<noteq> []"
    using 1(2) unfolding multiline_loop.simps [of s] by auto
  ultimately show ?case
    by simp
qed

lemma skip_comment_shorter: "skip_comment s = Some rest \<Longrightarrow> length rest < length s"
  by (induction s arbitrary: rest rule: skip_comment.induct) (auto split: if_splits simp: less_SucI)

lemma lex_number_shorter: "is_ascii_digit (hd s) \<Longrightarrow> s \<noteq> [] \<Longrightarrow> lex_number s = Inr (t, rest) \<Longrightarrow> length rest < length s"
proof -
  assume a: "is_ascii_digit (hd s)" "s \<noteq> []" "lex_number s = Inr (t, rest)"
  have "length (dropWhile is_ascii_digit s) < length s"
    using a(1, 2) length_dropWhile_le [of is_ascii_digit "tl s"] by (cases s) auto
  then show ?thesis
    using a(3) by (cases "dropWhile is_ascii_digit s") (auto simp: lex_number_def and_then_Inr_iff split: option.splits)
qed

lemma lex_identifier_shorter: "is_identifier_start (hd s) \<Longrightarrow> s \<noteq> [] \<Longrightarrow> length (dropWhile is_identifier_char s) < length s"
  using length_dropWhile_le [of is_identifier_char "tl s"]
  by (cases s) (auto simp: is_identifier_start_def is_identifier_char_def ascii_simps)

lemma lex_multiline_shorter: "lex_multiline s = Inr (t, rest) \<Longrightarrow> length rest \<le> length s"
  using multiline_loop_shorter [of "tl (dropWhile (\<lambda>c. c \<noteq> LF) s)"] length_dropWhile_le [of "\<lambda>c. c \<noteq> LF" s]
  by (fastforce simp: lex_multiline_def and_then_Inr_iff)

lemma lex_word_shorter:
  assumes "is_identifier_start (hd s)" "s \<noteq> []" "lex_word s = Inr (t, rest)"
  shows "length rest < length s"
  using assms(3) lex_identifier_shorter [OF assms(1, 2)] lex_multiline_shorter [of "tl (dropWhile is_identifier_char s)" t rest]
  by (auto simp: lex_word_def lex_identifier_def Let_def split: if_splits)

lemma lex_token_shorter:
  assumes "s \<noteq> []" "lex_token s = Inr (t, rest)"
  shows "length rest < length s"
proof (cases "punctuation (hd s)")
  case None
  consider "hd s = CHR 0x22" "lex_quoted s = Inr (t, rest)" | "lex_tag s = (t, rest)" | "is_ascii_digit (hd s)" "lex_number s = Inr (t, rest)"
    | "is_identifier_start (hd s)" "lex_word s = Inr (t, rest)"
    using assms(2) None by (auto simp: lex_token_def Let_def split: if_splits)
  then show ?thesis
  proof cases
    case 1
    then show ?thesis
      using quoted_loop_shorter [of "tl s"] assms(1) by (cases s) (fastforce simp: lex_quoted_def and_then_Inr_iff)+
  next
    case 2
    then show ?thesis
      using assms(1) length_dropWhile_le [of is_identifier_char "tl s"] by (cases s) (auto simp: lex_tag_def lex_identifier_def)
  next
    case 3
    then show ?thesis
      using lex_number_shorter assms(1) by blast
  next
    case 4
    then show ?thesis
      using lex_word_shorter assms(1) by blast
  qed
next
  case (Some p)
  then show ?thesis
    using assms by (cases s) (auto simp: lex_token_def)
qed

lemma lex_space_shorter:
  assumes "s \<noteq> []" "lex_space s = Inr (Some rest)"
  shows "length rest < length s"
proof -
  obtain c s' where s: "s = c # s'"
    using assms(1) by (cases s) auto
  have "length (dropWhile (\<lambda>c. c \<noteq> LF) s') \<le> length s'"
    by (rule length_dropWhile_le)
  then show ?thesis
    using assms(2) skip_comment_shorter [of "drop 2 s" rest] unfolding lex_space_def Let_def s
    by (auto split: if_splits option.splits)
qed

function tokenize :: "str \<Rightarrow> LexError + Token list" where
  "tokenize s =
     (if s = [] then Inr []
      else
        (case lex_space s of
           Inl e \<Rightarrow> Inl e
         | Inr (Some rest) \<Rightarrow> tokenize rest
         | Inr None \<Rightarrow>
             (case lex_token s of
                Inl e \<Rightarrow> Inl e
              | Inr (t, rest) \<Rightarrow> and_then (tokenize rest) (\<lambda>ts. Inr (t # ts)))))"
  by pat_completeness auto
termination
  by (relation "measure length") (auto simp: lex_space_shorter lex_token_shorter)

declare tokenize.simps [simp del]

section \<open>Parser\<close>

text \<open>The last constructor is the model's own: the recursion of the parser runs on fuel. It is never returned by
  \<open>sieve_parse\<close>, as shown below.\<close>

datatype SieveError = UnexpectedEof | UnexpectedToken Token | Expected str | OutOfFuel

type_synonym 'a parser = "Token list \<Rightarrow> SieveError + ('a \<times> Token list)"

text \<open>What an error message puts in single quotes.\<close>

definition ticked :: "char \<Rightarrow> str" where
  "ticked c = [CHR 0x27, c, CHR 0x27]"

definition p_identifier :: "str parser" where
  "p_identifier ts =
     (case ts of
        [] \<Rightarrow> Inl UnexpectedEof
      | t # r \<Rightarrow> (case t of TIdentifier name \<Rightarrow> Inr (name, r) | _ \<Rightarrow> Inl (UnexpectedToken t)))"

definition p_eat :: "Token \<Rightarrow> str \<Rightarrow> unit parser" where
  "p_eat expected what ts =
     (case ts of
        [] \<Rightarrow> Inl (Expected what)
      | t # r \<Rightarrow> if t = expected then Inr ((), r) else Inl (Expected what))"

fun token_string :: "Token \<Rightarrow> str option" where
  "token_string (TQuoted v) = Some v"
| "token_string (TMultiLine v) = Some v"
| "token_string _ = None"

text \<open>The loop of \<^verbatim>\<open>string_list\<close>, from behind the bracket on.\<close>

fun string_items :: "str list parser" where
  "string_items [] = Inl UnexpectedEof"
| "string_items (t # r) =
     (case token_string t of
        None \<Rightarrow> Inl (UnexpectedToken t)
      | Some v \<Rightarrow>
          (case r of
             [] \<Rightarrow> Inl UnexpectedEof
           | d # r' \<Rightarrow>
               if d = Comma then and_then (string_items r') (\<lambda>(vs, r). Inr (v # vs, r))
               else if d = BracketClose then Inr ([v], r')
               else Inl (UnexpectedToken d)))"

definition string_list :: "Argument parser" where
  "string_list ts = and_then (p_eat BracketOpen (ticked CHR ''['') ts) (\<lambda>(_, r). and_then (string_items r) (\<lambda>(vs, r). Inr (ArgList vs, r)))"

lemma string_items_shorter: "string_items ts = Inr (vs, r) \<Longrightarrow> length r < length ts"
  by (induction ts arbitrary: vs r rule: string_items.induct)
    (fastforce simp: and_then_Inr_iff split: option.splits list.splits if_splits)+

lemma string_list_shorter: "string_list ts = Inr (x, r) \<Longrightarrow> length r < length ts"
  by (cases ts) (auto simp: string_list_def p_eat_def and_then_Inr_iff split: if_splits dest: string_items_shorter)

definition simple_argument :: "Token \<Rightarrow> Argument option" where
  "simple_argument t =
     (case t of
        TTag name \<Rightarrow> Some (ArgTag name)
      | TNumber n \<Rightarrow> Some (ArgNumber n)
      | TQuoted v \<Rightarrow> Some (ArgStr v)
      | TMultiLine v \<Rightarrow> Some (ArgStr v)
      | _ \<Rightarrow> None)"

function p_arguments :: "Argument list parser" where
  "p_arguments ts =
     (case ts of
        [] \<Rightarrow> Inr ([], ts)
      | t # r \<Rightarrow>
          (case simple_argument t of
             Some a \<Rightarrow> and_then (p_arguments r) (\<lambda>(as, r). Inr (a # as, r))
           | None \<Rightarrow>
               if t = BracketOpen then
                 (case string_list ts of
                    Inl e \<Rightarrow> Inl e
                  | Inr (a, r) \<Rightarrow> and_then (p_arguments r) (\<lambda>(as, r). Inr (a # as, r)))
               else Inr ([], ts)))"
  by pat_completeness auto
termination
  by (relation "measure length") (auto dest: string_list_shorter)

declare p_arguments.simps [simp del]

text \<open>The recursion through nested tests and blocks runs on fuel, one unit for each level and element; the loops take
  the parser of what they repeat as an argument.\<close>

primrec p_test_list :: "Test parser \<Rightarrow> nat \<Rightarrow> Test list parser" where
  "p_test_list p 0 ts = Inl OutOfFuel"
| "p_test_list p (Suc m) ts =
     and_then (p ts) (\<lambda>(t, r).
     if r \<noteq> [] \<and> hd r = Comma then and_then (p_test_list p m (tl r)) (\<lambda>(tests, r). Inr (t # tests, r)) else Inr ([t], r))"

primrec p_test :: "nat \<Rightarrow> Test parser" where
  "p_test 0 ts = Inl OutOfFuel"
| "p_test (Suc n) ts =
     and_then (p_identifier ts) (\<lambda>(name, r).
     if name = ''allof'' \<or> name = ''anyof'' then
       and_then (p_eat ParenOpen (ticked CHR ''('' @ '' after test list'') r) (\<lambda>(_, r).
       and_then (p_test_list (p_test n) (Suc (length r)) r) (\<lambda>(children, r).
       and_then (p_eat ParenClose (ticked CHR '')'' @ '' after test list'') r) (\<lambda>(_, r). Inr (Test name [] children, r))))
     else if name = ''not'' then and_then (p_test n r) (\<lambda>(inner, r). Inr (Test name [] [inner], r))
     else and_then (p_arguments r) (\<lambda>(args, r). Inr (Test name args [], r)))"

definition p_block :: "SieveCommand list parser \<Rightarrow> SieveCommand list parser" where
  "p_block cmds ts =
     and_then (p_eat BraceOpen (ticked CHR ''{'') ts) (\<lambda>(_, r).
     and_then (cmds r) (\<lambda>(body, r).
     and_then (p_eat BraceClose (ticked CHR ''}'') r) (\<lambda>(_, r). Inr (body, r))))"

definition p_branch :: "SieveCommand list parser \<Rightarrow> Branch parser" where
  "p_branch cmds ts =
     and_then (p_test (Suc (length ts)) ts) (\<lambda>(t, r). and_then (p_block cmds r) (\<lambda>(body, r). Inr (Branch t body, r)))"

primrec p_elsifs :: "SieveCommand list parser \<Rightarrow> nat \<Rightarrow> Branch list parser" where
  "p_elsifs cmds 0 ts = Inl OutOfFuel"
| "p_elsifs cmds (Suc m) ts =
     (if ts \<noteq> [] \<and> hd ts = TIdentifier ''elsif'' then
        and_then (p_branch cmds (tl ts)) (\<lambda>(b, r). and_then (p_elsifs cmds m r) (\<lambda>(bs, r). Inr (b # bs, r)))
      else Inr ([], ts))"

definition p_conditional :: "SieveCommand list parser \<Rightarrow> Conditional parser" where
  "p_conditional cmds ts =
     and_then (p_branch cmds ts) (\<lambda>(b, r).
     and_then (p_elsifs cmds (Suc (length r)) r) (\<lambda>(bs, r).
     if r \<noteq> [] \<and> hd r = TIdentifier ''else'' then
       and_then (p_block cmds (tl r)) (\<lambda>(body, r). Inr (Conditional (b # bs) (Some body), r))
     else Inr (Conditional (b # bs) None, r)))"

definition p_command :: "SieveCommand list parser \<Rightarrow> SieveCommand parser" where
  "p_command cmds ts =
     and_then (p_identifier ts) (\<lambda>(name, r).
     if name = ''if'' then and_then (p_conditional cmds r) (\<lambda>(c, r). Inr (If c, r))
     else
       and_then (p_arguments r) (\<lambda>(args, r).
       and_then (p_eat Semicolon (ticked CHR '';'' @ '' after action'') r) (\<lambda>(_, r). Inr (Action name args, r))))"

primrec p_commands :: "nat \<Rightarrow> bool \<Rightarrow> SieveCommand list parser" where
  "p_commands 0 in_block ts = Inl OutOfFuel"
| "p_commands (Suc n) in_block ts =
     (if ts = [] \<or> in_block \<and> hd ts = BraceClose then Inr ([], ts)
      else
        and_then (p_command (p_commands n True) ts) (\<lambda>(c, r).
        and_then (p_commands n in_block r) (\<lambda>(cs, r). Inr (c # cs, r))))"

definition sieve_parse :: "Token list \<Rightarrow> SieveError + SieveCommand list" where
  "sieve_parse ts =
     and_then (p_commands (Suc (length ts)) False ts) (\<lambda>(cs, r).
     if r \<noteq> [] then Inl (UnexpectedToken (hd r)) else Inr cs)"

section \<open>Canonical token streams\<close>

text \<open>
  The reference for the parser: the token stream each syntax tree stands for, and the trees that stand for one. A
  multi-line literal and a quoted string of the same value are the same token here, as the tree does not keep which of the
  two it was.
\<close>

fun plain_token :: "Token \<Rightarrow> Token" where
  "plain_token (TMultiLine v) = TQuoted v"
| "plain_token t = t"

fun separated :: "'a \<Rightarrow> 'a list list \<Rightarrow> 'a list" where
  "separated d [] = []"
| "separated d [x] = x"
| "separated d (x # y # xs) = x @ d # separated d (y # xs)"

fun argument_tokens :: "Argument \<Rightarrow> Token list" where
  "argument_tokens (ArgStr v) = [TQuoted v]"
| "argument_tokens (ArgList vs) = BracketOpen # separated Comma (map (\<lambda>v. [TQuoted v]) vs) @ [BracketClose]"
| "argument_tokens (ArgNumber n) = [TNumber n]"
| "argument_tokens (ArgTag name) = [TTag name]"

definition arguments_tokens :: "Argument list \<Rightarrow> Token list" where
  "arguments_tokens args = concat (map argument_tokens args)"

fun argument_ok :: "Argument \<Rightarrow> bool" where
  "argument_ok (ArgList vs) \<longleftrightarrow> vs \<noteq> []"
| "argument_ok _ \<longleftrightarrow> True"

fun test_tokens :: "Test \<Rightarrow> Token list" where
  "test_tokens (Test name args children) =
     TIdentifier name #
     (if name = ''allof'' \<or> name = ''anyof'' then ParenOpen # separated Comma (map test_tokens children) @ [ParenClose]
      else if name = ''not'' then concat (map test_tokens children)
      else arguments_tokens args)"

fun test_ok :: "Test \<Rightarrow> bool" where
  "test_ok (Test name args children) \<longleftrightarrow>
     (if name = ''allof'' \<or> name = ''anyof'' then args = [] \<and> children \<noteq> [] \<and> list_all test_ok children
      else if name = ''not'' then args = [] \<and> length children = 1 \<and> list_all test_ok children
      else children = [] \<and> list_all argument_ok args)"

fun command_tokens :: "SieveCommand \<Rightarrow> Token list"
  and conditional_tokens :: "Conditional \<Rightarrow> Token list"
  and branch_tokens :: "Branch \<Rightarrow> Token list" where
  "command_tokens (Action name args) = TIdentifier name # arguments_tokens args @ [Semicolon]"
| "command_tokens (If c) = TIdentifier ''if'' # conditional_tokens c"
| "conditional_tokens (Conditional bs els) =
     separated (TIdentifier ''elsif'') (map branch_tokens bs) @
     (case els of
        None \<Rightarrow> []
      | Some body \<Rightarrow> TIdentifier ''else'' # BraceOpen # concat (map command_tokens body) @ [BraceClose])"
| "branch_tokens (Branch t body) = test_tokens t @ BraceOpen # concat (map command_tokens body) @ [BraceClose]"

definition script_tokens :: "SieveCommand list \<Rightarrow> Token list" where
  "script_tokens cs = concat (map command_tokens cs)"

text \<open>An \<^verbatim>\<open>if\<close> without \<^verbatim>\<open>else\<close> claims an identifier \<^verbatim>\<open>elsif\<close> or \<^verbatim>\<open>else\<close> that follows it; elsewhere those are names
  of actions like any other.\<close>

fun claims :: "SieveCommand \<Rightarrow> bool" where
  "claims (Action name args) = False"
| "claims (If c) = (c_otherwise c = None)"

definition claimed :: "Token list \<Rightarrow> bool" where
  "claimed ts \<longleftrightarrow> ts \<noteq> [] \<and> (hd ts = TIdentifier ''elsif'' \<or> hd ts = TIdentifier ''else'')"

fun unclaimed :: "SieveCommand list \<Rightarrow> bool" where
  "unclaimed (c # d # cs) \<longleftrightarrow> (claims c \<longrightarrow> \<not> claimed (command_tokens d)) \<and> unclaimed (d # cs)"
| "unclaimed _ \<longleftrightarrow> True"

fun command_ok :: "SieveCommand \<Rightarrow> bool" and conditional_ok :: "Conditional \<Rightarrow> bool" and branch_ok :: "Branch \<Rightarrow> bool" where
  "command_ok (Action name args) \<longleftrightarrow> name \<noteq> ''if'' \<and> list_all argument_ok args"
| "command_ok (If c) \<longleftrightarrow> conditional_ok c"
| "conditional_ok (Conditional bs els) \<longleftrightarrow>
     bs \<noteq> [] \<and> list_all branch_ok bs \<and>
     (case els of None \<Rightarrow> True | Some body \<Rightarrow> list_all command_ok body \<and> unclaimed body)"
| "branch_ok (Branch t body) \<longleftrightarrow> test_ok t \<and> list_all command_ok body \<and> unclaimed body"

definition script_ok :: "SieveCommand list \<Rightarrow> bool" where
  "script_ok cs \<longleftrightarrow> list_all command_ok cs \<and> unclaimed cs"

section \<open>The parser accepts the canonical streams only\<close>

text \<open>\<open>reads p f ok\<close>: what \<open>p\<close> returns is a tree that is \<open>ok\<close>, and the tokens it has consumed are those of \<open>f\<close>.\<close>

definition reads :: "'a parser \<Rightarrow> ('a \<Rightarrow> Token list) \<Rightarrow> ('a \<Rightarrow> bool) \<Rightarrow> bool" where
  "reads p f ok \<longleftrightarrow> (\<forall>ts x r. p ts = Inr (x, r) \<longrightarrow> map plain_token ts = f x @ map plain_token r \<and> ok x)"

lemma readsI: "(\<And>ts x r. p ts = Inr (x, r) \<Longrightarrow> map plain_token ts = f x @ map plain_token r \<and> ok x) \<Longrightarrow> reads p f ok"
  by (simp add: reads_def)

lemma readsD: "reads p f ok \<Longrightarrow> p ts = Inr (x, r) \<Longrightarrow> map plain_token ts = f x @ map plain_token r \<and> ok x"
  by (simp add: reads_def)

lemma reads_shorter: "reads p f ok \<Longrightarrow> p ts = Inr (x, r) \<Longrightarrow> length ts = length (f x) + length r"
  by (metis length_append length_map readsD)

lemma plain_token_iff [simp]:
  "plain_token t = TIdentifier n \<longleftrightarrow> t = TIdentifier n"
  "plain_token t = TTag n \<longleftrightarrow> t = TTag n"
  "plain_token t = TNumber k \<longleftrightarrow> t = TNumber k"
  "plain_token t = BracketOpen \<longleftrightarrow> t = BracketOpen"
  "plain_token t = BracketClose \<longleftrightarrow> t = BracketClose"
  "plain_token t = ParenOpen \<longleftrightarrow> t = ParenOpen"
  "plain_token t = ParenClose \<longleftrightarrow> t = ParenClose"
  "plain_token t = BraceOpen \<longleftrightarrow> t = BraceOpen"
  "plain_token t = BraceClose \<longleftrightarrow> t = BraceClose"
  "plain_token t = Comma \<longleftrightarrow> t = Comma"
  "plain_token t = Semicolon \<longleftrightarrow> t = Semicolon"
  "plain_token t = TQuoted v \<longleftrightarrow> token_string t = Some v"
  by (cases t; auto)+

lemma p_identifier_iff: "p_identifier ts = Inr (name, r) \<longleftrightarrow> ts = TIdentifier name # r"
  by (auto simp: p_identifier_def split: list.splits Token.splits)

lemma p_eat_iff: "p_eat t what ts = Inr (u, r) \<longleftrightarrow> ts = t # r"
  by (auto simp: p_eat_def split: list.splits)

lemma separated_Cons: "separated d (x # xs) = x @ (if xs = [] then [] else d # separated d xs)"
  by (cases xs) auto

lemma string_items_reads: "reads string_items (\<lambda>vs. separated Comma (map (\<lambda>v. [TQuoted v]) vs) @ [BracketClose]) (\<lambda>vs. vs \<noteq> [])"
proof (rule readsI)
  fix ts vs r
  show "string_items ts = Inr (vs, r) \<Longrightarrow>
    map plain_token ts = (separated Comma (map (\<lambda>v. [TQuoted v]) vs) @ [BracketClose]) @ map plain_token r \<and> vs \<noteq> []"
    by (induction ts arbitrary: vs r rule: string_items.induct)
      (auto simp: and_then_Inr_iff separated_Cons split: option.splits list.splits if_splits)
qed

lemma string_list_reads: "reads string_list argument_tokens argument_ok"
  by (rule readsI) (auto simp: string_list_def and_then_Inr_iff p_eat_iff dest: readsD [OF string_items_reads])

lemma simple_argument_tokens:
  "simple_argument t = Some a \<Longrightarrow> argument_tokens a = [plain_token t] \<and> argument_ok a"
  by (cases t) (auto simp: simple_argument_def)

lemma p_arguments_Nil [simp]: "p_arguments [] = Inr ([], [])"
  by (simp add: p_arguments.simps)

lemma p_arguments_Cons:
  "p_arguments (t # r) =
     (case simple_argument t of
        Some a \<Rightarrow> and_then (p_arguments r) (\<lambda>(as, r). Inr (a # as, r))
      | None \<Rightarrow>
          if t = BracketOpen then
            and_then (string_list (t # r)) (\<lambda>(a, r). and_then (p_arguments r) (\<lambda>(as, r). Inr (a # as, r)))
          else Inr ([], t # r))"
  by (subst p_arguments.simps) (auto simp: and_then_def split: option.splits sum.splits)

lemma p_arguments_reads: "reads p_arguments arguments_tokens (list_all argument_ok)"
proof (rule readsI)
  fix ts args r
  show "p_arguments ts = Inr (args, r) \<Longrightarrow> map plain_token ts = arguments_tokens args @ map plain_token r \<and> list_all argument_ok args"
  proof (induction ts arbitrary: args r rule: p_arguments.induct)
    case (1 ts)
    show ?case
    proof (cases ts)
      case Nil
      then show ?thesis
        using 1(3) by (auto simp: arguments_tokens_def)
    next
      case (Cons t r0)
      show ?thesis
      proof (cases "simple_argument t")
        case (Some a)
        then show ?thesis
          using 1(3) 1(2) [OF Cons Some] Cons simple_argument_tokens [OF Some]
          by (auto simp: p_arguments_Cons and_then_Inr_iff arguments_tokens_def)
      next
        case None
        show ?thesis
        proof (cases "t = BracketOpen")
          case True
          then show ?thesis
            using 1(3) 1(1) [OF Cons None True _ refl] Cons None readsD [OF string_list_reads, of ts]
            by (auto simp: p_arguments_Cons and_then_Inr_iff arguments_tokens_def)
        next
          case False
          then show ?thesis
            using 1(3) Cons None by (auto simp: p_arguments_Cons arguments_tokens_def)
        qed
      qed
    qed
  qed
qed

lemma p_test_list_reads:
  assumes "reads p f ok"
  shows "reads (p_test_list p m) (\<lambda>tests. separated Comma (map f tests)) (\<lambda>tests. tests \<noteq> [] \<and> list_all ok tests)"
proof (induction m)
  case (Suc m)
  show ?case
    by (rule readsI) (force simp: and_then_Inr_iff separated_Cons neq_Nil_conv split: if_splits
      dest: readsD [OF assms] readsD [OF Suc.IH])
qed (simp add: reads_def)

lemma p_test_reads: "reads (p_test n) test_tokens test_ok"
proof (induction n)
  case (Suc n)
  show ?case
    by (rule readsI) (auto simp: and_then_Inr_iff p_identifier_iff p_eat_iff split: if_splits simp del: p_test_list.simps
      dest!: readsD [OF p_test_list_reads [OF Suc.IH]] readsD [OF Suc.IH] readsD [OF p_arguments_reads])
qed (simp add: reads_def)

lemma p_block_reads:
  assumes "reads cmds script_tokens script_ok"
  shows "reads (p_block cmds) (\<lambda>body. BraceOpen # script_tokens body @ [BraceClose]) script_ok"
  by (rule readsI) (auto simp: p_block_def and_then_Inr_iff p_eat_iff dest!: readsD [OF assms])

lemma p_branch_reads:
  assumes "reads cmds script_tokens script_ok"
  shows "reads (p_branch cmds) branch_tokens branch_ok"
proof (rule readsI)
  fix ts b r
  assume "p_branch cmds ts = Inr (b, r)"
  then obtain t r' body where *: "p_test (Suc (length ts)) ts = Inr (t, r')" "p_block cmds r' = Inr (body, r)" "b = Branch t body"
    by (auto simp: p_branch_def and_then_Inr_iff simp del: p_test.simps)
  then show "map plain_token ts = branch_tokens b @ map plain_token r \<and> branch_ok b"
    using readsD [OF p_test_reads *(1)] readsD [OF p_block_reads [OF assms] *(2)] by (simp add: script_tokens_def script_ok_def)
qed

lemma p_elsifs_reads:
  assumes "reads cmds script_tokens script_ok"
  shows "reads (p_elsifs cmds m) (\<lambda>bs. concat (map (\<lambda>b. TIdentifier ''elsif'' # branch_tokens b) bs)) (list_all branch_ok)"
proof (induction m)
  case (Suc m)
  show ?case
    by (rule readsI) (force simp: and_then_Inr_iff neq_Nil_conv split: if_splits
      dest: readsD [OF p_branch_reads [OF assms]] readsD [OF Suc.IH])
qed (simp add: reads_def)

lemma p_elsifs_rest: "p_elsifs cmds m ts = Inr (bs, r) \<Longrightarrow> \<not> (r \<noteq> [] \<and> hd r = TIdentifier ''elsif'')"
  by (induction m arbitrary: ts bs) (auto simp: and_then_Inr_iff split: if_splits)

lemma separated_elsif:
  "separated d (map f (x # xs)) = f x @ concat (map (\<lambda>x. d # f x) xs)"
  by (induction xs arbitrary: x) auto

lemma p_conditional_reads:
  assumes "reads cmds script_tokens script_ok" "p_conditional cmds ts = Inr (c, r)"
  shows "map plain_token ts = conditional_tokens c @ map plain_token r \<and> conditional_ok c \<and> (c_otherwise c = None \<longrightarrow> \<not> claimed r)"
proof -
  obtain b r1 bs r2 where 1: "p_branch cmds ts = Inr (b, r1)" "p_elsifs cmds (Suc (length r1)) r1 = Inr (bs, r2)"
    and 2: "if r2 \<noteq> [] \<and> hd r2 = TIdentifier ''else''
      then \<exists>body. p_block cmds (tl r2) = Inr (body, r) \<and> c = Conditional (b # bs) (Some body)
      else r = r2 \<and> c = Conditional (b # bs) None"
    using assms(2) by (auto simp: p_conditional_def and_then_Inr_iff simp del: p_elsifs.simps split: if_splits)
  have "map plain_token ts = separated (TIdentifier ''elsif'') (map branch_tokens (b # bs)) @ map plain_token r2" "list_all branch_ok (b # bs)"
    using readsD [OF p_branch_reads [OF assms(1)] 1(1)] readsD [OF p_elsifs_reads [OF assms(1)] 1(2)]
    unfolding separated_elsif by simp_all
  then show ?thesis
    using 2 p_elsifs_rest [OF 1(2)]
    by (cases r2) (auto simp: claimed_def script_tokens_def script_ok_def split: if_splits
      dest!: readsD [OF p_block_reads [OF assms(1)]] simp del: separated.simps)
qed

lemma p_command_reads:
  assumes "reads cmds script_tokens script_ok" "p_command cmds ts = Inr (c, r)"
  shows "map plain_token ts = command_tokens c @ map plain_token r \<and> command_ok c \<and> (claims c \<longrightarrow> \<not> claimed r)"
  using assms(2) by (auto simp: p_command_def and_then_Inr_iff p_identifier_iff p_eat_iff split: if_splits
    dest!: p_conditional_reads [OF assms(1)] readsD [OF p_arguments_reads])

lemma command_tokens_Cons: "command_tokens c \<noteq> []"
  by (cases c) auto

lemma claimed_plain [simp]: "claimed (map plain_token ts) \<longleftrightarrow> claimed ts"
  by (cases ts) (auto simp: claimed_def)

lemma claimed_append [simp]: "claimed (command_tokens c @ ts) \<longleftrightarrow> claimed (command_tokens c)"
  by (auto simp: claimed_def command_tokens_Cons)

lemma script_tokens_simps [simp]:
  "script_tokens [] = []"
  "script_tokens (c # cs) = command_tokens c @ script_tokens cs"
  by (simp_all add: script_tokens_def)

lemma script_ok_Cons:
  "script_ok (c # cs) \<longleftrightarrow> command_ok c \<and> script_ok cs \<and> (cs = [] \<or> \<not> claims c \<or> \<not> claimed (script_tokens cs))"
  by (cases cs) (auto simp: script_ok_def)

lemma p_commands_reads: "reads (p_commands n in_block) script_tokens script_ok"
proof (induction n arbitrary: in_block)
  case (Suc n)
  show ?case
  proof (rule readsI)
    fix ts cs r
    assume *: "p_commands (Suc n) in_block ts = Inr (cs, r)"
    show "map plain_token ts = script_tokens cs @ map plain_token r \<and> script_ok cs"
    proof (cases "ts = [] \<or> in_block \<and> hd ts = BraceClose")
      case True
      then show ?thesis
        using * by (auto simp: script_ok_def)
    next
      case False
      then obtain c r' cs' where c: "p_command (p_commands n True) ts = Inr (c, r')"
        and cs': "p_commands n in_block r' = Inr (cs', r)" "cs = c # cs'"
        using * by (auto simp: and_then_Inr_iff)
      have "cs' = [] \<or> claimed r' \<longleftrightarrow> cs' = [] \<or> claimed (script_tokens cs')"
        using readsD [OF Suc.IH cs'(1)] claimed_plain [of r', symmetric] by (cases cs') auto
      then show ?thesis
        using p_command_reads [OF Suc.IH c] readsD [OF Suc.IH cs'(1)] cs'(2) by (auto simp: script_ok_Cons)
    qed
  qed
qed (simp add: reads_def)

section \<open>The fuel is enough\<close>

text \<open>\<open>fuelled n p\<close>: on fewer than \<open>n\<close> tokens, \<open>p\<close> does not run out of fuel.\<close>

definition fuelled :: "nat \<Rightarrow> 'a parser \<Rightarrow> bool" where
  "fuelled n p \<longleftrightarrow> (\<forall>ts. length ts < n \<longrightarrow> p ts \<noteq> Inl OutOfFuel)"

lemma fuelledI: "(\<And>ts. length ts < n \<Longrightarrow> p ts \<noteq> Inl OutOfFuel) \<Longrightarrow> fuelled n p"
  by (simp add: fuelled_def)

lemma fuelledD: "fuelled n p \<Longrightarrow> p ts = Inl OutOfFuel \<Longrightarrow> n \<le> length ts"
  by (meson fuelled_def not_le)

lemma p_identifier_fuelled [simp]: "p_identifier ts \<noteq> Inl OutOfFuel"
  by (simp add: p_identifier_def split: list.split Token.split)

lemma p_eat_fuelled [simp]: "p_eat t what ts \<noteq> Inl OutOfFuel"
  by (simp add: p_eat_def split: list.split)

lemma string_items_fuelled [simp]: "string_items ts \<noteq> Inl OutOfFuel"
  by (induction ts rule: string_items.induct) (auto simp: and_then_Inl_iff split: option.split list.split)

lemma string_list_fuelled [simp]: "string_list ts \<noteq> Inl OutOfFuel"
  by (auto simp: string_list_def and_then_Inl_iff)

lemma p_arguments_fuelled [simp]: "p_arguments ts \<noteq> Inl OutOfFuel"
proof (induction ts rule: p_arguments.induct)
  case (1 ts)
  show ?case
    using 1(1) [OF _ _ _ _ refl] 1(2)
    by (cases ts) (auto simp: p_arguments_Cons and_then_Inl_iff split: option.split)
qed

lemma p_test_list_fuelled:
  assumes "reads p f ok" "fuelled n p"
  shows "p_test_list p m ts = Inl OutOfFuel \<Longrightarrow> m \<le> length ts \<or> n \<le> length ts"
proof (induction m arbitrary: ts)
  case (Suc m)
  have tl: "m < length r \<or> n < length r" if "p_test_list p m (tl r) = Inl OutOfFuel" "r \<noteq> []" for r
    using Suc.IH [OF that(1)] that(2) by (cases r) auto
  show ?case
    using Suc.prems
    by (auto simp: and_then_Inl_iff split: if_splits dest: fuelledD [OF assms(2)] dest!: tl reads_shorter [OF assms(1)])
qed simp

lemma p_test_fuelled: "fuelled n (p_test n)"
proof (induction n)
  case (Suc n)
  show ?case
    by (rule fuelledI) (auto simp: and_then_Inl_iff p_identifier_iff p_eat_iff simp del: p_test_list.simps split: if_splits
      dest: fuelledD [OF Suc.IH] p_test_list_fuelled [OF p_test_reads Suc.IH])
qed (simp add: fuelled_def)

lemma p_block_fuelled:
  assumes "fuelled n cmds"
  shows "p_block cmds ts = Inl OutOfFuel \<Longrightarrow> n < length ts"
  by (auto simp: p_block_def and_then_Inl_iff p_eat_iff dest: fuelledD [OF assms])

lemma p_branch_fuelled:
  assumes "fuelled n cmds"
  shows "p_branch cmds ts = Inl OutOfFuel \<Longrightarrow> n < length ts"
  by (auto simp: p_branch_def and_then_Inl_iff simp del: p_test.simps
    dest!: fuelledD [OF p_test_fuelled] p_block_fuelled [OF assms] reads_shorter [OF p_test_reads])

lemma p_elsifs_fuelled:
  assumes "reads cmds script_tokens script_ok" "fuelled n cmds"
  shows "p_elsifs cmds m ts = Inl OutOfFuel \<Longrightarrow> m \<le> length ts \<or> n < length ts"
proof (induction m arbitrary: ts)
  case (Suc m)
  then show ?case
    by (cases ts) (auto simp: and_then_Inl_iff split: if_splits
      dest!: Suc.IH p_branch_fuelled [OF assms(2)] reads_shorter [OF p_branch_reads [OF assms(1)]])
qed simp

lemma p_conditional_fuelled:
  assumes "reads cmds script_tokens script_ok" "fuelled n cmds"
  shows "p_conditional cmds ts = Inl OutOfFuel \<Longrightarrow> n < length ts"
  by (auto simp: p_conditional_def and_then_Inl_iff simp del: p_elsifs.simps split: if_splits
    dest!: p_branch_fuelled [OF assms(2)] p_elsifs_fuelled [OF assms] p_block_fuelled [OF assms(2)]
      reads_shorter [OF p_branch_reads [OF assms(1)]] reads_shorter [OF p_elsifs_reads [OF assms(1)]])

lemma p_commands_fuelled: "fuelled n (p_commands n in_block)"
proof (induction n arbitrary: in_block)
  case (Suc n)
  have 1: "p_command (p_commands n True) ts \<noteq> Inl OutOfFuel" if "length ts < Suc n" for ts
    using that by (auto simp: p_command_def and_then_Inl_iff p_identifier_iff split: if_splits
      dest!: p_conditional_fuelled [OF p_commands_reads Suc.IH])
  have 2: "length r < length ts" if "p_command (p_commands n True) ts = Inr (c, r)" for ts c r
    using p_command_reads [OF p_commands_reads that] command_tokens_Cons [of c]
    by (metis length_append length_greater_0_conv length_map less_add_same_cancel2)
  show ?case
    by (rule fuelledI) (auto simp: and_then_Inl_iff 1 dest!: fuelledD [OF Suc.IH] 2)
qed (simp add: fuelled_def)

lemma sieve_parse_fuelled: "sieve_parse ts \<noteq> Inl OutOfFuel"
  using fuelledD [OF p_commands_fuelled, of "Suc (length ts)" False ts]
  by (auto simp: sieve_parse_def and_then_Inl_iff simp del: p_commands.simps split: if_splits)

section \<open>The parser accepts every canonical stream\<close>

text \<open>\<open>accepts n p f ok F\<close>: on fewer than \<open>n\<close> tokens that start with those of an \<open>ok\<close> tree and go on with what \<open>F\<close>
  allows, \<open>p\<close> returns that tree and what follows it.\<close>

definition accepts :: "nat \<Rightarrow> 'a parser \<Rightarrow> ('a \<Rightarrow> Token list) \<Rightarrow> ('a \<Rightarrow> bool) \<Rightarrow> ('a \<Rightarrow> Token list \<Rightarrow> bool) \<Rightarrow> bool" where
  "accepts n p f ok F \<longleftrightarrow>
     (\<forall>ts x rs. length ts < n \<longrightarrow> map plain_token ts = f x @ rs \<longrightarrow> ok x \<longrightarrow> F x rs \<longrightarrow> (\<exists>r. p ts = Inr (x, r) \<and> map plain_token r = rs))"

lemma acceptsI:
  "(\<And>ts x rs. length ts < n \<Longrightarrow> map plain_token ts = f x @ rs \<Longrightarrow> ok x \<Longrightarrow> F x rs \<Longrightarrow> \<exists>r. p ts = Inr (x, r) \<and> map plain_token r = rs) \<Longrightarrow>
   accepts n p f ok F"
  by (simp add: accepts_def)

lemma acceptsD:
  "accepts n p f ok F \<Longrightarrow> map plain_token ts = f x @ rs \<Longrightarrow> length ts < n \<Longrightarrow> ok x \<Longrightarrow> F x rs \<Longrightarrow>
   \<exists>r. p ts = Inr (x, r) \<and> map plain_token r = rs"
  unfolding accepts_def by blast

definition starts_argument :: "Token list \<Rightarrow> bool" where
  "starts_argument ts \<longleftrightarrow> ts \<noteq> [] \<and> (simple_argument (hd ts) \<noteq> None \<or> hd ts = BracketOpen)"

lemma simple_argument_plain [simp]: "simple_argument (plain_token t) = simple_argument t"
  by (cases t) (simp_all add: simple_argument_def)

lemma starts_argument_simps [simp]:
  "\<not> starts_argument []" "\<not> starts_argument (Semicolon # ts)" "\<not> starts_argument (Comma # ts)"
  "\<not> starts_argument (ParenClose # ts)" "\<not> starts_argument (BraceOpen # ts)"
  by (simp_all add: starts_argument_def simple_argument_def)

lemma string_items_accepts:
  "vs \<noteq> [] \<Longrightarrow> map plain_token ts = separated Comma (map (\<lambda>v. [TQuoted v]) vs) @ BracketClose # rs \<Longrightarrow>
   \<exists>r. string_items ts = Inr (vs, r) \<and> map plain_token r = rs"
proof (induction vs arbitrary: ts)
  case (Cons v vs)
  then show ?case
    by (cases "vs = []") (fastforce simp: separated_Cons map_eq_Cons_conv)+
qed simp

lemma argument_cases:
  assumes "argument_ok a" "map plain_token ts = argument_tokens a @ rs"
  obtains t r where "ts = t # r" "simple_argument t = Some a" "map plain_token r = rs"
  | r where "hd ts = BracketOpen" "ts \<noteq> []" "string_list ts = Inr (a, r)" "map plain_token r = rs"
proof (cases a)
  case (ArgList vs)
  then obtain r0 where ts: "ts = BracketOpen # r0"
    and "map plain_token r0 = separated Comma (map (\<lambda>v. [TQuoted v]) vs) @ BracketClose # rs"
    using assms by (auto simp: map_eq_Cons_conv)
  then obtain r where "string_items r0 = Inr (vs, r)" "map plain_token r = rs"
    using string_items_accepts [of vs r0 rs] ArgList assms(1) by auto
  then show ?thesis
    using that(2) [of r] ts ArgList by (simp add: string_list_def p_eat_def)
next
  case (ArgStr v)
  then obtain t r where "ts = t # r" "token_string t = Some v" "map plain_token r = rs"
    using assms by (auto simp: map_eq_Cons_conv)
  then show ?thesis
    using that(1) ArgStr by (cases t) (auto simp: simple_argument_def)
qed (use assms that(1) in \<open>auto simp: map_eq_Cons_conv simple_argument_def\<close>)

lemma p_arguments_accepts:
  "map plain_token ts = arguments_tokens args @ rs \<Longrightarrow> list_all argument_ok args \<Longrightarrow> \<not> starts_argument rs \<Longrightarrow>
   \<exists>r. p_arguments ts = Inr (args, r) \<and> map plain_token r = rs"
proof (induction args arbitrary: ts)
  case Nil
  then show ?case
    by (cases ts) (auto simp: p_arguments_Cons arguments_tokens_def starts_argument_def split: option.split)
next
  case (Cons a args)
  have "argument_ok a" "map plain_token ts = argument_tokens a @ (arguments_tokens args @ rs)"
    using Cons.prems by (simp_all add: arguments_tokens_def)
  then show ?case
  proof (cases rule: argument_cases)
    case (1 t r)
    then show ?thesis
      using Cons.IH [of r] Cons.prems by (auto simp: p_arguments_Cons)
  next
    case (2 r)
    have "simple_argument BracketOpen = None"
      by (simp add: simple_argument_def)
    then show ?thesis
      using 2 Cons.IH [of r] Cons.prems by (cases ts) (auto simp: p_arguments_Cons)
  qed
qed

lemma p_test_list_accepts:
  assumes p: "accepts n p f ok (\<lambda>t rs. \<not> starts_argument rs)"
  shows "tests \<noteq> [] \<Longrightarrow> list_all ok tests \<Longrightarrow> map plain_token ts = separated Comma (map f tests) @ ParenClose # rs \<Longrightarrow>
    length ts < n \<Longrightarrow> length ts < m \<Longrightarrow> \<exists>r. p_test_list p m ts = Inr (tests, r) \<and> map plain_token r = ParenClose # rs"
proof (induction tests arbitrary: m ts)
  case (Cons t tests)
  obtain m' where m: "m = Suc m'"
    using Cons.prems(5) by (cases m) auto
  show ?case
  proof (cases "tests = []")
    case True
    obtain r where "p ts = Inr (t, r)" "map plain_token r = ParenClose # rs"
      using acceptsD [OF p, of ts t "ParenClose # rs"] Cons.prems True by auto
    then show ?thesis
      using True m by auto
  next
    case False
    have ts: "map plain_token ts = f t @ Comma # separated Comma (map f tests) @ ParenClose # rs"
      using Cons.prems(3) False by (simp add: separated_Cons)
    then obtain r where r: "p ts = Inr (t, r)" "map plain_token r = Comma # separated Comma (map f tests) @ ParenClose # rs"
      using acceptsD [OF p ts] Cons.prems by auto
    then obtain r' where r': "r = Comma # r'" "map plain_token r' = separated Comma (map f tests) @ ParenClose # rs"
      by (auto simp: map_eq_Cons_conv)
    have "length r < length ts \<or> length r = length ts"
      using arg_cong [OF ts, of length] arg_cong [OF r(2), of length] by auto
    then show ?thesis
      using Cons.IH [of r' m'] Cons.prems False r r' m by auto
  qed
qed simp

lemma length_rest: "map plain_token ts = us @ map plain_token r \<Longrightarrow> length r = length ts - length us"
  by (metis add_diff_cancel_left' length_append length_map)

lemma p_test_accepts: "accepts n (p_test n) test_tokens test_ok (\<lambda>t rs. \<not> starts_argument rs)"
proof (induction n)
  case (Suc n)
  show ?case
  proof (rule acceptsI)
    fix ts t rs
    assume len: "length ts < Suc n" and ts: "map plain_token ts = test_tokens t @ rs" and ok: "test_ok t" and rs: "\<not> starts_argument rs"
    obtain name args children where t: "t = Test name args children"
      by (cases t) auto
    then obtain r0 where r0: "ts = TIdentifier name # r0" "map plain_token r0 = tl (test_tokens t) @ rs"
      using ts by (auto simp: map_eq_Cons_conv)
    consider "name = ''allof'' \<or> name = ''anyof''" | "name = ''not''" | "name \<notin> {''allof'', ''anyof'', ''not''}"
      by blast
    then show "\<exists>r. p_test (Suc n) ts = Inr (t, r) \<and> map plain_token r = rs"
    proof cases
      case 1
      then obtain r1 where r1: "r0 = ParenOpen # r1" "map plain_token r1 = separated Comma (map test_tokens children) @ ParenClose # rs"
        using r0(2) t by (auto simp: map_eq_Cons_conv)
      then obtain r where "p_test_list (p_test n) (Suc (length r1)) r1 = Inr (children, r)" "map plain_token r = ParenClose # rs"
        using p_test_list_accepts [OF Suc.IH, of children r1 rs "Suc (length r1)"] 1 ok t len r0(1) by auto
      then show ?thesis
        using 1 r0(1) r1(1) t ok by (auto simp: p_identifier_def p_eat_def map_eq_Cons_conv simp del: p_test_list.simps)
    next
      case 2
      then obtain u where "children = [u]" "test_ok u" "args = []"
        using ok t by (auto simp: length_Suc_conv)
      then show ?thesis
        using 2 acceptsD [OF Suc.IH, of r0 u rs] r0 t len rs by (auto simp: p_identifier_def)
    next
      case 3
      then show ?thesis
        using p_arguments_accepts [of r0 args rs] r0 t ok rs by (auto simp: p_identifier_def)
    qed
  qed
qed (simp add: accepts_def)

lemma p_block_accepts:
  assumes "accepts n cmds script_tokens script_ok (\<lambda>cs rs. rs \<noteq> [] \<and> hd rs = BraceClose)" "length ts \<le> n" "script_ok body"
    "map plain_token ts = BraceOpen # script_tokens body @ BraceClose # rs"
  shows "\<exists>r. p_block cmds ts = Inr (body, r) \<and> map plain_token r = rs"
proof -
  obtain r0 where r0: "ts = BraceOpen # r0" "map plain_token r0 = script_tokens body @ BraceClose # rs"
    using assms(4) by (auto simp: map_eq_Cons_conv)
  then obtain r where "cmds r0 = Inr (body, BraceClose # r)" "map plain_token r = rs"
    using acceptsD [OF assms(1) r0(2)] assms(2, 3) by (auto simp: map_eq_Cons_conv)
  then show ?thesis
    using r0(1) by (simp add: p_block_def p_eat_def)
qed

lemma p_branch_accepts:
  assumes "accepts n cmds script_tokens script_ok (\<lambda>cs rs. rs \<noteq> [] \<and> hd rs = BraceClose)" "length ts \<le> n" "branch_ok b"
    "map plain_token ts = branch_tokens b @ rs"
  shows "\<exists>r. p_branch cmds ts = Inr (b, r) \<and> map plain_token r = rs"
proof -
  obtain t body where b: "b = Branch t body"
    by (cases b) auto
  then have ts: "map plain_token ts = test_tokens t @ BraceOpen # script_tokens body @ BraceClose # rs"
    using assms(4) by (simp add: script_tokens_def)
  obtain r0 where r0: "p_test (Suc (length ts)) ts = Inr (t, r0)" "map plain_token r0 = BraceOpen # script_tokens body @ BraceClose # rs"
    using acceptsD [OF p_test_accepts [of "Suc (length ts)"] ts] assms(3) b by (auto simp del: p_test.simps)
  then have "length r0 \<le> n"
    using length_rest [of ts "test_tokens t" r0] ts assms(2) by simp
  then obtain r where "p_block cmds r0 = Inr (body, r)" "map plain_token r = rs"
    using p_block_accepts [OF assms(1) _ _ r0(2)] assms(3) b by (auto simp: script_ok_def)
  then show ?thesis
    using r0(1) b by (simp add: p_branch_def)
qed

lemma p_elsifs_accepts:
  assumes cmds: "accepts n cmds script_tokens script_ok (\<lambda>cs rs. rs \<noteq> [] \<and> hd rs = BraceClose)"
    and rs: "rs = [] \<or> hd rs \<noteq> TIdentifier ''elsif''"
  shows "list_all branch_ok bs \<Longrightarrow> map plain_token ts = concat (map (\<lambda>b. TIdentifier ''elsif'' # branch_tokens b) bs) @ rs \<Longrightarrow>
    length ts \<le> n \<Longrightarrow> length ts < m \<Longrightarrow> \<exists>r. p_elsifs cmds m ts = Inr (bs, r) \<and> map plain_token r = rs"
proof (induction bs arbitrary: m ts)
  case Nil
  then show ?case
    using rs by (cases m; cases ts) auto
next
  case (Cons b bs)
  let ?rest = "concat (map (\<lambda>b. TIdentifier ''elsif'' # branch_tokens b) bs) @ rs"
  obtain m' r0 where m: "m = Suc m'" and r0: "ts = TIdentifier ''elsif'' # r0" "map plain_token r0 = branch_tokens b @ ?rest"
    using Cons.prems by (cases m) (auto simp: map_eq_Cons_conv)
  obtain r1 where r1: "p_branch cmds r0 = Inr (b, r1)" "map plain_token r1 = ?rest"
    using p_branch_accepts [OF cmds _ _ r0(2)] Cons.prems r0(1) by auto
  have "length r1 \<le> length r0"
    using length_rest [of r0 "branch_tokens b" r1] r0(2) r1(2) by simp
  then show ?case
    using Cons.IH [OF _ r1(2), of m'] Cons.prems r0(1) r1(1) m by auto
qed

lemma p_conditional_accepts:
  assumes cmds: "accepts n cmds script_tokens script_ok (\<lambda>cs rs. rs \<noteq> [] \<and> hd rs = BraceClose)"
    and c: "length ts \<le> n" "map plain_token ts = conditional_tokens c @ rs" "conditional_ok c" "c_otherwise c = None \<longrightarrow> \<not> claimed rs"
  shows "\<exists>r. p_conditional cmds ts = Inr (c, r) \<and> map plain_token r = rs"
proof -
  obtain b bs els where bs: "c = Conditional (b # bs) els" "branch_ok b" "list_all branch_ok bs"
    using c(3) by (cases c rule: conditional_ok.cases) (auto simp: neq_Nil_conv)
  define tail where "tail = (case els of None \<Rightarrow> [] | Some body \<Rightarrow> TIdentifier ''else'' # BraceOpen # script_tokens body @ [BraceClose]) @ rs"
  let ?elsifs = "concat (map (\<lambda>b. TIdentifier ''elsif'' # branch_tokens b) bs)"
  have ts: "map plain_token ts = branch_tokens b @ ?elsifs @ tail"
    using c(2) unfolding bs(1) conditional_tokens.simps separated_elsif by (simp add: tail_def script_tokens_def split: option.split)
  then obtain r0 where r0: "p_branch cmds ts = Inr (b, r0)" "map plain_token r0 = ?elsifs @ tail"
    using p_branch_accepts [OF cmds c(1) bs(2) ts] by auto
  have len: "length r0 \<le> n"
    using length_rest [of ts "branch_tokens b" r0] ts r0(2) c(1) by simp
  have "tail = [] \<or> hd tail \<noteq> TIdentifier ''elsif''"
    using c(4) bs(1) by (auto simp: tail_def claimed_def split: option.split)
  then obtain r1 where r1: "p_elsifs cmds (Suc (length r0)) r0 = Inr (bs, r1)" "map plain_token r1 = tail"
    using p_elsifs_accepts [OF cmds _ bs(3) r0(2) len] by blast
  have len1: "length r1 \<le> n"
    using length_rest [of r0 ?elsifs r1] r0(2) r1(2) len by simp
  show ?thesis
  proof (cases els)
    case None
    then have "\<not> (r1 \<noteq> [] \<and> hd r1 = TIdentifier ''else'')"
      using r1(2) c(4) bs(1) by (cases r1) (auto simp: tail_def claimed_def)
    then show ?thesis
      using None r0(1) r1 bs(1) by (auto simp: p_conditional_def tail_def simp del: p_elsifs.simps)
  next
    case (Some body)
    then obtain r2 where r2: "r1 = TIdentifier ''else'' # r2" "map plain_token r2 = BraceOpen # script_tokens body @ BraceClose # rs"
      using r1(2) by (auto simp: tail_def map_eq_Cons_conv)
    then obtain r where "p_block cmds r2 = Inr (body, r)" "map plain_token r = rs"
      using p_block_accepts [OF cmds _ _ r2(2)] len1 c(3) Some bs(1) by (auto simp: script_ok_def)
    then show ?thesis
      using Some r0(1) r1(1) r2(1) bs(1) by (simp add: p_conditional_def del: p_elsifs.simps)
  qed
qed

lemma p_command_accepts:
  assumes cmds: "accepts n cmds script_tokens script_ok (\<lambda>cs rs. rs \<noteq> [] \<and> hd rs = BraceClose)"
    and c: "length ts \<le> n" "map plain_token ts = command_tokens c @ rs" "command_ok c" "claims c \<longrightarrow> \<not> claimed rs"
  shows "\<exists>r. p_command cmds ts = Inr (c, r) \<and> map plain_token r = rs"
proof (cases c)
  case (Action name args)
  then obtain r0 where r0: "ts = TIdentifier name # r0" "map plain_token r0 = arguments_tokens args @ Semicolon # rs"
    using c(2) by (auto simp: map_eq_Cons_conv)
  then show ?thesis
    using p_arguments_accepts [OF r0(2)] c(3) Action
    by (auto simp: p_command_def p_identifier_def p_eat_def map_eq_Cons_conv)
next
  case (If d)
  then obtain r0 where "ts = TIdentifier ''if'' # r0" "map plain_token r0 = conditional_tokens d @ rs"
    using c(2) by (auto simp: map_eq_Cons_conv)
  then show ?thesis
    using p_conditional_accepts [OF cmds, of r0 d rs] c If by (auto simp: p_command_def p_identifier_def)
qed

lemma p_commands_accepts:
  "accepts n (p_commands n in_block) script_tokens script_ok (\<lambda>cs rs. rs = [] \<or> in_block \<and> hd rs = BraceClose)"
proof (induction n arbitrary: in_block)
  case (Suc n)
  have cmds: "accepts n (p_commands n True) script_tokens script_ok (\<lambda>cs rs. rs \<noteq> [] \<and> hd rs = BraceClose)"
    using Suc.IH [of True] unfolding accepts_def by blast
  show ?case
  proof (rule acceptsI)
    fix ts cs rs
    assume len: "length ts < Suc n" and ts: "map plain_token ts = script_tokens cs @ rs" and ok: "script_ok cs"
      and rs: "rs = [] \<or> in_block \<and> hd rs = BraceClose"
    show "\<exists>r. p_commands (Suc n) in_block ts = Inr (cs, r) \<and> map plain_token r = rs"
    proof (cases cs)
      case Nil
      then show ?thesis
        using ts rs by (cases ts) auto
    next
      case (Cons c cs')
      have "\<not> claimed rs"
        using rs by (auto simp: claimed_def)
      then have "claims c \<longrightarrow> \<not> claimed (script_tokens cs' @ rs)"
        using ok Cons by (cases cs') (auto simp: script_ok_Cons)
      then obtain r0 where r0: "p_command (p_commands n True) ts = Inr (c, r0)" "map plain_token r0 = script_tokens cs' @ rs"
        using p_command_accepts [OF cmds, of ts c "script_tokens cs' @ rs"] len ts ok Cons by (auto simp: script_ok_Cons)
      have start: "ts \<noteq> []" "hd ts \<noteq> BraceClose"
        using ts Cons by (cases c; cases ts; auto)+
      have "length r0 < n"
        using length_rest [of ts "command_tokens c" r0] ts r0(2) Cons len start(1) command_tokens_Cons [of c]
        by (cases "command_tokens c"; cases ts) auto
      then obtain r where "p_commands n in_block r0 = Inr (cs', r)" "map plain_token r = rs"
        using acceptsD [OF Suc.IH r0(2)] ok Cons rs by (auto simp: script_ok_Cons)
      then show ?thesis
        using r0(1) Cons start by simp
    qed
  qed
qed (simp add: accepts_def)

text \<open>C35. The parser decides the grammar: it returns a syntax tree exactly when that tree is well formed and the token
  stream is the one the tree stands for (up to how a string was quoted). So every script the language has is accepted, what
  is accepted has one reading, and no token of a script is skipped or read twice.\<close>

theorem sieve_parse_iff: "sieve_parse ts = Inr cs \<longleftrightarrow> script_ok cs \<and> map plain_token ts = script_tokens cs"
proof
  assume "sieve_parse ts = Inr cs"
  then have "p_commands (Suc (length ts)) False ts = Inr (cs, [])"
    by (auto simp: sieve_parse_def and_then_Inr_iff simp del: p_commands.simps split: if_splits)
  then show "script_ok cs \<and> map plain_token ts = script_tokens cs"
    using readsD [OF p_commands_reads] by fastforce
next
  assume *: "script_ok cs \<and> map plain_token ts = script_tokens cs"
  then obtain r where "p_commands (Suc (length ts)) False ts = Inr (cs, r)" "map plain_token r = []"
    using acceptsD [OF p_commands_accepts [of "Suc (length ts)" False], of ts cs "[]"] by (auto simp del: p_commands.simps)
  then show "sieve_parse ts = Inr cs"
    by (simp add: sieve_parse_def del: p_commands.simps)
qed

end
