(* ===== verification/Spec2Isabelle.thy ===== *)
theory Spec2Isabelle
  imports
    Smtp_Server
    Dkim_Sign
    Mailbox_Coherence
    Pop3_Server
    Srs
    Sieve_Syntax
begin

text \<open>
  A verification development for the epistle mail server (the Rust crate under \<^verbatim>\<open>src/\<close>).
\<close>

end
